(* ===== verification/Prelude.thy ===== *)
theory Prelude
  imports Main "HOL-Library.Word"
begin

text \<open>
  Shared vocabulary of the development: the machine integer types of the sources, the
  outcome of a C or C++ call, byte buffers that are written by \<^verbatim>\<open>memcpy\<close>
  and read back in slices, the in-memory representation of a \<^verbatim>\<open>uint32_t\<close>, and
  the contract of a transition system with an inductive invariant that the concurrent
  components instantiate.
\<close>

unbundle bit_operations_syntax

type_synonym u8 = "8 word"
type_synonym u32 = "32 word"
type_synonym u64 = "64 word"
type_synonym bytes = "8 word list"

named_theorems buffer_simps \<open>reading back what was stored in a byte buffer\<close>
named_theorems word_size_simps \<open>unsigned readings of word operations\<close>

subsection \<open>Outcomes of calls\<close>

text \<open>
  \<open>Returns\<close> is a normal return, \<open>Throws\<close> a C++ exception and \<open>Undefined\<close> a
  call whose behaviour the language leaves undefined (here: an access outside an object).
\<close>

datatype ('e, 'a) outcome = Returns 'a | Throws 'e | Undefined

subsection \<open>Byte buffers\<close>

definition slice :: "nat \<Rightarrow> nat \<Rightarrow> 'a list \<Rightarrow> 'a list" where
  "slice i n b = take n (drop i b)"

definition blit :: "nat \<Rightarrow> 'a list \<Rightarrow> 'a list \<Rightarrow> 'a list" where
  "blit i xs b = take i b @ xs @ drop (i + length xs) b"

text \<open>\<^verbatim>\<open>memcpy (b + i, xs, n)\<close> where \<open>n\<close> is the length of \<open>xs\<close>: undefined
  when the destination range leaves the object.\<close>

definition memcpy_at :: "nat \<Rightarrow> 'a list \<Rightarrow> 'a list \<Rightarrow> 'a list option" where
  "memcpy_at i xs b = (if i + length xs \<le> length b then Some (blit i xs b) else None)"

lemma length_slice [buffer_simps]: "i + n \<le> length b \<Longrightarrow> length (slice i n b) = n"
  by (simp add: slice_def)

lemma length_blit [buffer_simps]: "i + length xs \<le> length b \<Longrightarrow> length (blit i xs b) = length b"
  by (simp add: blit_def)

lemma nth_blit [buffer_simps]:
  assumes "i + length xs \<le> length b" "k < length b"
  shows "blit i xs b ! k = (if i \<le> k \<and> k < i + length xs then xs ! (k - i) else b ! k)"
  using assms by (auto simp: blit_def nth_append nth_Cons)

lemma slice_blit_same [buffer_simps]:
  "i + length xs \<le> length b \<Longrightarrow> slice i (length xs) (blit i xs b) = xs"
  by (simp add: slice_def blit_def)

lemma slice_cong:
  assumes "length b = length b'" and "\<And>k. i \<le> k \<Longrightarrow> k < i + n \<Longrightarrow> b ! k = b' ! k"
  shows "slice i n b = slice i n b'"
proof (cases "i \<le> length b")
  case True
  with assms show ?thesis
    by (intro nth_equalityI) (auto simp: slice_def)
next
  case False
  with assms(1) show ?thesis by (simp add: slice_def)
qed

lemma slice_blit_disjoint [buffer_simps]:
  assumes "i + length xs \<le> length b" "j + n \<le> length b" "j + n \<le> i \<or> i + length xs \<le> j"
  shows "slice j n (blit i xs b) = slice j n b"
  by (rule slice_cong) (use assms in \<open>auto simp: length_blit nth_blit\<close>)

lemma slice_blit_snoc:
  assumes "i + k < length b"
  shows "slice i (Suc k) (blit (i + k) [y] b) = slice i k b @ [y]"
  by (rule nth_equalityI)
    (use assms in \<open>auto simp: slice_def blit_def nth_append less_Suc_eq min_def\<close>)

text \<open>Copying one more element extends the copy.\<close>

lemma blit_snoc:
  assumes "i + length xs < length b"
  shows "blit (i + length xs) [y] (blit i xs b) = blit i (xs @ [y]) b"
  by (rule nth_equalityI)
    (use assms in \<open>auto simp: length_blit nth_blit nth_append not_less le_Suc_eq\<close>)

lemma memcpy_at_Some [simp]:
  "i + length xs \<le> length b \<Longrightarrow> memcpy_at i xs b = Some (blit i xs b)"
  by (simp add: memcpy_at_def)

subsection \<open>The representation of a 32-bit integer\<close>

datatype endian = Big_endian | Little_endian

definition u32_bytes :: "endian \<Rightarrow> u32 \<Rightarrow> bytes" where
  "u32_bytes e x =
     (let bs = [ucast (drop_bit 24 x), ucast (drop_bit 16 x), ucast (drop_bit 8 x), ucast x]
      in case e of Big_endian \<Rightarrow> bs | Little_endian \<Rightarrow> rev bs)"

definition u32_of_bytes :: "endian \<Rightarrow> bytes \<Rightarrow> u32" where
  "u32_of_bytes e bs =
     foldl (\<lambda>acc b. push_bit 8 acc OR ucast b) 0
       (case e of Big_endian \<Rightarrow> bs | Little_endian \<Rightarrow> rev bs)"

lemma length_u32_bytes [simp]: "length (u32_bytes e x) = 4"
  by (simp add: u32_bytes_def Let_def split: endian.split)

lemma u32_of_bytes_u32_bytes [simp]: "u32_of_bytes e (u32_bytes e x) = x"
proof (rule bit_word_eqI)
  fix n :: nat assume "n < LENGTH(32)"
  then consider "n < 8" | "8 \<le> n" "n < 16" | "16 \<le> n" "n < 24" | "24 \<le> n" "n < 32"
    by fastforce
  then show "bit (u32_of_bytes e (u32_bytes e x)) n = bit x n"
    by cases (cases e; simp add: u32_of_bytes_def u32_bytes_def bit_simps; arith)+
qed

lemma u32_bytes_inject [simp]: "u32_bytes e x = u32_bytes e y \<longleftrightarrow> x = y"
  by (metis u32_of_bytes_u32_bytes)

subsection \<open>Words read as numbers\<close>

lemma unat_add_no_overflow [word_size_simps]:
  fixes x y :: "'a::len word"
  assumes "unat x + unat y < 2 ^ LENGTH('a)"
  shows "unat (x + y) = unat x + unat y"
  using assms by (simp add: unat_word_ariths)

lemma unat_u32_less: "unat (x :: u32) < 4294967296"
  using unsigned_less [of x] by simp

lemma unat_u64_less: "unat (x :: u64) < 18446744073709551616"
  using unsigned_less [of x] by simp

subsection \<open>Transition systems with an inductive invariant\<close>

text \<open>
  The contract of every state machine of the development: a step relation and an invariant
  that each step keeps. A client of the contract gets the invariant in every state that a
  run reaches from a state in which it holds.
\<close>

locale invariant_system =
  fixes step :: "'s \<Rightarrow> 's \<Rightarrow> bool" and inv :: "'s \<Rightarrow> bool"
  assumes step_keeps: "step s t \<Longrightarrow> inv s \<Longrightarrow> inv t"
begin

lemma run_keeps: "step\<^sup>*\<^sup>* s t \<Longrightarrow> inv s \<Longrightarrow> inv t"
  by (induction rule: rtranclp_induct) (auto intro: step_keeps)

end

text \<open>A system whose steps, seen through an abstraction, are steps of another one or no steps at all.\<close>

locale functional_refinement = invariant_system +
  fixes astep :: "'b \<Rightarrow> 'b \<Rightarrow> bool" and abs :: "'a \<Rightarrow> 'b"
  assumes step_refines: "step s t \<Longrightarrow> inv s \<Longrightarrow> abs t = abs s \<or> astep (abs s) (abs t)"
begin

lemma run_refines: "step\<^sup>*\<^sup>* s t \<Longrightarrow> inv s \<Longrightarrow> astep\<^sup>*\<^sup>* (abs s) (abs t)"
proof (induction rule: rtranclp_induct)
  case (step t u)
  with run_keeps [OF step.hyps(1)] step_refines [of t u] show ?case
    by (auto intro: rtranclp.rtrancl_into_rtrancl)
qed simp

end

end
