(* ===== verification/LocklessPipe.thy ===== *)
theory LocklessPipe
  imports Prelude Complex_Main
begin

text \<open>
  The single-reader single-writer pipe of \<^verbatim>\<open>lockless_pipe/LocklessPipe.hpp\<close>: its
  members as a record, one definition per member function, 32-bit and 64-bit arithmetic kept
  at its width. The template arguments are the record \<open>pipe_params\<close> (the pipe size, and
  the byte order of the target, which \<^verbatim>\<open>memcpy\<close> of the length word exposes);
  \<^verbatim>\<open>Data\<close> is a byte string. The member \<^verbatim>\<open>read\<close> is declared in the class but
  defined nowhere in the repository: \<open>pop\<close> and \<open>peek\<close> take it as an argument.
  \<^verbatim>\<open>Atom\<close>, which is not in the repository either, is used as a 64-bit cell that is
  loaded and stored as a whole.
\<close>

subsection \<open>State\<close>

text \<open>Fields are the class's members without the trailing underscore.\<close>

record pipe_params =
  PIPE_SIZE :: u32
  byte_order :: endian

datatype pipe_exn = Interrupted | InternalReadError | ErrnoException

record lockless_pipe =
  numRead :: u64
  numWritten :: u64
  numFailedWrites :: u64
  stomp1 :: u64
  readVPtr :: u64
  stomp2 :: u64
  writeVPtr :: u64
  stomp3 :: u64
  nextWriteVPtr :: u64
  stomp4 :: u64
  isReaderRunning :: bool
  isWriterRunning :: bool
  buf :: bytes

text \<open>
  What the other threads do to the pipe while this thread is in its \<open>i\<close>-th sleep, and
  the effect of a \<^verbatim>\<open>PreWaitFunctor\<close> (\<open>None\<close> is the null pointer).
\<close>

type_synonym sleep_env = "nat \<Rightarrow> lockless_pipe \<Rightarrow> lockless_pipe"
type_synonym prewait = "(lockless_pipe \<Rightarrow> lockless_pipe) option"

subsection \<open>Constants\<close>

definition NEVER_TIME_OUT :: u64 where
  "NEVER_TIME_OUT = - 1"

definition NUM_NANOSECONDS_PER_MICROSECOND :: u64 where
  "NUM_NANOSECONDS_PER_MICROSECOND = 1000"

definition NUM_NANOSECONDS_PER_SECOND :: u64 where
  "NUM_NANOSECONDS_PER_SECOND = 1000000000"

definition NUM_MICROSECONDS_PER_SECOND :: u64 where
  "NUM_MICROSECONDS_PER_SECOND = 1000000"

text \<open>The subtraction is done in \<^verbatim>\<open>size_t\<close> and its result cut to 32 bits.\<close>

definition MAX_PIPE_ELEMENT_SIZE :: "pipe_params \<Rightarrow> u32" where
  "MAX_PIPE_ELEMENT_SIZE c = ucast (ucast (PIPE_SIZE c div 2) - (4 + 1) :: u64)"

definition STOMP :: u64 where
  "STOMP = 0xDEADBEEF"

definition getMaxPipeElementSize :: "pipe_params \<Rightarrow> u32" where
  "getMaxPipeElementSize c = MAX_PIPE_ELEMENT_SIZE c"

subsection \<open>Versioned pointers\<close>

definition getVersionedPointer :: "u32 \<Rightarrow> u32 \<Rightarrow> u64" where
  "getVersionedPointer version ptr = ucast ptr OR push_bit 32 (ucast version)"

definition getVersion :: "u64 \<Rightarrow> u32" where
  "getVersion vPointer = ucast (drop_bit 32 vPointer)"

definition getPointer :: "u64 \<Rightarrow> u32" where
  "getPointer vPointer = ucast (vPointer AND 0xFFFFFFFF)"

subsection \<open>Construction and inspection\<close>

definition clear :: "lockless_pipe \<Rightarrow> lockless_pipe" where
  "clear p = p\<lparr>readVPtr := 0, writeVPtr := 0, nextWriteVPtr := 0,
               numRead := 0, numWritten := 0\<rparr>"

text \<open>The constructor, run on the storage \<open>raw\<close> whose contents are arbitrary.\<close>

definition LocklessPipe :: "lockless_pipe \<Rightarrow> lockless_pipe" where
  "LocklessPipe raw =
     (clear (raw\<lparr>numFailedWrites := 0, stomp1 := STOMP, stomp2 := STOMP,
                 stomp3 := STOMP, stomp4 := STOMP\<rparr>))
       \<lparr>isWriterRunning := True, isReaderRunning := True\<rparr>"

definition startWriter :: "lockless_pipe \<Rightarrow> lockless_pipe" where
  "startWriter p = p\<lparr>isWriterRunning := True\<rparr>"

definition stopWriter :: "lockless_pipe \<Rightarrow> lockless_pipe" where
  "stopWriter p = p\<lparr>isWriterRunning := False\<rparr>"

definition startReader :: "lockless_pipe \<Rightarrow> lockless_pipe" where
  "startReader p = p\<lparr>isReaderRunning := True\<rparr>"

text \<open>\<^verbatim>\<open>wakeup(const NoWakeupPolicy&)\<close> is empty. \<^verbatim>\<open>stopReader\<close> is not among the operations: it assigns to
  \<^verbatim>\<open>isReaderRunning\<close>, the name of a member function, and so compiles only until it is used.\<close>

definition wakeup :: "lockless_pipe \<Rightarrow> lockless_pipe" where
  "wakeup p = p"

definition getPipeSize :: "pipe_params \<Rightarrow> u32" where
  "getPipeSize c = PIPE_SIZE c"

definition count :: "lockless_pipe \<Rightarrow> u32" where
  "count p = ucast (numWritten p - numRead p)"

definition isEmpty :: "lockless_pipe \<Rightarrow> bool" where
  "isEmpty p \<longleftrightarrow> readVPtr p = writeVPtr p"

text \<open>\<^verbatim>\<open>percentFull\<close> is computed in \<^verbatim>\<open>double\<close>; here in exact rationals.\<close>

definition percentFull :: "pipe_params \<Rightarrow> lockless_pipe \<Rightarrow> rat" where
  "percentFull c p =
     (let rptr = getPointer (readVPtr p); wptr = getPointer (writeVPtr p)
      in 100 * of_nat (unat (if rptr > wptr then PIPE_SIZE c - (rptr - wptr) else wptr - rptr))
           / of_nat (unat (PIPE_SIZE c)))"

definition wakeupReader :: "lockless_pipe \<Rightarrow> lockless_pipe" where
  "wakeupReader p = (if \<not> isEmpty p then wakeup p else p)"

definition isWrap :: "pipe_params \<Rightarrow> u32 \<Rightarrow> u32 \<Rightarrow> bool" where
  "isWrap c len ptr \<longleftrightarrow> ptr + len > PIPE_SIZE c"

definition isFull :: "pipe_params \<Rightarrow> lockless_pipe \<Rightarrow> u32 \<Rightarrow> bool" where
  "isFull c p len =
     (let localReadPtr = getPointer (readVPtr p); localWritePtr = getPointer (writeVPtr p)
      in if localReadPtr > localWritePtr
         then \<not> (localWritePtr + (len + 4) < localReadPtr)
         else if isWrap c 4 localWritePtr
         then \<not> (len + 4 < localReadPtr)
         else let tempIndex = localWritePtr + 4
              in if isWrap c len tempIndex then \<not> (len < localReadPtr) else False)"

text \<open>\<^verbatim>\<open>validate\<close> without its diagnostics: each failed check clears \<^verbatim>\<open>valid\<close>.\<close>

definition validate :: "pipe_params \<Rightarrow> lockless_pipe \<Rightarrow> bool" where
  "validate c p =
     (let rv = readVPtr p; wv = writeVPtr p;
          valid = True;
          valid = (if numRead p > numWritten p then False else valid);
          valid = (if getVersion wv - getVersion rv > 1 then False else valid);
          valid = (if getPointer wv > PIPE_SIZE c then False else valid);
          valid = (if getPointer rv > PIPE_SIZE c then False else valid);
          valid = (if getPointer wv = getPointer rv
                      \<and> getVersion wv \<noteq> getVersion rv then False else valid);
          valid = (if stomp1 p \<noteq> STOMP \<or> stomp2 p \<noteq> STOMP \<or> stomp3 p \<noteq> STOMP \<or> stomp4 p \<noteq> STOMP
                   then False else valid)
      in valid)"

subsection \<open>Writing\<close>

text \<open>The polling loop of \<^verbatim>\<open>startWrite\<close>; \<open>None\<close> is a loop that never ends.\<close>

partial_function (option) startWrite_poll ::
  "pipe_params \<Rightarrow> sleep_env \<Rightarrow> u32 \<Rightarrow> bool \<Rightarrow> nat \<Rightarrow> lockless_pipe
    \<Rightarrow> (lockless_pipe \<times> bool) option" where
  "startWrite_poll c env len block i p =
     (let full = isFull c p len
      in if full \<and> isWriterRunning p \<and> block
         then startWrite_poll c env len block (Suc i) (env i (wakeup p))
         else Some (p, full))"

text \<open>
  Where the element goes: the position of its length word, the position of its data, and the
  version after the write.
\<close>

definition startWrite_place :: "pipe_params \<Rightarrow> u64 \<Rightarrow> u32 \<Rightarrow> u32 \<times> u32 \<times> u32" where
  "startWrite_place c vPointer len =
     (let localWritePtr = getPointer vPointer; localWriteVersion = getVersion vPointer;
          (localWritePtr, localWriteVersion) =
            (if isWrap c 4 localWritePtr then (0, localWriteVersion + 1)
             else (localWritePtr, localWriteVersion));
          lengthPtr = localWritePtr;
          localWritePtr = localWritePtr + 4;
          (localWritePtr, localWriteVersion) =
            (if isWrap c len localWritePtr then (0, localWriteVersion + 1)
             else (localWritePtr, localWriteVersion))
      in (lengthPtr, localWritePtr, localWriteVersion))"

definition startWrite_reserve ::
  "pipe_params \<Rightarrow> lockless_pipe \<Rightarrow> u32 \<Rightarrow> (pipe_exn, u32 option) outcome \<times> lockless_pipe" where
  "startWrite_reserve c p len =
     (let (lengthPtr, localWritePtr, localWriteVersion) = startWrite_place c (writeVPtr p) len;
          p = p\<lparr>nextWriteVPtr := getVersionedPointer localWriteVersion (localWritePtr + len)\<rparr>
      in case memcpy_at (unat lengthPtr) (u32_bytes (byte_order c) len) (buf p) of
           None \<Rightarrow> (Undefined, p)
         | Some b \<Rightarrow> (Returns (Some localWritePtr), p\<lparr>buf := b\<rparr>))"

definition startWrite ::
  "pipe_params \<Rightarrow> sleep_env \<Rightarrow> lockless_pipe \<Rightarrow> u32 \<Rightarrow> bool
    \<Rightarrow> ((pipe_exn, u32 option) outcome \<times> lockless_pipe) option" where
  "startWrite c env p len block =
     (if len > MAX_PIPE_ELEMENT_SIZE c then Some (Returns None, p)
      else case startWrite_poll c env len block 0 p of
             None \<Rightarrow> None
           | Some (p, full) \<Rightarrow>
               Some (if \<not> isWriterRunning p then (Throws Interrupted, p)
                     else if \<not> block \<and> full then (Returns None, p)
                     else startWrite_reserve c p len))"

definition finishWrite :: "lockless_pipe \<Rightarrow> lockless_pipe" where
  "finishWrite p =
     (let p = p\<lparr>numWritten := numWritten p + 1\<rparr>
      in p\<lparr>writeVPtr := nextWriteVPtr p\<rparr>)"

text \<open>
  \<open>push\<close> passes the length cut to 32 bits to \<open>startWrite\<close> and copies the whole value.
\<close>

definition push ::
  "pipe_params \<Rightarrow> sleep_env \<Rightarrow> lockless_pipe \<Rightarrow> bytes
    \<Rightarrow> ((pipe_exn, unit) outcome \<times> lockless_pipe) option" where
  "push c env p value =
     (case startWrite c env p (word_of_nat (length value)) True of
        None \<Rightarrow> None
      | Some (Throws e, p) \<Rightarrow> Some (Throws e, p)
      | Some (Undefined, p) \<Rightarrow> Some (Undefined, p)
      | Some (Returns None, p) \<Rightarrow> Some (Returns (), p)
      | Some (Returns (Some ptr), p) \<Rightarrow>
          (case memcpy_at (unat ptr) value (buf p) of
             None \<Rightarrow> Some (Undefined, p)
           | Some b \<Rightarrow> Some (Returns (), finishWrite (p\<lparr>buf := b\<rparr>))))"

subsection \<open>Reading\<close>

text \<open>
  \<^verbatim>\<open>read(buf, peek, timeOut, func)\<close>, as the callers see it: the length it returns, the
  bytes it leaves in the caller's buffer, and the pipe afterwards.
\<close>

type_synonym reader =
  "bool \<Rightarrow> u64 \<Rightarrow> prewait \<Rightarrow> lockless_pipe \<Rightarrow> (pipe_exn, u32 \<times> bytes) outcome \<times> lockless_pipe"

definition peek :: "reader \<Rightarrow> lockless_pipe \<Rightarrow> (pipe_exn, u32 \<times> bytes) outcome \<times> lockless_pipe" where
  "peek read p = read True 0 None p"

definition pop :: "reader \<Rightarrow> prewait \<Rightarrow> lockless_pipe \<Rightarrow> (pipe_exn, bytes) outcome \<times> lockless_pipe" where
  "pop read func p =
     (case read False NEVER_TIME_OUT func p of
        (Throws e, p) \<Rightarrow> (Throws e, p)
      | (Undefined, p) \<Rightarrow> (Undefined, p)
      | (Returns (len, buffer), p) \<Rightarrow>
          if len = 0 then (Throws InternalReadError, p)
          else (Returns (take (unat len) buffer), p))"

subsection \<open>Waiting on an empty pipe\<close>

definition call_prewait :: "prewait \<Rightarrow> lockless_pipe \<Rightarrow> lockless_pipe" where
  "call_prewait func p = (case func of None \<Rightarrow> p | Some f \<Rightarrow> f p)"

partial_function (option) wait_forever ::
  "sleep_env \<Rightarrow> prewait \<Rightarrow> nat \<Rightarrow> lockless_pipe \<Rightarrow> lockless_pipe option" where
  "wait_forever env func i p =
     (if isEmpty p \<and> isReaderRunning p
      then wait_forever env func (Suc i) (env i (call_prewait func p))
      else Some p)"

text \<open>
  \<open>clock i\<close> is the \<open>i\<close>-th answer of \<^verbatim>\<open>gettimeofday\<close>, seconds and microseconds,
  \<open>None\<close> when the call fails.
\<close>

type_synonym clock = "nat \<Rightarrow> (u64 \<times> u64) option"

definition nsecs :: "u64 \<times> u64 \<Rightarrow> u64" where
  "nsecs tv = fst tv * NUM_NANOSECONDS_PER_SECOND + snd tv * NUM_NANOSECONDS_PER_MICROSECOND"

partial_function (option) wait_until ::
  "sleep_env \<Rightarrow> prewait \<Rightarrow> clock \<Rightarrow> u64 \<Rightarrow> u64 \<Rightarrow> bool \<Rightarrow> nat \<Rightarrow> lockless_pipe
    \<Rightarrow> ((pipe_exn, unit) outcome \<times> lockless_pipe) option" where
  "wait_until env func clk timeOut timeoutNSecs timedOut i p =
     (if isEmpty p \<and> isReaderRunning p \<and> \<not> timedOut
      then (let p = env i (if timeOut \<noteq> 0 then call_prewait func p else p)
            in case clk (Suc i) of
                 None \<Rightarrow> Some (Throws ErrnoException, p)
               | Some tv \<Rightarrow>
                   wait_until env func clk timeOut timeoutNSecs (nsecs tv \<ge> timeoutNSecs) (Suc i) p)
      else Some (Returns (), p))"

definition wait ::
  "sleep_env \<Rightarrow> prewait \<Rightarrow> clock \<Rightarrow> u64 \<Rightarrow> lockless_pipe
    \<Rightarrow> ((pipe_exn, unit) outcome \<times> lockless_pipe) option" where
  "wait env func clk timeOut p =
     (if NEVER_TIME_OUT = timeOut
      then map_option (\<lambda>p. (Returns (), p)) (wait_forever env func 0 p)
      else if timeOut < 1000 * NUM_NANOSECONDS_PER_MICROSECOND
      then Some (Returns (), env 0 (if timeOut \<noteq> 0 then call_prewait func p else p))
      else case clk 0 of
             None \<Rightarrow> Some (Throws ErrnoException, p)
           | Some tv \<Rightarrow> wait_until env func clk timeOut (timeOut + nsecs tv) False 0 p)"

end
