(* ===== verification/PipeLayout.thy ===== *)
theory PipeLayout
  imports Prelude
begin

text \<open>
  The arrangement of elements in the pipe's buffer, over natural numbers and independent of the
  code: an element is a four-byte length word followed by its data, neither of the two ever
  crosses the end of the buffer, and a cursor is a wrap count with an offset. \<open>layout\<close> says
  that the bytes between two cursors hold a given sequence of elements; its lemmas are what
  the pipe's refinement proof rests on.
\<close>

named_theorems layout_simps \<open>case analysis of element placement\<close>

type_synonym cursor = "nat \<times> nat"

subsection \<open>Placement of one element\<close>

definition fits :: "nat \<Rightarrow> nat \<Rightarrow> bool" where
  "fits S n \<longleftrightarrow> 2 * (n + 5) \<le> S"

definition slot :: "nat \<Rightarrow> cursor \<Rightarrow> nat \<Rightarrow> nat \<times> nat \<times> nat" where
  "slot S a n =
     (let (v, p) = a;
          (lp, v1) = (if p + 4 > S then (0, Suc v) else (p, v))
      in if lp + 4 + n > S then (lp, 0, Suc v1) else (lp, lp + 4, v1))"

lemma slot_no_wrap [layout_simps]: "p + 4 + n \<le> S \<Longrightarrow> slot S (v, p) n = (p, p + 4, v)"
  by (simp add: slot_def)

lemma slot_data_wrap [layout_simps]:
  "p + 4 \<le> S \<Longrightarrow> S < p + 4 + n \<Longrightarrow> slot S (v, p) n = (p, 0, Suc v)"
  by (simp add: slot_def)

lemma slot_length_wrap [layout_simps]:
  "S < p + 4 \<Longrightarrow> fits S n \<Longrightarrow> slot S (v, p) n = (0, 4, Suc v)"
  by (simp add: slot_def fits_def)

lemma slot_cases [consumes 1, case_names no_wrap data_wrap length_wrap]:
  assumes "fits S n"
  obtains "p + 4 + n \<le> S" "slot S (v, p) n = (p, p + 4, v)"
    | "p + 4 \<le> S" "S < p + 4 + n" "slot S (v, p) n = (p, 0, Suc v)"
    | "S < p + 4" "slot S (v, p) n = (0, 4, Suc v)"
  using assms by (metis not_le slot_data_wrap slot_length_wrap slot_no_wrap)

subsection \<open>Sequences of elements\<close>

fun layout :: "endian \<Rightarrow> nat \<Rightarrow> bytes \<Rightarrow> cursor \<Rightarrow> bytes list \<Rightarrow> cursor \<Rightarrow> bool" where
  "layout e S b a [] z \<longleftrightarrow> a = z"
| "layout e S b a (x # xs) z \<longleftrightarrow>
     fits S (length x) \<and>
     (case slot S a (length x) of (lp, dp, v) \<Rightarrow>
        slice lp 4 b = u32_bytes e (word_of_nat (length x)) \<and>
        slice dp (length x) b = x \<and>
        layout e S b (v, dp + length x) xs z)"

text \<open>The bytes that lie between two cursors at most one wrap apart.\<close>

definition region :: "nat \<Rightarrow> cursor \<Rightarrow> cursor \<Rightarrow> nat set" where
  "region S a z = (if fst a = fst z then {snd a..<snd z} else {snd a..<S} \<union> {0..<snd z})"

lemma layout_append:
  "layout e S b a (xs @ ys) z \<longleftrightarrow> (\<exists>m. layout e S b a xs m \<and> layout e S b m ys z)"
  by (induction xs arbitrary: a) (auto split: prod.splits)

lemma layout_progress:
  assumes "layout e S b (v, p) q (v', w)" "p \<le> S"
  shows "w \<le> S \<and> v \<le> v' \<and> (v' = v \<longrightarrow> p + 4 * length q \<le> w)"
  using assms
proof (induction q arbitrary: v p)
  case Nil
  then show ?case by simp
next
  case (Cons x q)
  then have "fits S (length x)" by simp
  then show ?case
  proof (cases rule: slot_cases [where v = v and p = p])
    case no_wrap
    with Cons.prems Cons.IH [of v "p + 4 + length x"] show ?thesis by auto
  next
    case data_wrap
    with Cons.prems Cons.IH [of "Suc v" "length x"] \<open>fits S (length x)\<close> show ?thesis
      by (auto simp: fits_def)
  next
    case length_wrap
    with Cons.prems Cons.IH [of "Suc v" "4 + length x"] \<open>fits S (length x)\<close> show ?thesis
      by (auto simp: fits_def)
  qed
qed

lemma layout_Nil_iff:
  "layout e S b (v, p) q (v', w) \<Longrightarrow> p \<le> S \<Longrightarrow> q = [] \<longleftrightarrow> v' = v \<and> w = p"
  using layout_progress [of e S b v p q v' w] by (cases q) auto

text \<open>The first element and the elements after it lie in the region between the cursors.\<close>

lemma slot_in_region:
  assumes slot: "slot S (v, p) n = (lp, dp, u)" and rest: "layout e S b (u, dp + n) q (v', w)"
    and fits: "fits S n" and bounds: "p \<le> S" "v' \<le> Suc v"
  shows "{lp..<lp + 4} \<union> {dp..<dp + n} \<union> region S (u, dp + n) (v', w) \<subseteq> region S (v, p) (v', w)"
    and "dp + n \<le> S" "v' \<le> Suc u"
proof -
  from slot fits show end_le: "dp + n \<le> S"
    by (cases rule: slot_cases [OF fits, where v = v and p = p]) (auto simp: fits_def)
  note progress = layout_progress [OF rest end_le]
  from slot bounds show "v' \<le> Suc u" by (cases rule: slot_cases [OF fits, where v = v and p = p]) auto
  from slot progress bounds
  show "{lp..<lp + 4} \<union> {dp..<dp + n} \<union> region S (u, dp + n) (v', w) \<subseteq> region S (v, p) (v', w)"
    by (cases rule: slot_cases [OF fits, where v = v and p = p]) (auto simp: region_def split: if_splits)
qed

text \<open>Storing outside the region between the cursors leaves the sequence as it is.\<close>

lemma layout_frame:
  assumes "layout e S b (v, p) q (v', w)" "p \<le> S" "v' \<le> Suc v"
    and len: "length b = S" "length b' = S"
    and same: "\<And>k. k \<in> region S (v, p) (v', w) \<Longrightarrow> b ! k = b' ! k"
  shows "layout e S b' (v, p) q (v', w)"
  using assms(1-3) same
proof (induction q arbitrary: v p)
  case Nil
  then show ?case by simp
next
  case (Cons x q)
  obtain lp dp u where slot: "slot S (v, p) (length x) = (lp, dp, u)" by (rule prod_cases3)
  with Cons.prems have fits: "fits S (length x)" and rest: "layout e S b (u, dp + length x) q (v', w)" by simp_all
  note place = slot_in_region [OF slot rest fits Cons.prems(2,3)]
  have "slice lp 4 b = slice lp 4 b'" "slice dp (length x) b = slice dp (length x) b'"
    by (rule slice_cong; use place(1) Cons.prems(4) len in auto)+
  moreover have "layout e S b' (u, dp + length x) q (v', w)"
    by (rule Cons.IH [OF rest place(2,3)]) (use place(1) Cons.prems(4) in blast)
  ultimately show ?case using Cons.prems(1) slot by simp
qed

subsection \<open>Room for one more element\<close>

text \<open>Two cursors of a ring: not wrapped, or wrapped once with the head behind the tail.\<close>

definition ring_cursors :: "cursor \<Rightarrow> cursor \<Rightarrow> bool" where
  "ring_cursors a z \<longleftrightarrow> fst z = fst a \<or> fst z = Suc (fst a) \<and> snd z < snd a"

definition has_room :: "nat \<Rightarrow> nat \<Rightarrow> nat \<Rightarrow> nat \<Rightarrow> bool" where
  "has_room S r w n =
     (if w < r then w + n + 4 < r
      else if S < w + 4 then n + 4 < r
      else if S < w + 4 + n then n < r
      else True)"

lemma empty_has_room: "fits S n \<Longrightarrow> p \<le> S \<Longrightarrow> has_room S p p n"
  by (auto simp: has_room_def fits_def)

lemma ring_order:
  assumes "layout e S b (v, r) q (v', w)" "r \<le> S" "ring_cursors (v, r) (v', w)"
  shows "v' = (if w < r then Suc v else v)" and "w \<le> S"
  using assms layout_progress [OF assms(1,2)] by (auto simp: ring_cursors_def)

text \<open>Where a new element goes lies inside the buffer, outside the occupied region, and its
  length word and data do not overlap.\<close>

lemma slot_free:
  assumes fits: "fits S n" and r: "r \<le> S" and w: "w \<le> S"
    and v': "v' = (if w < r then Suc v else v)"
    and room: "has_room S r w n" and sl: "slot S (v', w) n = (lp, dp, v'')"
  shows "lp + 4 \<le> S" "dp + n \<le> S" "lp + 4 \<le> dp \<or> dp + n \<le> lp"
    "({lp..<lp + 4} \<union> {dp..<dp + n}) \<inter> region S (v, r) (v', w) = {}"
    "ring_cursors (v, r) (v'', dp + n)" "v' \<le> v''"
  using fits
proof -
  have *: "lp + 4 \<le> S \<and> dp + n \<le> S \<and> (lp + 4 \<le> dp \<or> dp + n \<le> lp) \<and>
    ({lp..<lp + 4} \<union> {dp..<dp + n}) \<inter> region S (v, r) (v', w) = {} \<and>
    ring_cursors (v, r) (v'', dp + n) \<and> v' \<le> v''"
    using fits
  proof (cases rule: slot_cases [where v = v' and p = w])
    case no_wrap
    with sl room r v' show ?thesis
      by (auto simp: has_room_def region_def ring_cursors_def split: if_splits)
  next
    case data_wrap
    with sl room r v' fits show ?thesis
      by (auto simp: has_room_def region_def ring_cursors_def fits_def split: if_splits)
  next
    case length_wrap
    with sl room r w v' fits show ?thesis
      by (auto simp: has_room_def region_def ring_cursors_def fits_def split: if_splits)
  qed
  then show "lp + 4 \<le> S" "dp + n \<le> S" "lp + 4 \<le> dp \<or> dp + n \<le> lp"
    "({lp..<lp + 4} \<union> {dp..<dp + n}) \<inter> region S (v, r) (v', w) = {}"
    "ring_cursors (v, r) (v'', dp + n)" "v' \<le> v''" by blast+
qed

text \<open>Once length word and data are in their slot, the sequence is one element longer.\<close>

lemma layout_snoc:
  assumes "layout e S b (v, r) q (v', w)" "fits S (length x)"
    and "slot S (v', w) (length x) = (lp, dp, v'')"
    and "slice lp 4 b = u32_bytes e (word_of_nat (length x))" "slice dp (length x) b = x"
  shows "layout e S b (v, r) (q @ [x]) (v'', dp + length x)"
  unfolding layout_append using assms by (intro exI [of _ "(v', w)"]) simp

lemma layout_store:
  assumes lay: "layout e S b (v, r) q (v', w)" and "r \<le> S"
    and ring: "ring_cursors (v, r) (v', w)"
    and len: "length b = S" and fit: "i + length ys \<le> S"
    and out: "{i..<i + length ys} \<inter> region S (v, r) (v', w) = {}"
  shows "layout e S (blit i ys b) (v, r) q (v', w)"
proof (rule layout_frame [OF lay \<open>r \<le> S\<close> _ len])
  show "v' \<le> Suc v" using ring by (auto simp: ring_cursors_def)
  show "length (blit i ys b) = S" using len fit by (simp add: buffer_simps)
next
  fix k assume "k \<in> region S (v, r) (v', w)"
  moreover from this out have "\<not> (i \<le> k \<and> k < i + length ys)" by auto
  moreover have "k < S"
    using calculation layout_progress [OF lay \<open>r \<le> S\<close>] by (auto simp: region_def split: if_splits)
  ultimately show "b ! k = blit i ys b ! k" using len fit by (auto simp: buffer_simps)
qed

lemma layout_push:
  assumes lay: "layout e S b (v, r) q (v', w)" and r: "r \<le> S"
    and ring: "ring_cursors (v, r) (v', w)"
    and len: "length b = S" and fit: "fits S (length x)" and room: "has_room S r w (length x)"
    and sl: "slot S (v', w) (length x) = (lp, dp, v'')"
    and b': "b' = blit dp x (blit lp (u32_bytes e (word_of_nat (length x))) b)"
  shows "layout e S b' (v, r) (q @ [x]) (v'', dp + length x)"
proof -
  note order = ring_order [OF lay r ring]
  note free = slot_free [OF fit r order(2) order(1) room sl]
  let ?h = "u32_bytes e (word_of_nat (length x))"
  have 1: "layout e S (blit lp ?h b) (v, r) q (v', w)"
    by (rule layout_store [OF lay r ring len]) (use free in auto)
  have len1: "length (blit lp ?h b) = S" using len free by (simp add: buffer_simps)
  have 2: "layout e S b' (v, r) q (v', w)"
    unfolding b' by (rule layout_store [OF 1 r ring len1]) (use free in auto)
  have "slice lp 4 b' = slice lp 4 (blit lp ?h b)" unfolding b'
    by (rule slice_blit_disjoint) (use free len1 in auto)
  also have "\<dots> = ?h" using slice_blit_same [of lp ?h b] free len by simp
  finally have "slice lp 4 b' = ?h" .
  moreover have "slice dp (length x) b' = x" unfolding b'
    by (rule slice_blit_same) (use free len1 in auto)
  ultimately show ?thesis using layout_snoc [OF 2 fit sl] by simp
qed

subsection \<open>Consuming the oldest element\<close>

lemma layout_pop:
  assumes "layout e S b (v, r) (x # q) (v', w)" "r \<le> S" "ring_cursors (v, r) (v', w)"
    and "slot S (v, r) (length x) = (lp, dp, u)"
  shows "layout e S b (u, dp + length x) q (v', w)" "dp + length x \<le> S"
    "ring_cursors (u, dp + length x) (v', w)" "slice lp 4 b = u32_bytes e (word_of_nat (length x))"
    "slice dp (length x) b = x" "fits S (length x)" "lp + 4 \<le> S"
proof -
  from assms(1,4) show lay: "layout e S b (u, dp + length x) q (v', w)"
    and "slice lp 4 b = u32_bytes e (word_of_nat (length x))"
    and "slice dp (length x) b = x" and fit: "fits S (length x)" by auto
  have *: "dp + length x \<le> S \<and> lp + 4 \<le> S \<and> (u = v \<and> r \<le> dp + length x \<or> u = Suc v)"
    using fit
    by (cases rule: slot_cases [where v = v and p = r]) (use assms(4) fit in \<open>auto simp: fits_def\<close>)
  then show "dp + length x \<le> S" "lp + 4 \<le> S" by simp_all
  from layout_progress [OF lay] * have "u \<le> v'" by simp
  with * assms(3) show "ring_cursors (u, dp + length x) (v', w)"
    by (auto simp: ring_cursors_def)
qed

text \<open>Consuming makes no room disappear.\<close>

lemma has_room_pop:
  assumes lay: "layout e S b (v, r) (x # q) (v', w)" and r: "r \<le> S"
    and ring: "ring_cursors (v, r) (v', w)"
    and sl: "slot S (v, r) (length x) = (lp, dp, u)" and room: "has_room S r w n"
  shows "has_room S (dp + length x) w n"
proof -
  note pop = layout_pop [OF lay r ring sl] and order = ring_order [OF lay r ring]
  have "u = v \<and> r \<le> dp + length x \<or> u = Suc v"
    using pop(6)
    by (cases rule: slot_cases [where v = v and p = r]) (use sl in auto)
  moreover have "v' = (if w < dp + length x then Suc u else u)"
    by (rule ring_order(1) [OF pop(1-3)])
  ultimately show ?thesis
    using room r order by (auto simp: has_room_def split: if_splits)
qed

text \<open>The cursors and the bytes between them determine the sequence.\<close>

lemma layout_unique:
  assumes "layout e S b (v, p) q (v', w)" "layout e S b (u, p) q' (u', w)"
    and "p \<le> S" "v' - v = u' - u" "v \<le> v'" "u \<le> u'" "S < 2 ^ 32"
  shows "q = q'"
  using assms
proof (induction q arbitrary: v u p q')
  case Nil
  then show ?case
    using layout_Nil_iff [of e S b u p q' u' w] by auto
next
  case (Cons x q)
  then have "q' \<noteq> []"
    using layout_Nil_iff [of e S b v p "x # q" v' w] by auto
  then obtain y q2 where q': "q' = y # q2" by (cases q') auto
  obtain lp dp v1 where s1: "slot S (v, p) (length x) = (lp, dp, v1)" by (metis prod_cases3)
  obtain lp2 dp2 u1 where s2: "slot S (u, p) (length y) = (lp2, dp2, u1)" by (metis prod_cases3)
  have fx: "fits S (length x)" and fy: "fits S (length y)"
    using Cons.prems q' by auto
  have "lp = (if S < p + 4 then 0 else p)" "lp2 = lp"
    using s1 s2 by (auto simp: slot_def split: if_splits)
  then have "(word_of_nat (length x) :: u32) = word_of_nat (length y)"
    using Cons.prems(1,2) q' s1 s2 by auto
  then have len: "length x = length y"
    using fx fy Cons.prems(7) by (simp add: fits_def word_of_nat_eq_iff take_bit_nat_eq_self)
  then have dp: "dp2 = dp" and diff: "v1 - v = u1 - u" "v \<le> v1" "u \<le> u1"
    using s1 s2 by (auto simp: slot_def split: if_splits)
  have le: "dp + length x \<le> S"
    using fx by (cases rule: slot_cases [where v = v and p = p]) (use s1 fx in \<open>auto simp: fits_def\<close>)
  have rest1: "layout e S b (v1, dp + length x) q (v', w)" and x: "slice dp (length x) b = x"
    using Cons.prems(1) s1 by simp_all
  have rest2: "layout e S b (u1, dp2 + length y) q2 (u', w)" and y: "slice dp2 (length y) b = y"
    using Cons.prems(2) q' s2 by simp_all
  have "x = y" using x y unfolding len dp by metis
  note rest = rest1 rest2 [folded len, unfolded dp]
  have "v1 \<le> v'" "u1 \<le> u'"
    using layout_progress [OF rest(1) le] layout_progress [OF rest(2) le] by auto
  then have "q = q2"
    using Cons.IH [OF rest le] Cons.prems(4,7) diff by linarith
  with \<open>x = y\<close> q' show ?case by simp
qed

end
