(* ===== verification/PipeRing.thy ===== *)
theory PipeRing
  imports LocklessPipe PipeLayout
begin

text \<open>
  The pipe as a bounded queue of byte strings. \<open>pipe_abs c p q\<close> says that the pipe \<open>p\<close>
  holds the elements \<open>q\<close>, oldest first; the writer's operations are shown to act on \<open>q\<close>
  as a queue does, with every 32-bit computation of the code shown free of wrap-around for
  the pipe sizes \<open>pipe_size_ok\<close> admits.
\<close>

subsection \<open>Versioned pointers are pairs\<close>

lemma getPointer_ucast: "getPointer x = ucast x"
proof -
  have "(0xFFFFFFFF :: u64) = mask 32" by (simp add: mask_eq_exp_minus_1)
  then have "getPointer x = ucast (take_bit 32 x)" by (simp add: getPointer_def take_bit_eq_mask)
  also have "\<dots> = ucast x" by (rule bit_word_eqI) (simp add: bit_simps)
  finally show ?thesis .
qed

lemma getPointer_getVersionedPointer [simp]: "getPointer (getVersionedPointer v p) = p"
  by (rule bit_word_eqI) (auto simp: getPointer_ucast getVersionedPointer_def bit_simps)

lemma getVersion_getVersionedPointer [simp]: "getVersion (getVersionedPointer v p) = v"
  by (rule bit_word_eqI)
    (auto simp: getVersion_def getVersionedPointer_def bit_simps dest: bit_imp_le_length)

lemma vptr_eq_iff: "x = y \<longleftrightarrow> getVersion x = getVersion y \<and> getPointer x = getPointer y"
proof
  assume eq: "getVersion x = getVersion y \<and> getPointer x = getPointer y"
  show "x = y"
  proof (rule bit_word_eqI)
    fix n :: nat assume n: "n < LENGTH(64)"
    have "bit (getVersion x) (n - 32) = bit (getVersion y) (n - 32)"
      and "bit (getPointer x) n = bit (getPointer y) n" and "n - 32 < 32" using eq n by auto
    with n show "bit x n = bit y n"
      by (cases "n < 32") (simp_all add: getVersion_def getPointer_ucast bit_simps)
  qed
qed simp

lemma getPointer_0 [simp]: "getPointer 0 = 0" and getVersion_0 [simp]: "getVersion 0 = 0"
  by (simp_all add: getPointer_def getVersion_def)

subsection \<open>Pipe sizes and the arithmetic of the code\<close>

abbreviation psize :: "pipe_params \<Rightarrow> nat" where
  "psize c \<equiv> unat (PIPE_SIZE c)"

definition pipe_size_ok :: "pipe_params \<Rightarrow> bool" where
  "pipe_size_ok c \<longleftrightarrow> 10 \<le> psize c \<and> psize c + psize c div 2 < 2 ^ 32"

lemma unat_MAX_PIPE_ELEMENT_SIZE:
  assumes "10 \<le> psize c"
  shows "unat (MAX_PIPE_ELEMENT_SIZE c) = psize c div 2 - 5"
proof -
  let ?h = "ucast (PIPE_SIZE c div 2) :: u64"
  have "psize c div 2 < 2 ^ 64" using unat_u32_less [of "PIPE_SIZE c"] by simp
  then have h: "unat ?h = psize c div 2"
    by (simp add: unsigned_ucast_eq unat_div take_bit_nat_eq_self)
  then have "5 \<le> ?h" using assms by (simp add: word_le_nat_alt)
  then have d: "unat (?h - 5) = psize c div 2 - 5" using h by (simp add: unat_sub)
  have "psize c div 2 - 5 < 2 ^ 32" using unat_u32_less [of "PIPE_SIZE c"] by simp
  with d show ?thesis
    by (simp add: MAX_PIPE_ELEMENT_SIZE_def unsigned_ucast_eq take_bit_nat_eq_self)
qed

lemma le_MAX_iff_fits:
  "pipe_size_ok c \<Longrightarrow> len \<le> MAX_PIPE_ELEMENT_SIZE c \<longleftrightarrow> fits (psize c) (unat len)"
  by (auto simp: word_le_nat_alt unat_MAX_PIPE_ELEMENT_SIZE pipe_size_ok_def fits_def)

lemma isWrap_nat:
  "unat ptr + unat len < 2 ^ 32 \<Longrightarrow> isWrap c len ptr \<longleftrightarrow> psize c < unat ptr + unat len"
  by (simp add: isWrap_def word_less_nat_alt unat_add_no_overflow)

lemma unat_add_u32 [word_size_simps]:
  "unat (x :: u32) + unat y < 4294967296 \<Longrightarrow> unat (x + y) = unat x + unat y"
  by (simp add: unat_add_no_overflow)

lemma isFull_nat:
  assumes ok: "pipe_size_ok c" and fit: "fits (psize c) (unat len)"
    and r: "unat (getPointer (readVPtr p)) \<le> psize c"
    and w: "unat (getPointer (writeVPtr p)) \<le> psize c"
  shows "isFull c p len \<longleftrightarrow>
    \<not> has_room (psize c) (unat (getPointer (readVPtr p))) (unat (getPointer (writeVPtr p))) (unat len)"
proof -
  let ?r = "getPointer (readVPtr p)" and ?w = "getPointer (writeVPtr p)"
  have bound: "unat ?w + unat len + 4 < 4294967296" "unat ?w + 4 < 4294967296"
    using ok fit w by (auto simp: pipe_size_ok_def fits_def)
  then have sums: "unat (len + 4) = unat len + 4" "unat (?w + 4) = unat ?w + 4"
    "unat (?w + (len + 4)) = unat ?w + unat len + 4"
    by (simp_all add: word_size_simps)
  have wraps: "isWrap c 4 ?w \<longleftrightarrow> psize c < unat ?w + 4"
    "isWrap c len (?w + 4) \<longleftrightarrow> psize c < unat ?w + 4 + unat len"
    using bound sums by (simp_all add: isWrap_nat)
  show ?thesis
    by (simp add: isFull_def has_room_def Let_def wraps word_less_nat_alt sums)
qed

text \<open>The code's placement computes the slot of the layout.\<close>

lemma startWrite_place_slot:
  assumes ok: "pipe_size_ok c" and fit: "fits (psize c) (unat len)"
    and w: "unat (getPointer vp) \<le> psize c" and v: "getVersion vp = word_of_nat v"
    and sl: "slot (psize c) (v, unat (getPointer vp)) (unat len) = (lp, dp, v')"
  shows "startWrite_place c vp len = (word_of_nat lp, word_of_nat dp, word_of_nat v')"
proof -
  let ?w = "getPointer vp"
  have bound: "unat ?w + 4 + unat len < 4294967296" "unat ?w + 4 < 4294967296" "4 + unat len \<le> psize c"
    using ok fit w by (auto simp: pipe_size_ok_def fits_def)
  then have sum: "unat (?w + 4) = unat ?w + 4" by (simp add: word_size_simps)
  have wraps: "isWrap c 4 ?w \<longleftrightarrow> psize c < unat ?w + 4"
    "isWrap c len (?w + 4) \<longleftrightarrow> psize c < unat ?w + 4 + unat len" "\<not> isWrap c len 4"
    using bound sum by (simp_all add: isWrap_nat)
  have w4: "?w + 4 = word_of_nat (unat ?w + 4)" by simp
  show ?thesis
    using fit
  proof (cases rule: slot_cases [where v = v and p = "unat ?w"])
    case no_wrap
    with sl v show ?thesis by (auto simp: startWrite_place_def wraps Let_def)
  next
    case data_wrap
    with sl v show ?thesis by (auto simp: startWrite_place_def wraps Let_def)
  next
    case length_wrap
    with sl v show ?thesis by (auto simp: startWrite_place_def wraps Let_def)
  qed
qed

subsection \<open>The pipe as a queue\<close>

definition read_cursor :: "lockless_pipe \<Rightarrow> nat" where
  "read_cursor p = unat (getPointer (readVPtr p))"

definition write_cursor :: "lockless_pipe \<Rightarrow> nat" where
  "write_cursor p = unat (getPointer (writeVPtr p))"

text \<open>
  The wrap counts \<open>v\<close> and \<open>v'\<close> of reader and writer are unbounded; the code keeps them
  modulo \<open>2 ^ 32\<close>.
\<close>

definition ring_at :: "pipe_params \<Rightarrow> lockless_pipe \<Rightarrow> bytes list \<Rightarrow> nat \<Rightarrow> nat \<Rightarrow> bool" where
  "ring_at c p q v v' \<longleftrightarrow>
     getVersion (readVPtr p) = word_of_nat v \<and> getVersion (writeVPtr p) = word_of_nat v' \<and>
     ring_cursors (v, read_cursor p) (v', write_cursor p) \<and>
     layout (byte_order c) (psize c) (buf p) (v, read_cursor p) q (v', write_cursor p)"

definition pipe_abs :: "pipe_params \<Rightarrow> lockless_pipe \<Rightarrow> bytes list \<Rightarrow> bool" where
  "pipe_abs c p q \<longleftrightarrow>
     pipe_size_ok c \<and> length (buf p) = psize c \<and> read_cursor p \<le> psize c \<and>
     numWritten p - numRead p = word_of_nat (length q) \<and>
     (\<exists>v v'. ring_at c p q v v')"

lemmas cursor_defs = read_cursor_def write_cursor_def

lemma pipe_absE:
  assumes "pipe_abs c p q"
  obtains v v' where "pipe_size_ok c" "length (buf p) = psize c" "read_cursor p \<le> psize c"
    "write_cursor p \<le> psize c" "numWritten p - numRead p = word_of_nat (length q)"
    "getVersion (readVPtr p) = word_of_nat v" "getVersion (writeVPtr p) = word_of_nat v'"
    "ring_cursors (v, read_cursor p) (v', write_cursor p)"
    "layout (byte_order c) (psize c) (buf p) (v, read_cursor p) q (v', write_cursor p)"
    "v' = (if write_cursor p < read_cursor p then Suc v else v)"
proof -
  from assms obtain v v' where *: "pipe_size_ok c" "length (buf p) = psize c" "read_cursor p \<le> psize c"
    "numWritten p - numRead p = word_of_nat (length q)"
    "getVersion (readVPtr p) = word_of_nat v" "getVersion (writeVPtr p) = word_of_nat v'"
    "ring_cursors (v, read_cursor p) (v', write_cursor p)"
    "layout (byte_order c) (psize c) (buf p) (v, read_cursor p) q (v', write_cursor p)"
    by (auto simp: pipe_abs_def ring_at_def)
  show thesis by (rule that [OF *(1-3) _ *(4-8)]) (rule ring_order [OF *(8,3,7)])+
qed

lemma word_of_nat_Suc_neq: "(word_of_nat (Suc v) :: u32) \<noteq> word_of_nat v"
  by simp

lemma pipe_abs_isEmpty: "pipe_abs c p q \<Longrightarrow> isEmpty p \<longleftrightarrow> q = []"
proof (elim pipe_absE)
  fix v v'
  assume r: "read_cursor p \<le> psize c"
    and ver: "getVersion (readVPtr p) = word_of_nat v" "getVersion (writeVPtr p) = word_of_nat v'"
    and lay: "layout (byte_order c) (psize c) (buf p) (v, read_cursor p) q (v', write_cursor p)"
    and v': "v' = (if write_cursor p < read_cursor p then Suc v else v)"
  have "isEmpty p \<longleftrightarrow> getVersion (readVPtr p) = getVersion (writeVPtr p) \<and> read_cursor p = write_cursor p"
    by (auto simp: isEmpty_def vptr_eq_iff [of "readVPtr p"] cursor_defs intro: unsigned_word_eqI)
  also have "\<dots> \<longleftrightarrow> v' = v \<and> write_cursor p = read_cursor p"
    using ver v' by auto
  finally show ?thesis using layout_Nil_iff [OF lay r] by simp
qed

lemma pipe_abs_unique: "pipe_abs c p q \<Longrightarrow> pipe_abs c p q' \<Longrightarrow> q = q'"
proof (elim pipe_absE)
  fix v v' u u'
  assume "read_cursor p \<le> psize c"
    and "layout (byte_order c) (psize c) (buf p) (v, read_cursor p) q (v', write_cursor p)"
    and "layout (byte_order c) (psize c) (buf p) (u, read_cursor p) q' (u', write_cursor p)"
    and "v' = (if write_cursor p < read_cursor p then Suc v else v)"
    and "u' = (if write_cursor p < read_cursor p then Suc u else u)"
  then show "q = q'"
    by (intro layout_unique [of "byte_order c" "psize c" "buf p" v "read_cursor p" q v' "write_cursor p" u q' u'])
      (simp_all add: unat_u32_less)
qed

lemma pipe_abs_isFull:
  assumes "pipe_abs c p q" "fits (psize c) (unat len)"
  shows "isFull c p len \<longleftrightarrow> \<not> has_room (psize c) (read_cursor p) (write_cursor p) (unat len)"
  using assms(1) by (rule pipe_absE) (use assms(2) in \<open>simp add: isFull_nat cursor_defs\<close>)

text \<open>Storing and publishing one element when there is room for it.\<close>

definition write_element :: "pipe_params \<Rightarrow> lockless_pipe \<Rightarrow> bytes \<Rightarrow> lockless_pipe" where
  "write_element c p x =
     (let len = word_of_nat (length x); (lp, dp, v) = startWrite_place c (writeVPtr p) len;
          nxt = getVersionedPointer v (dp + len)
      in p\<lparr>nextWriteVPtr := nxt, writeVPtr := nxt, numWritten := numWritten p + 1,
           buf := blit (unat dp) x (blit (unat lp) (u32_bytes (byte_order c) len) (buf p))\<rparr>)"

lemma unat_word_of_nat_small: "n \<le> psize c \<Longrightarrow> unat (word_of_nat n :: u32) = n"
  by (rule le_unat_uoi)

lemma pipe_slotE:
  assumes abs: "pipe_abs c p q" and fit: "fits (psize c) n"
    and room: "has_room (psize c) (read_cursor p) (write_cursor p) n"
  obtains v v' v'' lp dp where
    "ring_at c p q v v'" "slot (psize c) (v', write_cursor p) n = (lp, dp, v'')"
    "startWrite_place c (writeVPtr p) (word_of_nat n) = (word_of_nat lp, word_of_nat dp, word_of_nat v'')"
    "unat (word_of_nat lp :: u32) = lp" "unat (word_of_nat dp :: u32) = dp"
    "unat (word_of_nat (dp + n) :: u32) = dp + n"
    "lp + 4 \<le> psize c" "dp + n \<le> psize c" "lp + 4 \<le> dp \<or> dp + n \<le> lp"
    "({lp..<lp + 4} \<union> {dp..<dp + n}) \<inter> region (psize c) (v, read_cursor p) (v', write_cursor p) = {}"
    "ring_cursors (v, read_cursor p) (v'', dp + n)"
proof -
  from abs obtain v v' where ok: "pipe_size_ok c"
    and r: "read_cursor p \<le> psize c" and w: "write_cursor p \<le> psize c"
    and ver: "getVersion (readVPtr p) = word_of_nat v" "getVersion (writeVPtr p) = word_of_nat v'"
    and ring: "ring_cursors (v, read_cursor p) (v', write_cursor p)"
    and lay: "layout (byte_order c) (psize c) (buf p) (v, read_cursor p) q (v', write_cursor p)"
    and v': "v' = (if write_cursor p < read_cursor p then Suc v else v)" by (rule pipe_absE)
  obtain lp dp v'' where sl: "slot (psize c) (v', write_cursor p) n = (lp, dp, v'')"
    by (metis prod_cases3)
  have n: "unat (word_of_nat n :: u32) = n"
    using fit by (intro unat_word_of_nat_small [of _ c]) (simp add: fits_def)
  note free = slot_free [OF fit r w v' room sl]
  have place: "startWrite_place c (writeVPtr p) (word_of_nat n) =
      (word_of_nat lp, word_of_nat dp, word_of_nat v'')"
    using startWrite_place_slot [OF ok, of "word_of_nat n" "writeVPtr p" v' lp dp v'']
      fit w ver sl n by (simp add: cursor_defs)
  have nats: "unat (word_of_nat lp :: u32) = lp" "unat (word_of_nat dp :: u32) = dp"
    "unat (word_of_nat (dp + n) :: u32) = dp + n"
    by (rule unat_word_of_nat_small [of _ c]; use free in simp)+
  have "ring_at c p q v v'" using ver ring lay by (simp add: ring_at_def)
  from that [OF this sl place nats free(1-5)] show thesis .
qed

text \<open>Stores into the slot do not disturb the queue; publishing a filled slot appends to it.\<close>

lemma pipe_abs_store:
  assumes abs: "pipe_abs c p q" and fit: "fits (psize c) n"
    and room: "has_room (psize c) (read_cursor p) (write_cursor p) n"
    and place: "startWrite_place c (writeVPtr p) (word_of_nat n) = (lp, dp, v)"
    and i: "i + length ys \<le> unat lp + 4 \<and> unat lp \<le> i \<or> i + length ys \<le> unat dp + n \<and> unat dp \<le> i"
  shows "i + length ys \<le> length (buf p) \<and> pipe_abs c (p\<lparr>buf := blit i ys (buf p)\<rparr>) q"
  using abs fit room
proof (rule pipe_slotE)
  fix v1 v' v'' lp' dp'
  assume ring: "ring_at c p q v1 v'"
    and pl: "startWrite_place c (writeVPtr p) (word_of_nat n) = (word_of_nat lp', word_of_nat dp', word_of_nat v'')"
    and nats: "unat (word_of_nat lp' :: u32) = lp'" "unat (word_of_nat dp' :: u32) = dp'"
    and le: "lp' + 4 \<le> psize c" "dp' + n \<le> psize c"
    and free: "({lp'..<lp' + 4} \<union> {dp'..<dp' + n}) \<inter>
      region (psize c) (v1, read_cursor p) (v', write_cursor p) = {}"
  have lpdp: "unat lp = lp'" "unat dp = dp'" using place pl nats by auto
  have len: "length (buf p) = psize c" and r: "read_cursor p \<le> psize c"
    using abs by (auto simp: pipe_abs_def)
  have fits': "i + length ys \<le> psize c" using i le lpdp by auto
  have "{i..<i + length ys} \<subseteq> {lp'..<lp' + 4} \<union> {dp'..<dp' + n}" using i lpdp by auto
  with free have "{i..<i + length ys} \<inter> region (psize c) (v1, read_cursor p) (v', write_cursor p) = {}"
    by blast
  with ring r len fits'
  have "layout (byte_order c) (psize c) (blit i ys (buf p)) (v1, read_cursor p) q (v', write_cursor p)"
    by (intro layout_store) (auto simp: ring_at_def)
  with abs ring fits' len show ?thesis
    by (auto simp: pipe_abs_def ring_at_def cursor_defs buffer_simps)
qed

lemma pipe_abs_publish:
  assumes abs: "pipe_abs c p q" and fit: "fits (psize c) (length x)"
    and room: "has_room (psize c) (read_cursor p) (write_cursor p) (length x)"
    and place: "startWrite_place c (writeVPtr p) (word_of_nat (length x)) = (lp, dp, v)"
    and hdr: "slice (unat lp) 4 (buf p) = u32_bytes (byte_order c) (word_of_nat (length x))"
    and dat: "slice (unat dp) (length x) (buf p) = x"
  shows "pipe_abs c (p\<lparr>writeVPtr := getVersionedPointer v (dp + word_of_nat (length x)),
    numWritten := numWritten p + 1\<rparr>) (q @ [x])"
  using abs fit room
proof (rule pipe_slotE)
  fix v1 v' v'' lp' dp'
  assume ring: "ring_at c p q v1 v'"
    and sl: "slot (psize c) (v', write_cursor p) (length x) = (lp', dp', v'')"
    and pl: "startWrite_place c (writeVPtr p) (word_of_nat (length x)) =
      (word_of_nat lp', word_of_nat dp', word_of_nat v'')"
    and nats: "unat (word_of_nat lp' :: u32) = lp'" "unat (word_of_nat dp' :: u32) = dp'"
      "unat (word_of_nat (dp' + length x) :: u32) = dp' + length x"
    and cur: "ring_cursors (v1, read_cursor p) (v'', dp' + length x)"
  have eqs: "unat lp = lp'" "unat dp = dp'" "v = word_of_nat v''"
    "dp + word_of_nat (length x) = word_of_nat (dp' + length x)"
    using place pl nats by auto
  have "layout (byte_order c) (psize c) (buf p) (v1, read_cursor p) (q @ [x]) (v'', dp' + length x)"
    by (rule layout_snoc [OF _ fit sl]) (use ring hdr dat eqs in \<open>auto simp: ring_at_def\<close>)
  moreover have "numWritten p + 1 - numRead p = word_of_nat (length (q @ [x]))"
    using abs by (simp add: pipe_abs_def algebra_simps)
  ultimately show ?thesis
    using abs ring cur nats(3) unfolding eqs
    by (auto simp: pipe_abs_def ring_at_def cursor_defs)
qed

lemma pipe_abs_write_element:
  assumes abs: "pipe_abs c p q" and fit: "fits (psize c) (length x)"
    and room: "has_room (psize c) (read_cursor p) (write_cursor p) (length x)"
  shows "pipe_abs c (write_element c p x) (q @ [x])"
    and "startWrite_reserve c p (word_of_nat (length x)) = (Returns (Some ptr), p') \<Longrightarrow>
      memcpy_at (unat ptr) x (buf p') = Some b \<Longrightarrow> finishWrite (p'\<lparr>buf := b\<rparr>) = write_element c p x"
    and "\<exists>ptr p' b. startWrite_reserve c p (word_of_nat (length x)) = (Returns (Some ptr), p') \<and>
      memcpy_at (unat ptr) x (buf p') = Some b"
proof -
  from abs fit room obtain v v' v'' lp dp where ring: "ring_at c p q v v'"
    and sl: "slot (psize c) (v', write_cursor p) (length x) = (lp, dp, v'')"
    and place: "startWrite_place c (writeVPtr p) (word_of_nat (length x)) =
      (word_of_nat lp, word_of_nat dp, word_of_nat v'')"
    and nats: "unat (word_of_nat lp :: u32) = lp" "unat (word_of_nat dp :: u32) = dp"
      "unat (word_of_nat (dp + length x) :: u32) = dp + length x"
    and free: "lp + 4 \<le> psize c" "dp + length x \<le> psize c"
    and cur: "ring_cursors (v, read_cursor p) (v'', dp + length x)" by (rule pipe_slotE)
  have len: "length (buf p) = psize c" and r: "read_cursor p \<le> psize c"
    using abs by (auto simp: pipe_abs_def)
  note we = write_element_def [of c p x, unfolded Let_def place prod.case nats(1,2)]
  have "layout (byte_order c) (psize c) (buf (write_element c p x)) (v, read_cursor p) (q @ [x])
      (v'', dp + length x)"
    by (rule layout_push [OF _ r _ len fit room sl]) (use ring in \<open>auto simp: ring_at_def we\<close>)
  moreover have "write_cursor (write_element c p x) = dp + length x"
    using nats(3) by (simp add: we cursor_defs)
  moreover have "numWritten p + 1 - numRead p = word_of_nat (length (q @ [x]))"
    using abs by (simp add: pipe_abs_def algebra_simps)
  ultimately show "pipe_abs c (write_element c p x) (q @ [x])"
    using abs ring cur free by (auto simp: pipe_abs_def ring_at_def we cursor_defs buffer_simps)
  show "\<exists>ptr p' b. startWrite_reserve c p (word_of_nat (length x)) = (Returns (Some ptr), p') \<and>
      memcpy_at (unat ptr) x (buf p') = Some b"
    using free len by (simp add: startWrite_reserve_def place nats buffer_simps)
  show "startWrite_reserve c p (word_of_nat (length x)) = (Returns (Some ptr), p') \<Longrightarrow>
      memcpy_at (unat ptr) x (buf p') = Some b \<Longrightarrow> finishWrite (p'\<lparr>buf := b\<rparr>) = write_element c p x"
    using free len by (auto simp: startWrite_reserve_def place nats buffer_simps finishWrite_def we)
qed

subsection \<open>What a reader may do\<close>

text \<open>
  Consuming the oldest element \<open>x\<close> moves the read pointer past it, to the place where the
  writer put the pointer when it published \<open>x\<close>.
\<close>

definition reader_advance :: "pipe_params \<Rightarrow> lockless_pipe \<Rightarrow> bytes \<Rightarrow> lockless_pipe" where
  "reader_advance c p x =
     (let len = word_of_nat (length x); (lp, dp, v) = startWrite_place c (readVPtr p) len
      in p\<lparr>readVPtr := getVersionedPointer v (dp + len), numRead := numRead p + 1\<rparr>)"

lemma pipe_abs_reader_advance:
  assumes abs: "pipe_abs c p (x # q)"
  shows "pipe_abs c (reader_advance c p x) q"
    and "has_room (psize c) (read_cursor p) (write_cursor p) n \<Longrightarrow>
      has_room (psize c) (read_cursor (reader_advance c p x)) (write_cursor p) n"
proof -
  from abs obtain v v' where ok: "pipe_size_ok c" and len: "length (buf p) = psize c"
    and r: "read_cursor p \<le> psize c"
    and cnt: "numWritten p - numRead p = word_of_nat (length (x # q))"
    and ver: "getVersion (readVPtr p) = word_of_nat v" "getVersion (writeVPtr p) = word_of_nat v'"
    and ring: "ring_cursors (v, read_cursor p) (v', write_cursor p)"
    and lay: "layout (byte_order c) (psize c) (buf p) (v, read_cursor p) (x # q) (v', write_cursor p)"
    by (rule pipe_absE)
  obtain lp dp u where sl: "slot (psize c) (v, read_cursor p) (length x) = (lp, dp, u)"
    by (metis prod_cases3)
  note pop = layout_pop [OF lay r ring sl]
  have n: "unat (word_of_nat (length x) :: u32) = length x"
    using pop(2) by (intro unat_word_of_nat_small [of _ c]) simp
  have place: "startWrite_place c (readVPtr p) (word_of_nat (length x)) =
      (word_of_nat lp, word_of_nat dp, word_of_nat u)"
    using startWrite_place_slot [OF ok, of "word_of_nat (length x)" "readVPtr p" v lp dp u]
      pop(6) r ver sl n by (simp add: cursor_defs)
  note ra = reader_advance_def [of c p x, unfolded Let_def place prod.case]
  have "unat (word_of_nat (dp + length x) :: u32) = dp + length x"
    using pop(2) by (intro unat_word_of_nat_small [of _ c]) simp
  then have cur: "read_cursor (reader_advance c p x) = dp + length x"
    "write_cursor (reader_advance c p x) = write_cursor p"
    by (simp_all add: ra cursor_defs)
  moreover have "numWritten p - (numRead p + 1) = word_of_nat (length q)"
    using cnt by (simp add: algebra_simps)
  ultimately show "pipe_abs c (reader_advance c p x) q"
    using ok len pop(1-3) ver by (auto simp: pipe_abs_def ring_at_def ra)
  show "has_room (psize c) (read_cursor p) (write_cursor p) n \<Longrightarrow>
      has_room (psize c) (read_cursor (reader_advance c p x)) (write_cursor p) n"
    using has_room_pop [OF lay r ring sl] cur by simp
qed

lemma pipe_abs_new:
  assumes "pipe_size_ok c" "length (buf raw) = psize c"
  shows "pipe_abs c (LocklessPipe raw) []"
  using assms
  by (auto simp: pipe_abs_def ring_at_def LocklessPipe_def clear_def cursor_defs ring_cursors_def
      intro: exI [of _ 0])

end
