(* ===== verification/PipeProperties.thy ===== *)
theory PipeProperties
  imports PipeRing
begin

text \<open>
  The guarantees of the pipe's operations: the contract \<open>byte_fifo\<close> of a bounded queue of
  byte strings with its interpretation on the pipe, and the behaviour of each operation on its
  normal and exceptional branches, blocking included.
\<close>

subsection \<open>The contract of a bounded byte queue\<close>

locale byte_fifo =
  fixes abs :: "'p \<Rightarrow> bytes list \<Rightarrow> bool"
    and room :: "'p \<Rightarrow> bytes \<Rightarrow> bool"
    and enq :: "'p \<Rightarrow> bytes \<Rightarrow> 'p"
    and adv :: "'p \<Rightarrow> bytes \<Rightarrow> 'p"
    and is_empty :: "'p \<Rightarrow> bool"
    and admissible :: "bytes \<Rightarrow> bool"
  assumes abs_enq: "abs p q \<Longrightarrow> admissible x \<Longrightarrow> room p x \<Longrightarrow> abs (enq p x) (q @ [x])"
    and abs_adv: "abs p (x # q) \<Longrightarrow> abs (adv p x) q"
    and abs_is_empty: "abs p q \<Longrightarrow> is_empty p \<longleftrightarrow> q = []"
    and room_empty: "abs p [] \<Longrightarrow> admissible x \<Longrightarrow> room p x"
    and abs_unique: "abs p q \<Longrightarrow> abs p q' \<Longrightarrow> q = q'"
begin

text \<open>Handing over a batch: advance over every element, oldest first.\<close>

lemma abs_adv_all: "abs p (xs @ q) \<Longrightarrow> abs (foldl adv p xs) q"
  by (induction xs arbitrary: p) (auto dest: abs_adv)

lemma drained_has_room: "abs p q \<Longrightarrow> admissible x \<Longrightarrow> room (foldl adv p q) x"
  using abs_adv_all [of p q "[]"] room_empty by simp

lemma enq_then_drain: "abs p q \<Longrightarrow> admissible x \<Longrightarrow> room p x \<Longrightarrow> abs (foldl adv (enq p x) q) [x]"
  by (rule abs_adv_all) (simp add: abs_enq)

end

definition admissible :: "pipe_params \<Rightarrow> bytes \<Rightarrow> bool" where
  "admissible c x \<longleftrightarrow> length x \<le> unat (MAX_PIPE_ELEMENT_SIZE c)"

lemma admissible_fits: "pipe_size_ok c \<Longrightarrow> admissible c x \<longleftrightarrow> fits (psize c) (length x)"
  by (auto simp: admissible_def unat_MAX_PIPE_ELEMENT_SIZE pipe_size_ok_def fits_def)

lemma unat_admissible: "admissible c x \<Longrightarrow> unat (word_of_nat (length x) :: u32) = length x"
  unfolding admissible_def by (rule le_unat_uoi)

lemma admissible_le_MAX: "admissible c x \<Longrightarrow> (word_of_nat (length x) :: u32) \<le> MAX_PIPE_ELEMENT_SIZE c"
  using unat_admissible [of c x] by (simp add: word_le_nat_alt admissible_def)

lemma pipe_abs_ok: "pipe_abs c p q \<Longrightarrow> pipe_size_ok c"
  by (simp add: pipe_abs_def)

lemma pipe_has_room:
  assumes "pipe_abs c p q" "admissible c x"
  shows "isFull c p (word_of_nat (length x)) \<longleftrightarrow>
    \<not> has_room (psize c) (read_cursor p) (write_cursor p) (length x)"
  using pipe_abs_isFull [OF assms(1), of "word_of_nat (length x)"] assms
  by (simp add: unat_admissible admissible_fits [OF pipe_abs_ok])

interpretation pipe_fifo: byte_fifo "pipe_abs c" "\<lambda>p x. \<not> isFull c p (word_of_nat (length x))"
  "write_element c" "reader_advance c" isEmpty "admissible c" for c
proof (unfold_locales, goal_cases)
  case (1 p q x)
  then show ?case
    by (intro pipe_abs_write_element(1)) (simp_all add: pipe_has_room admissible_fits [OF pipe_abs_ok])
next
  case (2 p x q)
  then show ?case by (rule pipe_abs_reader_advance(1))
next
  case (3 p q)
  then show ?case by (rule pipe_abs_isEmpty)
next
  case (4 p x)
  then have "isEmpty p" and "read_cursor p \<le> psize c"
    using pipe_abs_isEmpty [of c p "[]"] by (simp_all add: pipe_abs_def)
  with 4 show ?case
    by (auto simp: pipe_has_room isEmpty_def cursor_defs admissible_fits [OF pipe_abs_ok]
        intro: empty_has_room)
next
  case (5 p q q')
  then show ?case by (rule pipe_abs_unique)
qed

subsection \<open>The push operation\<close>

lemma startWrite_poll_stop:
  "\<not> isFull c p len \<or> \<not> isWriterRunning p \<or> \<not> block \<Longrightarrow>
    startWrite_poll c env len block i p = Some (p, isFull c p len)"
  by (subst startWrite_poll.simps) auto

lemma push_with_room:
  assumes abs: "pipe_abs c p q" and adm: "admissible c x"
    and poll: "startWrite_poll c env (word_of_nat (length x)) True 0 p0 = Some (p, False)"
    and run: "isWriterRunning p" and room: "\<not> isFull c p (word_of_nat (length x))"
  shows "push c env p0 x = Some (Returns (), write_element c p x)"
proof -
  have fit: "fits (psize c) (length x)" using adm admissible_fits [OF pipe_abs_ok [OF abs]] by simp
  have "has_room (psize c) (read_cursor p) (write_cursor p) (length x)"
    using room pipe_has_room [OF abs adm] by simp
  note we = pipe_abs_write_element(2,3) [OF abs fit this]
  from we(2) obtain ptr p' b where
    res: "startWrite_reserve c p (word_of_nat (length x)) = (Returns (Some ptr), p')"
      "memcpy_at (unat ptr) x (buf p') = Some b" by blast
  have "startWrite c env p0 (word_of_nat (length x)) True = Some (Returns (Some ptr), p')"
    using admissible_le_MAX [OF adm] poll run res by (simp add: startWrite_def)
  then show ?thesis using we(1) [OF res] res by (simp add: push_def)
qed

text \<open>
  Property C2. Pushing an element no longer than the maximum into a running pipe that has
  room for it returns normally and appends exactly that element to the queue the pipe
  represents; the read pointer is untouched.
\<close>

theorem push_appends:
  assumes "pipe_abs c p q" "length x \<le> unat (MAX_PIPE_ELEMENT_SIZE c)"
    and "isWriterRunning p" "\<not> isFull c p (word_of_nat (length x))"
  shows "\<exists>p'. push c env p x = Some (Returns (), p') \<and> pipe_abs c p' (q @ [x]) \<and>
    readVPtr p' = readVPtr p \<and> isWriterRunning p'"
proof -
  have adm: "admissible c x" using assms(2) by (simp add: admissible_def)
  have "push c env p x = Some (Returns (), write_element c p x)"
    by (rule push_with_room [OF assms(1) adm]) (use assms in \<open>simp_all add: startWrite_poll_stop\<close>)
  moreover have "pipe_abs c (write_element c p x) (q @ [x])"
    by (rule pipe_fifo.abs_enq [OF assms(1) adm assms(4)])
  ultimately show ?thesis
    using assms(3) by (auto simp: write_element_def Let_def split: prod.split)
qed

definition small_pipe :: pipe_params where
  "small_pipe = \<lparr>PIPE_SIZE = 32, byte_order = Big_endian\<rparr>"

definition raw_storage :: "bytes \<Rightarrow> lockless_pipe" where
  "raw_storage b = \<lparr>numRead = 7, numWritten = 7, numFailedWrites = 7, stomp1 = 7, readVPtr = 7,
     stomp2 = 7, writeVPtr = 7, stomp3 = 7, nextWriteVPtr = 7, stomp4 = 7,
     isReaderRunning = False, isWriterRunning = False, buf = b\<rparr>"

definition small_new :: lockless_pipe where
  "small_new = LocklessPipe (raw_storage (replicate 32 0))"

lemma small_pipe_ok: "pipe_size_ok small_pipe" and small_MAX: "unat (MAX_PIPE_ELEMENT_SIZE small_pipe) = 11"
  by (simp_all add: pipe_size_ok_def small_pipe_def unat_MAX_PIPE_ELEMENT_SIZE)

lemma small_new_abs: "pipe_abs small_pipe small_new []"
  unfolding small_new_def
  by (rule pipe_abs_new [OF small_pipe_ok]) (simp add: raw_storage_def small_pipe_def)

lemma small_new_fields [simp]: "isWriterRunning small_new" "isReaderRunning small_new"
  "\<not> isFull small_pipe small_new 3"
  by (simp_all add: small_new_def LocklessPipe_def small_pipe_def isFull_def clear_def isWrap_def)

theorem push_appends_witness:
  "\<exists>p'. push small_pipe (\<lambda>_ p. p) small_new [1, 2, 3] = Some (Returns (), p') \<and>
     pipe_abs small_pipe p' ([] @ [ [1, 2, 3] ]) \<and> readVPtr p' = readVPtr small_new \<and> isWriterRunning p'"
  by (rule push_appends [OF small_new_abs]) (simp_all add: small_MAX)

subsection \<open>Blocking\<close>

text \<open>A sleep during which the reader consumes the oldest element, if there is one.\<close>

definition draining :: "pipe_params \<Rightarrow> sleep_env \<Rightarrow> bool" where
  "draining c env \<longleftrightarrow> (\<forall>i p q. pipe_abs c p q \<longrightarrow> isWriterRunning p \<longrightarrow>
     pipe_abs c (env i p) (tl q) \<and> isWriterRunning (env i p))"

lemma startWrite_poll_drains:
  assumes "pipe_abs c p q" "isWriterRunning p" "draining c env" and adm: "admissible c x"
  shows "\<exists>p' k. startWrite_poll c env (word_of_nat (length x)) True i p = Some (p', False) \<and>
    pipe_abs c p' (drop k q) \<and> isWriterRunning p' \<and> k \<le> length q \<and>
    \<not> isFull c p' (word_of_nat (length x))"
  using assms(1-2)
proof (induction "length q" arbitrary: p q i)
  case 0
  then have "\<not> isFull c p (word_of_nat (length x))"
    using pipe_fifo.room_empty [of c p x] adm by simp
  with 0 show ?case by (auto simp: startWrite_poll_stop)
next
  case (Suc n)
  show ?case
  proof (cases "isFull c p (word_of_nat (length x))")
    case False
    with Suc.prems show ?thesis
      by (intro exI [of _ p] exI [of _ 0]) (simp add: startWrite_poll_stop)
  next
    case True
    have "pipe_abs c (env i p) (tl q)" "isWriterRunning (env i p)" "n = length (tl q)"
      using Suc.prems Suc.hyps(2) assms(3) by (auto simp: draining_def)
    from Suc.hyps(1) [OF this(3,1,2), of "Suc i"] obtain p' k where
      *: "startWrite_poll c env (word_of_nat (length x)) True (Suc i) (env i p) = Some (p', False)"
      "pipe_abs c p' (drop k (tl q))" "isWriterRunning p'" "k \<le> length (tl q)"
      "\<not> isFull c p' (word_of_nat (length x))" by blast
    moreover have "startWrite_poll c env (word_of_nat (length x)) True i p = Some (p', False)"
      using True Suc.prems * by (subst startWrite_poll.simps) (simp add: wakeup_def)
    ultimately show ?thesis
      using Suc.hyps(2) by (intro exI [of _ p'] exI [of _ "Suc k"]) (simp add: drop_Suc)
  qed
qed

text \<open>
  Property C18. A blocking push of an element no longer than the maximum always completes when
  the reader consumes an element in each of the writer's sleeps: there is no state of the pipe
  in which the element can never be accepted, which is what the bound of half the pipe size is
  for. What is left of the old queue is followed by the new element.
\<close>

theorem push_completes:
  assumes "pipe_abs c p q" "isWriterRunning p" "draining c env"
    and "length x \<le> unat (MAX_PIPE_ELEMENT_SIZE c)"
  shows "\<exists>p' k. push c env p x = Some (Returns (), p') \<and> k \<le> length q \<and>
    pipe_abs c p' (drop k q @ [x])"
proof -
  have adm: "admissible c x" using assms(4) by (simp add: admissible_def)
  from startWrite_poll_drains [OF assms(1-3) adm] obtain p' k where
    *: "startWrite_poll c env (word_of_nat (length x)) True 0 p = Some (p', False)"
    "pipe_abs c p' (drop k q)" "isWriterRunning p'" "k \<le> length q"
    "\<not> isFull c p' (word_of_nat (length x))" by blast
  then have "push c env p x = Some (Returns (), write_element c p' x)"
    using push_with_room adm by blast
  with * pipe_fifo.abs_enq [OF *(2) adm *(5)] show ?thesis by blast
qed

text \<open>A reader that decodes the oldest element from the buffer, for concrete instances.\<close>

definition oldest :: "pipe_params \<Rightarrow> lockless_pipe \<Rightarrow> bytes" where
  "oldest c p =
     (let r = read_cursor p;
          lp = (if psize c < r + 4 then 0 else r);
          n = unat (u32_of_bytes (byte_order c) (slice lp 4 (buf p)));
          dp = (if psize c < lp + 4 + n then 0 else lp + 4)
      in slice dp n (buf p))"

lemma oldest_pipe_abs:
  assumes "pipe_abs c p (x # q)"
  shows "oldest c p = x"
proof -
  from assms obtain v v' where r: "read_cursor p \<le> psize c"
    and ring: "ring_cursors (v, read_cursor p) (v', write_cursor p)"
    and lay: "layout (byte_order c) (psize c) (buf p) (v, read_cursor p) (x # q) (v', write_cursor p)"
    by (rule pipe_absE)
  obtain lp dp u where sl: "slot (psize c) (v, read_cursor p) (length x) = (lp, dp, u)"
    by (metis prod_cases3)
  note pop = layout_pop [OF lay r ring sl]
  have lp: "lp = (if psize c < read_cursor p + 4 then 0 else read_cursor p)"
    and dp: "dp = (if psize c < lp + 4 + length x then 0 else lp + 4)"
    using sl by (auto simp: slot_def split: if_splits)
  have "unat (word_of_nat (length x) :: u32) = length x"
    using pop(2) by (intro unat_word_of_nat_small [of _ c]) simp
  then show ?thesis
    using pop(4,5) dp by (simp add: oldest_def Let_def lp [symmetric] split: if_splits)
qed

definition drain_one :: "pipe_params \<Rightarrow> sleep_env" where
  "drain_one c i p = (if isEmpty p then p else reader_advance c p (oldest c p))"

lemma draining_drain_one: "draining c (drain_one c)"
proof (unfold draining_def, intro allI impI)
  fix i p q assume abs: "pipe_abs c p q" and run: "isWriterRunning p"
  show "pipe_abs c (drain_one c i p) (tl q) \<and> isWriterRunning (drain_one c i p)"
  proof (cases q)
    case Nil
    with abs run show ?thesis by (simp add: drain_one_def pipe_abs_isEmpty)
  next
    case (Cons y ys)
    with abs run show ?thesis
      by (auto simp: drain_one_def pipe_abs_isEmpty [OF abs] oldest_pipe_abs pipe_abs_reader_advance)
        (simp add: reader_advance_def Let_def split: prod.split)
  qed
qed

definition small_filled :: lockless_pipe where
  "small_filled = write_element small_pipe (write_element small_pipe small_new [1, 2, 3, 4, 5, 6, 7, 8, 9])
     [11, 12, 13, 14, 15, 16, 17, 18, 19]"

lemma small_filled_abs:
  "pipe_abs small_pipe small_filled [ [1, 2, 3, 4, 5, 6, 7, 8, 9], [11, 12, 13, 14, 15, 16, 17, 18, 19] ]"
proof -
  have 1: "pipe_abs small_pipe (write_element small_pipe small_new [1, 2, 3, 4, 5, 6, 7, 8, 9])
      ([] @ [ [1, 2, 3, 4, 5, 6, 7, 8, 9] ])"
    by (rule pipe_fifo.abs_enq [OF small_new_abs]) (simp add: admissible_def small_MAX, code_simp)
  have "pipe_abs small_pipe small_filled
      (([] @ [ [1, 2, 3, 4, 5, 6, 7, 8, 9] ]) @ [ [11, 12, 13, 14, 15, 16, 17, 18, 19] ])"
    unfolding small_filled_def
    by (rule pipe_fifo.abs_enq [OF 1]) (simp add: admissible_def small_MAX, code_simp)
  then show ?thesis by simp
qed

text \<open>The instance blocks: the pipe is full for nine more bytes until one element is consumed.\<close>

theorem push_completes_witness:
  "isFull small_pipe small_filled 9 \<and>
   (\<exists>p' k. push small_pipe (drain_one small_pipe) small_filled [0, 0, 0, 0, 0, 0, 0, 0, 0] =
       Some (Returns (), p') \<and> k \<le> 2 \<and>
     pipe_abs small_pipe p' (drop k [ [1, 2, 3, 4, 5, 6, 7, 8, 9], [11, 12, 13, 14, 15, 16, 17, 18, 19] ] @
       [ [0, 0, 0, 0, 0, 0, 0, 0, 0] ]))"
proof -
  have full: "isFull small_pipe small_filled 9" by code_simp
  have run: "isWriterRunning small_filled" by code_simp
  have len: "length [0, 0, 0, 0, 0, 0, 0, 0, 0 :: u8] \<le> unat (MAX_PIPE_ELEMENT_SIZE small_pipe)"
    by (simp add: small_MAX)
  from push_completes [OF small_filled_abs run draining_drain_one len] full show ?thesis
    by (simp add: numeral_2_eq_2)
qed

subsection \<open>Observers\<close>

lemma ucast_word_of_nat: "ucast (word_of_nat n :: u64) = (word_of_nat n :: u32)"
  by (rule bit_word_eqI) (simp add: bit_simps)

text \<open>The bytes the code counts as full: from the read to the write pointer around the ring.\<close>

lemma occupied_bytes:
  assumes "pipe_abs c p q"
  shows "unat (if getPointer (readVPtr p) > getPointer (writeVPtr p)
      then PIPE_SIZE c - (getPointer (readVPtr p) - getPointer (writeVPtr p))
      else getPointer (writeVPtr p) - getPointer (readVPtr p)) =
    card (region (psize c) (0, read_cursor p)
      (if write_cursor p < read_cursor p then 1 else 0, write_cursor p))"
  using assms
proof (rule pipe_absE)
  assume r: "read_cursor p \<le> psize c"
  let ?r = "getPointer (readVPtr p)" and ?w = "getPointer (writeVPtr p)"
  show ?thesis
  proof (cases "?w < ?r")
    case True
    then have lt: "write_cursor p < read_cursor p" by (simp add: cursor_defs word_less_nat_alt)
    have d: "unat (?r - ?w) = read_cursor p - write_cursor p"
      using True by (simp add: unat_sub cursor_defs less_imp_le)
    then have "?r - ?w \<le> PIPE_SIZE c" using r by (simp add: word_le_nat_alt)
    then have "unat (PIPE_SIZE c - (?r - ?w)) = psize c - (read_cursor p - write_cursor p)"
      using d by (simp add: unat_sub)
    moreover have "card ({read_cursor p..<psize c} \<union> {0..<write_cursor p}) =
        psize c - (read_cursor p - write_cursor p)"
      using lt r by (subst card_Un_disjoint) auto
    ultimately show ?thesis using True lt by (simp add: region_def)
  next
    case False
    then show ?thesis
      by (simp add: region_def unat_sub cursor_defs word_less_nat_alt not_less word_le_nat_alt)
  qed
qed

lemma percentFull_bounds:
  assumes "pipe_abs c p q"
  shows "0 \<le> percentFull c p \<and> percentFull c p \<le> 100"
proof -
  have r: "read_cursor p \<le> psize c" and w: "write_cursor p \<le> psize c" and pos: "0 < psize c"
    using assms by (auto elim!: pipe_absE simp: pipe_size_ok_def)
  define n where "n = card (region (psize c) (0, read_cursor p)
    (if write_cursor p < read_cursor p then 1 else 0, write_cursor p))"
  define S where "S = psize c"
  have "region (psize c) (0, read_cursor p)
      (if write_cursor p < read_cursor p then 1 else 0, write_cursor p) \<subseteq> {0..<psize c}"
    using r w by (auto simp: region_def)
  then have "n \<le> S" using card_mono [of "{0..<psize c}"] by (force simp: n_def S_def)
  moreover have pf: "percentFull c p = 100 * of_nat n / of_nat S"
    unfolding percentFull_def Let_def occupied_bytes [OF assms] n_def S_def ..
  ultimately show ?thesis using pos unfolding pf S_def [symmetric] by (simp add: field_simps)
qed

text \<open>
  The observers tell the truth about the queue: \<^verbatim>\<open>isEmpty\<close> is emptiness,
  \<^verbatim>\<open>count\<close> is the number of elements (modulo \<open>2 ^ 32\<close>), \<^verbatim>\<open>percentFull\<close> lies
  between 0 and 100, and the bytes at the read pointer are the oldest element.
\<close>

theorem observers_correct:
  assumes "pipe_abs c p q"
  shows "isEmpty p = (q = []) \<and> count p = word_of_nat (length q) \<and>
    0 \<le> percentFull c p \<and> percentFull c p \<le> 100 \<and> (q \<noteq> [] \<longrightarrow> oldest c p = hd q)"
proof -
  have "count p = word_of_nat (length q)"
    using assms by (simp add: pipe_abs_def count_def ucast_word_of_nat)
  moreover have "q \<noteq> [] \<longrightarrow> oldest c p = hd q"
    using assms by (cases q) (simp_all add: oldest_pipe_abs)
  ultimately show ?thesis
    using assms by (simp add: pipe_abs_isEmpty percentFull_bounds)
qed

theorem observers_correct_witness:
  "isEmpty small_filled = ([ [1, 2, 3, 4, 5, 6, 7, 8, 9], [11, 12, 13, 14, 15, 16, 17, 18, 19 :: u8] ] = [])
   \<and> count small_filled = 2 \<and> oldest small_pipe small_filled = [1, 2, 3, 4, 5, 6, 7, 8, 9]"
  using observers_correct [OF small_filled_abs] by simp

subsection \<open>Self-validation\<close>

definition stomps_intact :: "lockless_pipe \<Rightarrow> bool" where
  "stomps_intact p \<longleftrightarrow> stomp1 p = STOMP \<and> stomp2 p = STOMP \<and> stomp3 p = STOMP \<and> stomp4 p = STOMP"

lemma validate_conj:
  "validate c p \<longleftrightarrow> numRead p \<le> numWritten p \<and>
     getVersion (writeVPtr p) - getVersion (readVPtr p) \<le> 1 \<and>
     getPointer (writeVPtr p) \<le> PIPE_SIZE c \<and> getPointer (readVPtr p) \<le> PIPE_SIZE c \<and>
     (getPointer (writeVPtr p) = getPointer (readVPtr p) \<longrightarrow>
        getVersion (writeVPtr p) = getVersion (readVPtr p)) \<and> stomps_intact p"
  unfolding validate_def Let_def stomps_intact_def by auto

text \<open>
  The consistency check accepts every pipe that represents a queue, as long as
  fewer than \<open>2 ^ 64\<close> elements have been written in all: \<^verbatim>\<open>validate\<close> raises no false
  alarm, also when the 32-bit version numbers wrap around.
\<close>

theorem validate_accepts:
  assumes "pipe_abs c p q" "stomps_intact p" "unat (numRead p) + length q < 2 ^ 64"
  shows "validate c p"
proof -
  from assms(1) obtain v v' where r: "read_cursor p \<le> psize c" and w: "write_cursor p \<le> psize c"
    and cnt: "numWritten p - numRead p = word_of_nat (length q)"
    and ver: "getVersion (readVPtr p) = word_of_nat v" "getVersion (writeVPtr p) = word_of_nat v'"
    and v': "v' = (if write_cursor p < read_cursor p then Suc v else v)" by (rule pipe_absE)
  have "unat (word_of_nat (length q) :: u64) = length q"
    using assms(3) by (simp add: unat_of_nat)
  moreover from cnt have "numWritten p = numRead p + word_of_nat (length q)"
    by (simp add: algebra_simps)
  ultimately have "numRead p \<le> numWritten p"
    using assms(3) by (simp add: word_le_nat_alt unat_add_no_overflow)
  moreover have "getPointer (writeVPtr p) = getPointer (readVPtr p) \<longrightarrow> v' = v"
    using v' by (simp add: cursor_defs)
  ultimately show ?thesis
    using r w ver v' assms(2) by (auto simp: validate_conj cursor_defs word_le_nat_alt)
qed

theorem validate_accepts_witness: "validate small_pipe small_filled"
proof (rule validate_accepts [OF small_filled_abs])
  show "stomps_intact small_filled" by code_simp
  have "numRead small_filled = 0" by code_simp
  then show "unat (numRead small_filled) +
      length [ [1, 2, 3, 4, 5, 6, 7, 8, 9], [11, 12, 13, 14, 15, 16, 17, 18, 19 :: u8] ] < 2 ^ 64"
    by simp
qed

subsection \<open>Exceptional branches\<close>

text \<open>
  The constructor makes an empty pipe out of storage with arbitrary contents: it
  represents the empty queue, is running on both sides, has no failed writes, and validates.
\<close>

theorem constructor_establishes:
  assumes "pipe_size_ok c" "length (buf raw) = psize c"
  shows "pipe_abs c (LocklessPipe raw) [] \<and> isWriterRunning (LocklessPipe raw) \<and>
    isReaderRunning (LocklessPipe raw) \<and> numFailedWrites (LocklessPipe raw) = 0 \<and>
    validate c (LocklessPipe raw)"
proof -
  have "stomps_intact (LocklessPipe raw)" "numRead (LocklessPipe raw) = 0"
    by (simp_all add: LocklessPipe_def clear_def stomps_intact_def)
  then have "validate c (LocklessPipe raw)"
    by (simp add: validate_conj LocklessPipe_def clear_def)
  then show ?thesis using pipe_abs_new [OF assms] by (simp add: LocklessPipe_def clear_def)
qed

theorem constructor_establishes_witness:
  "pipe_abs small_pipe (LocklessPipe (raw_storage (replicate 32 9))) [] \<and>
   isWriterRunning (LocklessPipe (raw_storage (replicate 32 9))) \<and>
   isReaderRunning (LocklessPipe (raw_storage (replicate 32 9))) \<and>
   numFailedWrites (LocklessPipe (raw_storage (replicate 32 9))) = 0 \<and>
   validate small_pipe (LocklessPipe (raw_storage (replicate 32 9)))"
  by (rule constructor_establishes [OF small_pipe_ok]) (simp add: raw_storage_def small_pipe_def)

text \<open>
  Property C23. A value of \<open>2 ^ 32\<close> bytes or more whose length modulo \<open>2 ^ 32\<close> passes the
  size check is accepted, and the copy of the whole value runs past the end of the buffer:
  \<^verbatim>\<open>push\<close> hands the truncated length to \<^verbatim>\<open>startWrite\<close> and the full one to
  \<^verbatim>\<open>memcpy\<close>.
\<close>

theorem push_truncated_length_overruns:
  assumes "pipe_abs c p q" "isWriterRunning p" "2 ^ 32 \<le> length x"
    and "word_of_nat (length x) \<le> MAX_PIPE_ELEMENT_SIZE c"
    and "\<not> isFull c p (word_of_nat (length x))"
  shows "\<exists>p'. push c env p x = Some (Undefined, p')"
proof -
  let ?n = "word_of_nat (length x) :: u32"
  have res: "\<exists>p'. startWrite_reserve c p ?n = (Undefined, p') \<or>
      (\<exists>ptr. startWrite_reserve c p ?n = (Returns (Some ptr), p') \<and> length (buf p') < 2 ^ 32)"
    using assms(1) unat_u32_less [of "PIPE_SIZE c"]
    by (auto simp: startWrite_reserve_def pipe_abs_def memcpy_at_def buffer_simps Let_def
        split: option.split prod.split)
  then show ?thesis
    using assms(2-5) by (auto simp: push_def startWrite_def startWrite_poll_stop memcpy_at_def)
qed

theorem push_truncated_length_overruns_witness:
  "\<exists>p'. push small_pipe (\<lambda>_ p. p) small_new (replicate (2 ^ 32 + 3) 0) = Some (Undefined, p')"
proof (rule push_truncated_length_overruns [OF small_new_abs])
  have n: "(word_of_nat (length (replicate (2 ^ 32 + 3) (0 :: u8))) :: u32) = 3"
    by (simp add: word_of_nat_eq_iff)
  show "word_of_nat (length (replicate (2 ^ 32 + 3) (0 :: u8))) \<le> MAX_PIPE_ELEMENT_SIZE small_pipe"
    unfolding n by code_simp
  show "\<not> isFull small_pipe small_new (word_of_nat (length (replicate (2 ^ 32 + 3) (0 :: u8))))"
    unfolding n by simp
qed simp_all

end
