(* ===== verification/PipeWait.thy ===== *)
theory PipeWait
  imports PipeProperties
begin

text \<open>
  The reader's wait on an empty pipe under the policy without wakeups: exactly when it returns,
  that a timed wait is bounded by the clock, and the pipe sizes for which the 32-bit room
  computation of the writer is unsound.
\<close>

subsection \<open>Waiting without a timeout\<close>

text \<open>The pipe after \<open>i\<close> rounds of functor call and sleep.\<close>

primrec slept :: "sleep_env \<Rightarrow> prewait \<Rightarrow> nat \<Rightarrow> lockless_pipe \<Rightarrow> lockless_pipe" where
  "slept env func 0 p = p"
| "slept env func (Suc i) p = env i (call_prewait func (slept env func i p))"

definition idle :: "lockless_pipe \<Rightarrow> bool" where
  "idle p \<longleftrightarrow> isEmpty p \<and> isReaderRunning p"

lemma wait_forever_stop: "\<not> idle p \<Longrightarrow> wait_forever env func i p = Some p"
  by (subst wait_forever.simps) (auto simp: idle_def)

lemma wait_forever_step:
  "idle p \<Longrightarrow> wait_forever env func i p = wait_forever env func (Suc i) (env i (call_prewait func p))"
  by (subst wait_forever.simps) (simp add: idle_def)

lemma wait_forever_returns:
  assumes "\<not> idle (slept env func (i + d) p)" "\<And>j. j < d \<Longrightarrow> idle (slept env func (i + j) p)"
  shows "wait_forever env func i (slept env func i p) = Some (slept env func (i + d) p)"
  using assms
proof (induction d arbitrary: i)
  case 0
  then show ?case by (simp add: wait_forever_stop)
next
  case (Suc d)
  have "idle (slept env func i p)" using Suc.prems(2) [of 0] by simp
  moreover have "wait_forever env func (Suc i) (slept env func (Suc i) p) =
      Some (slept env func (Suc i + d) p)"
    by (rule Suc.IH) (use Suc.prems(1) Suc.prems(2) [of "Suc _"] in auto)
  ultimately show ?case by (simp add: wait_forever_step)
qed

lemma wait_forever_only:
  assumes "wait_forever env func i x = Some p'"
  shows "x = slept env func i p \<longrightarrow> (\<exists>d. p' = slept env func (i + d) p \<and> \<not> idle p' \<and>
    (\<forall>j<d. idle (slept env func (i + j) p)))"
proof (rule wait_forever.raw_induct [where P = "\<lambda>env func i x p'. x = slept env func i p \<longrightarrow>
    (\<exists>d. p' = slept env func (i + d) p \<and> \<not> idle p' \<and> (\<forall>j<d. idle (slept env func (i + j) p)))",
    OF _ assms], intro impI)
  fix wf env func i x p'
  assume IH: "\<And>env func i x p'. wf env func i x = Some p' \<Longrightarrow> x = slept env func i p \<longrightarrow>
      (\<exists>d. p' = slept env func (i + d) p \<and> \<not> idle p' \<and> (\<forall>j<d. idle (slept env func (i + j) p)))"
    and eq: "(if isEmpty x \<and> isReaderRunning x then wf env func (Suc i) (env i (call_prewait func x))
      else Some x) = Some p'" and x: "x = slept env func i p"
  show "\<exists>d. p' = slept env func (i + d) p \<and> \<not> idle p' \<and> (\<forall>j<d. idle (slept env func (i + j) p))"
  proof (cases "idle x")
    case True
    with eq have "wf env func (Suc i) (env i (call_prewait func x)) = Some p'" by (simp add: idle_def)
    from IH [OF this] x obtain d where
      "p' = slept env func (Suc i + d) p" "\<not> idle p'" "\<forall>j<d. idle (slept env func (Suc i + j) p)"
      by auto
    with True x show ?thesis
      by (intro exI [of _ "Suc d"]) (auto simp: less_Suc_eq_0_disj)
  next
    case False
    with eq x show ?thesis by (intro exI [of _ 0]) (auto simp: idle_def)
  qed
qed

lemma wait_untimed:
  "wait env func clk NEVER_TIME_OUT p = Some (Returns (), p') \<longleftrightarrow>
     (\<exists>k. p' = slept env func k p \<and> \<not> idle p' \<and> (\<forall>j<k. idle (slept env func j p)))"
  (is "?L \<longleftrightarrow> ?R")
proof
  assume ?L
  then have "wait_forever env func 0 p = Some p'" by (simp add: wait_def)
  from wait_forever_only [OF this, of p] show ?R by auto
next
  assume ?R
  then show ?L using wait_forever_returns [of env func 0 _ p] by (auto simp: wait_def)
qed

subsection \<open>Waiting with a timeout\<close>

lemma wait_until_bounded:
  assumes "\<exists>tv. clk (Suc (i + d)) = Some tv \<and> dl \<le> nsecs tv"
    and "\<And>j. j < d \<Longrightarrow> clk (Suc (i + j)) \<noteq> None"
  shows "\<exists>p'. wait_until env func clk t dl to i p = Some (Returns (), p')"
  using assms
proof (induction d arbitrary: i p to)
  case 0
  then show ?case
    by (subst wait_until.simps) (auto simp: Let_def wait_until.simps [of _ _ _ _ _ True])
next
  case (Suc d)
  from Suc.prems(2) [of 0] obtain tv where tv: "clk (Suc i) = Some tv" by auto
  have "\<exists>p'. wait_until env func clk t dl to' (Suc i) q = Some (Returns (), p')" for to' q
    by (rule Suc.IH) (use Suc.prems(1) Suc.prems(2) [of "Suc _"] in auto)
  then show ?case by (subst wait_until.simps) (auto simp: tv Let_def)
qed

text \<open>The reading of the clock after round \<open>k\<close> has reached the deadline; the wait is over after that round.\<close>

definition timed_out :: "clock \<Rightarrow> u64 \<Rightarrow> nat \<Rightarrow> bool" where
  "timed_out clk dl k \<longleftrightarrow> 0 < k \<and> (\<exists>tv. clk k = Some tv \<and> dl \<le> nsecs tv)"

definition wait_over :: "sleep_env \<Rightarrow> prewait \<Rightarrow> clock \<Rightarrow> u64 \<Rightarrow> nat \<Rightarrow> lockless_pipe \<Rightarrow> bool" where
  "wait_over env func clk dl k p \<longleftrightarrow> \<not> idle (slept env func k p) \<or> timed_out clk dl k"

lemma wait_until_stop:
  "wait_over env func clk dl i p \<Longrightarrow>
   wait_until env func clk t dl (timed_out clk dl i) i (slept env func i p) = Some (Returns (), slept env func i p)"
  by (subst wait_until.simps) (auto simp: wait_over_def idle_def)

lemma wait_until_step:
  assumes "\<not> wait_over env func clk dl i p" "t \<noteq> 0" "clk (Suc i) \<noteq> None"
  shows "wait_until env func clk t dl (timed_out clk dl i) i (slept env func i p) =
    wait_until env func clk t dl (timed_out clk dl (Suc i)) (Suc i) (slept env func (Suc i) p)"
  using assms by (subst wait_until.simps) (auto simp: wait_over_def idle_def timed_out_def)

lemma wait_until_returns:
  assumes "wait_over env func clk dl (i + d) p" "t \<noteq> 0"
    and "\<And>j. j < d \<Longrightarrow> \<not> wait_over env func clk dl (i + j) p \<and> clk (Suc (i + j)) \<noteq> None"
  shows "wait_until env func clk t dl (timed_out clk dl i) i (slept env func i p) = Some (Returns (), slept env func (i + d) p)"
  using assms
proof (induction d arbitrary: i)
  case 0
  then show ?case by (simp add: wait_until_stop)
next
  case (Suc d)
  have "wait_until env func clk t dl (timed_out clk dl (Suc i)) (Suc i) (slept env func (Suc i) p) =
      Some (Returns (), slept env func (Suc i + d) p)"
    by (rule Suc.IH) (use Suc.prems(1,2) Suc.prems(3) [of "Suc _"] in auto)
  with wait_until_step [of env func clk dl i p t] Suc.prems(2) Suc.prems(3) [of 0] show ?case by simp
qed

lemma wait_until_only:
  assumes "wait_until env func clk t dl (timed_out clk dl i) i (slept env func i p) = Some (Returns (), p')" "t \<noteq> 0"
  shows "\<exists>d. p' = slept env func (i + d) p \<and> wait_over env func clk dl (i + d) p \<and>
    (\<forall>j<d. \<not> wait_over env func clk dl (i + j) p \<and> clk (Suc (i + j)) \<noteq> None)"
proof -
  let ?Q = "\<lambda>i p'. \<exists>d. p' = slept env func (i + d) p \<and> wait_over env func clk dl (i + d) p \<and>
    (\<forall>j<d. \<not> wait_over env func clk dl (i + j) p \<and> clk (Suc (i + j)) \<noteq> None)"
  let ?P = "\<lambda>e f k t' l to i x res. e = env \<longrightarrow> f = func \<longrightarrow> k = clk \<longrightarrow> t' = t \<longrightarrow> l = dl \<longrightarrow>
    to = timed_out clk dl i \<longrightarrow> x = slept env func i p \<longrightarrow>
    fst res = (Returns () :: (pipe_exn, unit) outcome) \<longrightarrow> ?Q i (snd res)"
  have "?P env func clk t dl (timed_out clk dl i) i (slept env func i p) (Returns (), p')"
  proof (rule wait_until.raw_induct [where P = ?P, OF _ assms(1)])
    fix w e f k t' l to i x res
    assume IH: "\<And>e f k t' l to i x res. w e f k t' l to i x = Some res \<Longrightarrow> ?P e f k t' l to i x res"
      and body: "(if isEmpty x \<and> isReaderRunning x \<and> \<not> to
        then (let x = e i (if t' \<noteq> 0 then call_prewait f x else x)
              in case k (Suc i) of None \<Rightarrow> Some (Throws ErrnoException, x)
                 | Some tv \<Rightarrow> w e f k t' l (nsecs tv \<ge> l) (Suc i) x)
        else Some (Returns (), x)) = Some res"
    show "?P e f k t' l to i x res"
    proof (intro impI)
      assume eqs: "e = env" "f = func" "k = clk" "t' = t" "l = dl" "to = timed_out clk dl i" "x = slept env func i p"
        and ret: "fst res = Returns ()"
      show "?Q i (snd res)"
      proof (cases "wait_over env func clk dl i p")
        case True
        with body eqs have "res = (Returns (), slept env func i p)" by (auto simp: wait_over_def idle_def split: if_splits)
        with True show ?thesis by (intro exI [of _ 0]) simp
      next
        case False
        then have cond: "isEmpty x \<and> isReaderRunning x \<and> \<not> to" using eqs by (simp add: wait_over_def idle_def)
        with body eqs assms(2) ret obtain tv where tv: "clk (Suc i) = Some tv"
          "w env func clk t dl (nsecs tv \<ge> dl) (Suc i) (slept env func (Suc i) p) = Some res"
          by (cases "clk (Suc i)") (auto simp: Let_def)
        have "timed_out clk dl (Suc i) = (nsecs tv \<ge> dl)" using tv(1) by (simp add: timed_out_def)
        with IH [OF tv(2)] ret obtain d where d: "snd res = slept env func (Suc i + d) p"
          "wait_over env func clk dl (Suc i + d) p"
          "\<forall>j<d. \<not> wait_over env func clk dl (Suc i + j) p \<and> clk (Suc (Suc i + j)) \<noteq> None" by auto
        with False tv(1) show ?thesis by (intro exI [of _ "Suc d"]) (auto simp: less_Suc_eq_0_disj)
      qed
    qed
  qed
  then show ?thesis by simp
qed

text \<open>
  Property C24. When the waits of \<^verbatim>\<open>NoWakeupPolicy\<close> return, and with which pipe. Without a timeout the wait
  returns exactly when some round of sleeping ends with data in the pipe or with the reader stopped, in the first
  such state, and otherwise never. With a timeout below a millisecond it always returns after
  one sleep, whatever the pipe holds. With a longer timeout, once the clock has been read, it returns
  exactly when a round ends with data, with the reader stopped or with the clock at the
  deadline, after the first such round, provided that every reading of the clock until then succeeded. A return with an empty
  pipe and a running reader, which the comment on the policy calls a false positive, is so possible for the
  timed waits only.
\<close>

theorem wait_returns_exactly:
  "(t = NEVER_TIME_OUT \<longrightarrow>
      (wait env func clk t p = Some (Returns (), p') \<longleftrightarrow>
       (\<exists>k. p' = slept env func k p \<and> (\<not> isEmpty p' \<or> \<not> isReaderRunning p') \<and>
          (\<forall>j<k. isEmpty (slept env func j p) \<and> isReaderRunning (slept env func j p))))) \<and>
   (t < 1000000 \<longrightarrow> wait env func clk t p = Some (Returns (), env 0 (if t = 0 then p else call_prewait func p))) \<and>
   (t \<noteq> NEVER_TIME_OUT \<and> 1000000 \<le> t \<and> clk 0 = Some tv \<longrightarrow>
      (wait env func clk t p = Some (Returns (), p') \<longleftrightarrow>
       (\<exists>k. p' = slept env func k p \<and>
          (\<not> isEmpty p' \<or> \<not> isReaderRunning p' \<or> timed_out clk (t + nsecs tv) k) \<and>
          (\<forall>j<k. isEmpty (slept env func j p) \<and> isReaderRunning (slept env func j p) \<and>
             \<not> timed_out clk (t + nsecs tv) j \<and> clk (Suc j) \<noteq> None))))"
proof (intro conjI impI)
  show "wait env func clk t p = Some (Returns (), p') \<longleftrightarrow>
      (\<exists>k. p' = slept env func k p \<and> (\<not> isEmpty p' \<or> \<not> isReaderRunning p') \<and>
        (\<forall>j<k. isEmpty (slept env func j p) \<and> isReaderRunning (slept env func j p)))" if "t = NEVER_TIME_OUT"
    using wait_untimed [of env func clk p p'] that by (simp add: idle_def)
  show "wait env func clk t p = Some (Returns (), env 0 (if t = 0 then p else call_prewait func p))" if "t < 1000000"
    using that by (auto simp: wait_def NUM_NANOSECONDS_PER_MICROSECOND_def NEVER_TIME_OUT_def)
  assume a: "t \<noteq> NEVER_TIME_OUT \<and> 1000000 \<le> t \<and> clk 0 = Some tv"
  then have "t \<noteq> 0" by auto
  let ?dl = "t + nsecs tv"
  have w: "wait env func clk t p = wait_until env func clk t ?dl (timed_out clk ?dl 0) 0 (slept env func 0 p)"
    using a by (auto simp: wait_def timed_out_def NUM_NANOSECONDS_PER_MICROSECOND_def)
  have "wait env func clk t p = Some (Returns (), p') \<longleftrightarrow>
      (\<exists>k. p' = slept env func k p \<and> wait_over env func clk ?dl k p \<and>
        (\<forall>j<k. \<not> wait_over env func clk ?dl j p \<and> clk (Suc j) \<noteq> None))"
    unfolding w using wait_until_only [of env func clk t ?dl 0 p p'] wait_until_returns [of env func clk ?dl 0 _ p t] \<open>t \<noteq> 0\<close>
    by auto
  then show "wait env func clk t p = Some (Returns (), p') \<longleftrightarrow>
       (\<exists>k. p' = slept env func k p \<and>
          (\<not> isEmpty p' \<or> \<not> isReaderRunning p' \<or> timed_out clk ?dl k) \<and>
          (\<forall>j<k. isEmpty (slept env func j p) \<and> isReaderRunning (slept env func j p) \<and>
             \<not> timed_out clk ?dl j \<and> clk (Suc j) \<noteq> None))"
    by (auto simp: wait_over_def idle_def)
qed

text \<open>An element arrives during the second sleep; nothing arrives and the deadline passes with the second
  reading of the clock; nothing arrives in a short wait.\<close>

theorem wait_returns_exactly_witness:
  "wait (\<lambda>i p. if i = 1 then small_filled else p) None (\<lambda>_. None) NEVER_TIME_OUT small_new = Some (Returns (), small_filled) \<and>
   wait (\<lambda>_ p. p) None (\<lambda>i. Some (word_of_nat i, 0)) 1500000000 small_new = Some (Returns (), small_new) \<and>
   wait (\<lambda>_ p. p) None (\<lambda>_. None) 500 small_new = Some (Returns (), small_new)"
proof (intro conjI)
  have e: "isEmpty small_new" "\<not> isEmpty small_filled" by code_simp+
  let ?env = "\<lambda>i p. if i = 1 then small_filled else p"
  have s: "slept ?env None 0 small_new = small_new" "slept ?env None 1 small_new = small_new"
    "slept ?env None 2 small_new = small_filled" by (simp_all add: call_prewait_def numeral_2_eq_2)
  have "\<forall>j<2. isEmpty (slept ?env None j small_new) \<and> isReaderRunning (slept ?env None j small_new)"
    using s(1,2) e(1) by (auto simp: less_2_cases_iff)
  with s(3) e(2) have "\<exists>k. small_filled = slept ?env None k small_new \<and> (\<not> isEmpty small_filled \<or> \<not> isReaderRunning small_filled) \<and>
      (\<forall>j<k. isEmpty (slept ?env None j small_new) \<and> isReaderRunning (slept ?env None j small_new))"
    by (intro exI [of _ 2]) simp
  then show "wait ?env None (\<lambda>_. None) NEVER_TIME_OUT small_new = Some (Returns (), small_filled)"
    using wait_returns_exactly [of NEVER_TIME_OUT ?env None "\<lambda>_. None" small_new small_filled] by (simp only: simp_thms)
  let ?clk = "\<lambda>i. Some (word_of_nat i, 0)" and ?dl = "1500000000 + nsecs (word_of_nat 0, 0)"
  have id: "slept (\<lambda>_ p. p) None k small_new = small_new" for k by (induction k) (simp_all add: call_prewait_def)
  have out: "timed_out ?clk ?dl 2" "\<not> timed_out ?clk ?dl 0" "\<not> timed_out ?clk ?dl 1"
    by (simp_all add: timed_out_def nsecs_def NUM_NANOSECONDS_PER_SECOND_def)
  then have "\<forall>j<2. isEmpty (slept (\<lambda>_ p. p) None j small_new) \<and> isReaderRunning (slept (\<lambda>_ p. p) None j small_new) \<and>
      \<not> timed_out ?clk ?dl j \<and> ?clk (Suc j) \<noteq> None"
    using e(1) unfolding id by (auto simp: less_2_cases_iff)
  with out(1) id have "\<exists>k. small_new = slept (\<lambda>_ p. p) None k small_new \<and>
      (\<not> isEmpty small_new \<or> \<not> isReaderRunning small_new \<or> timed_out ?clk ?dl k) \<and>
      (\<forall>j<k. isEmpty (slept (\<lambda>_ p. p) None j small_new) \<and> isReaderRunning (slept (\<lambda>_ p. p) None j small_new) \<and>
        \<not> timed_out ?clk ?dl j \<and> ?clk (Suc j) \<noteq> None)"
    by (intro exI [of _ 2]) simp
  then show "wait (\<lambda>_ p. p) None ?clk 1500000000 small_new = Some (Returns (), small_new)"
    using wait_returns_exactly [of 1500000000 "\<lambda>_ p. p" None ?clk small_new small_new "(word_of_nat 0, 0)"]
    by (simp add: NEVER_TIME_OUT_def)
  show "wait (\<lambda>_ p. p) None (\<lambda>_. None) 500 small_new = Some (Returns (), small_new)"
    using wait_returns_exactly [of 500 "\<lambda>_ p. p" None "\<lambda>_. None" small_new small_new "(0, 0)"] by (simp add: call_prewait_def)
qed

text \<open>
  A timed wait of a millisecond or more is bounded by the clock: if the time of day
  can be read and at some reading has reached the deadline (computed in 64 bits from the first
  reading), the wait returns normally, whatever the other threads do.
\<close>

theorem timed_wait_returns:
  assumes "t \<noteq> NEVER_TIME_OUT" "1000000 \<le> t" "clk 0 = Some tv0"
    and "clk (Suc k) = Some tv" "t + nsecs tv0 \<le> nsecs tv" "\<forall>j<k. clk (Suc j) \<noteq> None"
  shows "\<exists>p'. wait env func clk t p = Some (Returns (), p')"
proof -
  have "\<exists>p'. wait_until env func clk t (t + nsecs tv0) False 0 p = Some (Returns (), p')"
    by (rule wait_until_bounded [of clk 0 k]) (use assms in auto)
  moreover have "\<not> t < 1000 * NUM_NANOSECONDS_PER_MICROSECOND"
    using assms(2) by (simp add: NUM_NANOSECONDS_PER_MICROSECOND_def not_less)
  ultimately show ?thesis using assms(1,3) by (simp add: wait_def)
qed

theorem timed_wait_returns_witness:
  "\<exists>p'. wait (\<lambda>_ p. p) None (\<lambda>i. Some (word_of_nat i, 0)) 1500000000 small_new = Some (Returns (), p')"
  by (rule timed_wait_returns [where k = 1 and tv = "(2, 0)" and ?tv0.0 = "(0, 0)"])
    (simp_all add: NEVER_TIME_OUT_def nsecs_def NUM_NANOSECONDS_PER_SECOND_def)

subsection \<open>Pipe sizes the room computation does not survive\<close>

text \<open>
  The bound on the pipe size in \<open>pipe_size_ok\<close> is needed: for every larger size
  there is a state of the pointers in which one byte is free, and yet the pipe is not reported
  full for the longest element, because the 32-bit sum of write pointer and length wraps around.
\<close>

theorem isFull_wraps_for_large_pipes:
  assumes "2 ^ 32 + 3 \<le> psize c + psize c div 2"
  shows "\<exists>p. write_cursor p < read_cursor p \<and> read_cursor p \<le> psize c \<and>
    read_cursor p - write_cursor p = 1 \<and> \<not> isFull c p (MAX_PIPE_ELEMENT_SIZE c) \<and>
    1 < unat (MAX_PIPE_ELEMENT_SIZE c) + 4"
proof -
  let ?S = "PIPE_SIZE c" and ?M = "MAX_PIPE_ELEMENT_SIZE c"
  define p where "p = small_new\<lparr>readVPtr := getVersionedPointer 0 (?S - 1),
    writeVPtr := getVersionedPointer 1 (?S - 2)\<rparr>"
  have S: "psize c < 2 ^ 32" "10 \<le> psize c" using assms unat_u32_less [of ?S] by simp_all
  then have M: "unat ?M = psize c div 2 - 5" by (simp add: unat_MAX_PIPE_ELEMENT_SIZE)
  have "1 \<le> ?S" "2 \<le> ?S" using S by (simp_all add: word_le_nat_alt)
  then have rw: "unat (?S - 1) = psize c - 1" "unat (?S - 2) = psize c - 2"
    by (simp_all add: unat_sub)
  have m4: "unat (?M + 4) = psize c div 2 - 1"
    using M S by (subst unat_add_no_overflow) simp_all
  have "unat (?S - 2 + (?M + 4)) = (unat (?S - 2) + unat (?M + 4)) mod 2 ^ LENGTH(32)"
    by (rule unat_word_ariths(1))
  also have "\<dots> = (psize c - 2 + (psize c div 2 - 1)) mod 2 ^ 32"
    unfolding rw m4 by simp
  also have "\<dots> = psize c - 2 + (psize c div 2 - 1) - 2 ^ 32"
    using S assms by (subst mod_if, subst mod_less) auto
  finally have "?S - 2 + (?M + 4) < ?S - 1" using rw S by (simp add: word_less_nat_alt)
  moreover have "?S - 2 < ?S - 1" using rw S by (simp add: word_less_nat_alt)
  ultimately have "\<not> isFull c p ?M" by (simp add: isFull_def p_def)
  moreover have "read_cursor p = psize c - 1" "write_cursor p = psize c - 2"
    using rw by (simp_all add: p_def cursor_defs)
  ultimately show ?thesis using S M by (intro exI [of _ p]) auto
qed

theorem isFull_wraps_for_large_pipes_witness:
  "\<exists>p. write_cursor p < read_cursor p \<and> read_cursor p \<le> 4294967280 \<and>
    read_cursor p - write_cursor p = 1 \<and>
    \<not> isFull \<lparr>PIPE_SIZE = 4294967280, byte_order = Big_endian\<rparr> p
       (MAX_PIPE_ELEMENT_SIZE \<lparr>PIPE_SIZE = 4294967280, byte_order = Big_endian\<rparr>)"
  using isFull_wraps_for_large_pipes [of "\<lparr>PIPE_SIZE = 4294967280, byte_order = Big_endian\<rparr>"]
  by auto

end
