(* ===== verification/PipeConcurrency.thy ===== *)
theory PipeConcurrency
  imports PipeWait
begin

text \<open>
  The pipe under concurrency. The writer's \<^verbatim>\<open>push\<close> is cut at every store it makes to
  shared memory (the room check, the pointer reservation, the length word, each data byte, the
  counter, the publication), the reader consumes whenever it likes between two such stores, and
  anyone may stop or restart the writer. Stores become visible in program order, which is what the
  calls of \<^verbatim>\<open>MF_write_sync\<close> are there for. The history variables \<open>pushed\<close> and
  \<open>popped\<close> record the elements published and consumed.
\<close>

subsection \<open>The interleaved system\<close>

datatype writer_pc =
    W_idle
  | W_checked bytes        \<comment> \<open>the room check has succeeded\<close>
  | W_reserved bytes       \<comment> \<open>\<^verbatim>\<open>nextWriteVPtr_\<close> is stored\<close>
  | W_copying bytes nat    \<comment> \<open>the length word and so many data bytes are stored\<close>
  | W_counted bytes        \<comment> \<open>\<^verbatim>\<open>numWritten_\<close> is incremented\<close>

record shared_pipe =
  pipe :: lockless_pipe
  pc :: writer_pc
  queue :: "bytes list"
  pushed :: "bytes list"
  popped :: "bytes list"

definition next_vptr :: "pipe_params \<Rightarrow> lockless_pipe \<Rightarrow> bytes \<Rightarrow> u64" where
  "next_vptr c p x =
     (case startWrite_place c (writeVPtr p) (word_of_nat (length x)) of
        (lp, dp, v) \<Rightarrow> getVersionedPointer v (dp + word_of_nat (length x)))"

inductive pipe_step :: "pipe_params \<Rightarrow> shared_pipe \<Rightarrow> shared_pipe \<Rightarrow> bool" for c where
  w_check: "pc s = W_idle \<Longrightarrow> length x \<le> unat (MAX_PIPE_ELEMENT_SIZE c) \<Longrightarrow>
     isWriterRunning (pipe s) \<Longrightarrow> \<not> isFull c (pipe s) (word_of_nat (length x)) \<Longrightarrow>
     pipe_step c s (s\<lparr>pc := W_checked x\<rparr>)"
| w_reserve: "pc s = W_checked x \<Longrightarrow>
     pipe_step c s (s\<lparr>pipe := (pipe s)\<lparr>nextWriteVPtr := next_vptr c (pipe s) x\<rparr>, pc := W_reserved x\<rparr>)"
| w_length: "pc s = W_reserved x \<Longrightarrow>
     startWrite_place c (writeVPtr (pipe s)) (word_of_nat (length x)) = (lp, dp, v) \<Longrightarrow>
     memcpy_at (unat lp) (u32_bytes (byte_order c) (word_of_nat (length x))) (buf (pipe s)) = Some b \<Longrightarrow>
     pipe_step c s (s\<lparr>pipe := (pipe s)\<lparr>buf := b\<rparr>, pc := W_copying x 0\<rparr>)"
| w_byte: "pc s = W_copying x i \<Longrightarrow> i < length x \<Longrightarrow>
     startWrite_place c (writeVPtr (pipe s)) (word_of_nat (length x)) = (lp, dp, v) \<Longrightarrow>
     memcpy_at (unat dp + i) [x ! i] (buf (pipe s)) = Some b \<Longrightarrow>
     pipe_step c s (s\<lparr>pipe := (pipe s)\<lparr>buf := b\<rparr>, pc := W_copying x (Suc i)\<rparr>)"
| w_count: "pc s = W_copying x (length x) \<Longrightarrow>
     pipe_step c s (s\<lparr>pipe := (pipe s)\<lparr>numWritten := numWritten (pipe s) + 1\<rparr>, pc := W_counted x\<rparr>)"
| w_publish: "pc s = W_counted x \<Longrightarrow>
     pipe_step c s (s\<lparr>pipe := (pipe s)\<lparr>writeVPtr := nextWriteVPtr (pipe s)\<rparr>, pc := W_idle,
                      queue := queue s @ [x], pushed := pushed s @ [x]\<rparr>)"
| r_pop: "queue s = x # q \<Longrightarrow>
     pipe_step c s (s\<lparr>pipe := reader_advance c (pipe s) x, queue := q, popped := popped s @ [x]\<rparr>)"
| stop: "pipe_step c s (s\<lparr>pipe := stopWriter (pipe s)\<rparr>)"
| start: "pipe_step c s (s\<lparr>pipe := startWriter (pipe s)\<rparr>)"

definition initial_shared :: "lockless_pipe \<Rightarrow> shared_pipe" where
  "initial_shared raw =
     \<lparr>pipe = LocklessPipe raw, pc = W_idle, queue = [], pushed = [], popped = []\<rparr>"

subsection \<open>The invariant\<close>

text \<open>The counter runs ahead of the published queue between the last two writer steps.\<close>

definition published :: "shared_pipe \<Rightarrow> lockless_pipe" where
  "published s = (case pc s of
     W_counted x \<Rightarrow> (pipe s)\<lparr>numWritten := numWritten (pipe s) - 1\<rparr> | _ \<Rightarrow> pipe s)"

definition pending_ok :: "pipe_params \<Rightarrow> lockless_pipe \<Rightarrow> bytes \<Rightarrow> bool" where
  "pending_ok c p x \<longleftrightarrow> admissible c x \<and>
     has_room (psize c) (read_cursor p) (write_cursor p) (length x)"

definition stored_ok :: "pipe_params \<Rightarrow> lockless_pipe \<Rightarrow> bytes \<Rightarrow> nat \<Rightarrow> bool" where
  "stored_ok c p x i \<longleftrightarrow> nextWriteVPtr p = next_vptr c p x \<and> i \<le> length x \<and>
     (case startWrite_place c (writeVPtr p) (word_of_nat (length x)) of (lp, dp, v) \<Rightarrow>
        slice (unat lp) 4 (buf p) = u32_bytes (byte_order c) (word_of_nat (length x)) \<and>
        slice (unat dp) i (buf p) = take i x)"

definition pc_ok :: "pipe_params \<Rightarrow> lockless_pipe \<Rightarrow> writer_pc \<Rightarrow> bool" where
  "pc_ok c p w = (case w of
       W_idle \<Rightarrow> True
     | W_checked x \<Rightarrow> pending_ok c p x
     | W_reserved x \<Rightarrow> pending_ok c p x \<and> nextWriteVPtr p = next_vptr c p x
     | W_copying x i \<Rightarrow> pending_ok c p x \<and> stored_ok c p x i
     | W_counted x \<Rightarrow> pending_ok c p x \<and> stored_ok c p x (length x))"

definition shared_inv :: "pipe_params \<Rightarrow> shared_pipe \<Rightarrow> bool" where
  "shared_inv c s \<longleftrightarrow> pipe_abs c (published s) (queue s) \<and> pushed s = popped s @ queue s \<and>
     stomps_intact (pipe s) \<and> pc_ok c (pipe s) (pc s)"

subsection \<open>Every step keeps the invariant\<close>

lemmas frame_defs = pipe_abs_def ring_at_def cursor_defs pending_ok_def stored_ok_def next_vptr_def
  stomps_intact_def

lemma pipe_abs_frame [simp]:
  "pipe_abs c (p\<lparr>nextWriteVPtr := n\<rparr>) q = pipe_abs c p q"
  "pipe_abs c (p\<lparr>isWriterRunning := r\<rparr>) q = pipe_abs c p q"
  "pipe_abs c (p\<lparr>isWriterRunning := r, numWritten := k\<rparr>) q = pipe_abs c (p\<lparr>numWritten := k\<rparr>) q"
  by (simp_all add: frame_defs)

lemma pending_frame [simp]:
  "pending_ok c (p\<lparr>nextWriteVPtr := n\<rparr>) x = pending_ok c p x"
  "pending_ok c (p\<lparr>isWriterRunning := r\<rparr>) x = pending_ok c p x"
  "pending_ok c (p\<lparr>buf := b\<rparr>) x = pending_ok c p x"
  "pending_ok c (p\<lparr>numWritten := k\<rparr>) x = pending_ok c p x"
  by (simp_all add: frame_defs)

lemma next_vptr_frame [simp]:
  "next_vptr c (p\<lparr>nextWriteVPtr := n\<rparr>) x = next_vptr c p x"
  "next_vptr c (p\<lparr>isWriterRunning := r\<rparr>) x = next_vptr c p x"
  "next_vptr c (p\<lparr>buf := b\<rparr>) x = next_vptr c p x"
  "next_vptr c (p\<lparr>numWritten := k\<rparr>) x = next_vptr c p x"
  by (simp_all add: frame_defs)

lemma stored_frame [simp]:
  "stored_ok c (p\<lparr>isWriterRunning := r\<rparr>) x i = stored_ok c p x i"
  "stored_ok c (p\<lparr>numWritten := k\<rparr>) x i = stored_ok c p x i"
  by (simp_all add: frame_defs)

lemma stomps_frame [simp]:
  "stomps_intact (p\<lparr>nextWriteVPtr := n\<rparr>) = stomps_intact p"
  "stomps_intact (p\<lparr>isWriterRunning := r\<rparr>) = stomps_intact p"
  "stomps_intact (p\<lparr>buf := b\<rparr>) = stomps_intact p"
  "stomps_intact (p\<lparr>numWritten := k\<rparr>) = stomps_intact p"
  "stomps_intact (p\<lparr>writeVPtr := w\<rparr>) = stomps_intact p"
  "stomps_intact (reader_advance c p x) = stomps_intact p"
  by (simp_all add: frame_defs reader_advance_def Let_def split: prod.split)

lemma pending_fits: "pipe_abs c p q \<Longrightarrow> pending_ok c p x \<Longrightarrow> fits (psize c) (length x)"
  using admissible_fits [OF pipe_abs_ok] by (auto simp: pending_ok_def)

lemma pending_place:
  assumes "pipe_abs c p q" "pending_ok c p x"
    and "startWrite_place c (writeVPtr p) (word_of_nat (length x)) = (lp, dp, v)"
  shows "unat lp + 4 \<le> length (buf p)" "unat dp + length x \<le> length (buf p)"
    "unat lp + 4 \<le> unat dp \<or> unat dp + length x \<le> unat lp"
proof -
  have "has_room (psize c) (read_cursor p) (write_cursor p) (length x)"
    using assms(2) by (simp add: pending_ok_def)
  with assms(1) pending_fits [OF assms(1,2)]
  have "unat lp + 4 \<le> length (buf p) \<and> unat dp + length x \<le> length (buf p) \<and>
      (unat lp + 4 \<le> unat dp \<or> unat dp + length x \<le> unat lp)"
    by (rule pipe_slotE) (use assms in \<open>auto simp: pipe_abs_def\<close>)
  then show "unat lp + 4 \<le> length (buf p)" "unat dp + length x \<le> length (buf p)"
    "unat lp + 4 \<le> unat dp \<or> unat dp + length x \<le> unat lp" by blast+
qed

lemma pending_store:
  assumes "pipe_abs c p q" "pending_ok c p x"
    and "startWrite_place c (writeVPtr p) (word_of_nat (length x)) = (lp, dp, v)"
    and "memcpy_at i ys (buf p) = Some b"
    and "i + length ys \<le> unat lp + 4 \<and> unat lp \<le> i \<or> i + length ys \<le> unat dp + length x \<and> unat dp \<le> i"
  shows "pipe_abs c (p\<lparr>buf := b\<rparr>) q"
  using pipe_abs_store [OF assms(1) pending_fits [OF assms(1,2)] _ assms(3,5)] assms(2,4)
  by (simp add: pending_ok_def)

lemma stored_length:
  assumes "pipe_abs c p q" "pending_ok c p x" "nextWriteVPtr p = next_vptr c p x"
    and "startWrite_place c (writeVPtr p) (word_of_nat (length x)) = (lp, dp, v)"
    and "memcpy_at (unat lp) (u32_bytes (byte_order c) (word_of_nat (length x))) (buf p) = Some b"
  shows "stored_ok c (p\<lparr>buf := b\<rparr>) x 0"
  using assms pending_place [OF assms(1,2,4)]
    slice_blit_same [of "unat lp" "u32_bytes (byte_order c) (word_of_nat (length x))" "buf p"]
  by (auto simp: stored_ok_def slice_def)

lemma stored_byte:
  assumes abs: "pipe_abs c p q" and pend: "pending_ok c p x" and st: "stored_ok c p x i"
    and i: "i < length x"
    and place: "startWrite_place c (writeVPtr p) (word_of_nat (length x)) = (lp, dp, v)"
    and cpy: "memcpy_at (unat dp + i) [x ! i] (buf p) = Some b"
  shows "stored_ok c (p\<lparr>buf := b\<rparr>) x (Suc i)"
proof -
  note pl = pending_place [OF abs pend place]
  have b: "b = blit (unat dp + i) [x ! i] (buf p)" using cpy pl i by simp
  have "slice (unat lp) 4 b = slice (unat lp) 4 (buf p)"
    unfolding b by (rule slice_blit_disjoint) (use pl i in auto)
  moreover have "slice (unat dp) (Suc i) b = slice (unat dp) i (buf p) @ [x ! i]"
    unfolding b by (rule slice_blit_snoc) (use pl i in auto)
  ultimately show ?thesis
    using st i place by (simp add: stored_ok_def take_Suc_conv_app_nth)
qed

lemma publish_abs:
  assumes abs: "pipe_abs c p q" and pend: "pending_ok c p x" and st: "stored_ok c p x (length x)"
  shows "pipe_abs c (p\<lparr>writeVPtr := nextWriteVPtr p, numWritten := numWritten p + 1\<rparr>) (q @ [x])"
proof -
  obtain lp dp v where place: "startWrite_place c (writeVPtr p) (word_of_nat (length x)) = (lp, dp, v)"
    by (metis prod_cases3)
  have "nextWriteVPtr p = getVersionedPointer v (dp + word_of_nat (length x))"
    using st place by (simp add: stored_ok_def next_vptr_def)
  moreover have "pipe_abs c (p\<lparr>writeVPtr := getVersionedPointer v (dp + word_of_nat (length x)),
      numWritten := numWritten p + 1\<rparr>) (q @ [x])"
    by (rule pipe_abs_publish [OF abs pending_fits [OF abs pend] _ place])
      (use pend st place in \<open>auto simp: pending_ok_def stored_ok_def\<close>)
  ultimately show ?thesis by simp
qed

lemma reader_advance_fields [simp]:
  "writeVPtr (reader_advance c p x) = writeVPtr p" "buf (reader_advance c p x) = buf p"
  "nextWriteVPtr (reader_advance c p x) = nextWriteVPtr p"
  "numWritten (reader_advance c p x) = numWritten p"
  "(reader_advance c p x)\<lparr>numWritten := k\<rparr> = reader_advance c (p\<lparr>numWritten := k\<rparr>) x"
  by (simp_all add: reader_advance_def Let_def split: prod.split)

lemma pc_ok_reader_advance:
  assumes "pipe_abs c (p\<lparr>numWritten := k\<rparr>) (x # q)" "pc_ok c p w"
  shows "pc_ok c (reader_advance c p x) w"
proof -
  have "has_room (psize c) (read_cursor p) (write_cursor p) n \<Longrightarrow>
      has_room (psize c) (read_cursor (reader_advance c p x)) (write_cursor p) n" for n
    using pipe_abs_reader_advance(2) [OF assms(1), of n]
    by (simp add: reader_advance_def cursor_defs Let_def split: prod.splits)
  then have "pending_ok c p y \<Longrightarrow> pending_ok c (reader_advance c p x) y" for y
    by (simp add: pending_ok_def write_cursor_def)
  then show ?thesis
    using assms(2) by (auto simp: pc_ok_def stored_ok_def next_vptr_def split: writer_pc.splits)
qed

lemmas shared_defs = shared_inv_def published_def pc_ok_def

lemma length_store_inv:
  assumes inv: "shared_inv c s" and pc: "pc s = W_reserved x"
    and place: "startWrite_place c (writeVPtr (pipe s)) (word_of_nat (length x)) = (lp, dp, v)"
    and copy: "memcpy_at (unat lp) (u32_bytes (byte_order c) (word_of_nat (length x))) (buf (pipe s)) = Some b"
  shows "shared_inv c (s\<lparr>pipe := (pipe s)\<lparr>buf := b\<rparr>, pc := W_copying x 0\<rparr>)"
proof -
  from inv pc have *: "pipe_abs c (pipe s) (queue s)" "pending_ok c (pipe s) x"
    "nextWriteVPtr (pipe s) = next_vptr c (pipe s) x"
    by (simp_all add: shared_defs)
  have "pipe_abs c ((pipe s)\<lparr>buf := b\<rparr>) (queue s)" by (rule pending_store [OF *(1,2) place copy]) simp
  with stored_length [OF * place copy] inv *(2) show ?thesis by (simp add: shared_defs pc)
qed

lemma byte_store_inv:
  assumes inv: "shared_inv c s" and pc: "pc s = W_copying x i" and i: "i < length x"
    and place: "startWrite_place c (writeVPtr (pipe s)) (word_of_nat (length x)) = (lp, dp, v)"
    and copy: "memcpy_at (unat dp + i) [x ! i] (buf (pipe s)) = Some b"
  shows "shared_inv c (s\<lparr>pipe := (pipe s)\<lparr>buf := b\<rparr>, pc := W_copying x (Suc i)\<rparr>)"
proof -
  from inv pc have *: "pipe_abs c (pipe s) (queue s)" "pending_ok c (pipe s) x" "stored_ok c (pipe s) x i"
    by (simp_all add: shared_defs)
  have "pipe_abs c ((pipe s)\<lparr>buf := b\<rparr>) (queue s)"
    by (rule pending_store [OF *(1,2) place copy]) (use i in simp)
  with stored_byte [OF * i place copy] inv *(2) show ?thesis by (simp add: shared_defs pc)
qed

lemma reader_pop_inv:
  assumes inv: "shared_inv c s" and q: "queue s = x # q"
  shows "shared_inv c (s\<lparr>pipe := reader_advance c (pipe s) x, queue := q, popped := popped s @ [x]\<rparr>)"
proof -
  from inv q have abs: "pipe_abs c (published s) (x # q)" by (simp add: shared_inv_def)
  obtain k where k: "published s = (pipe s)\<lparr>numWritten := k\<rparr>"
    by (cases "pc s") (auto simp: published_def intro: that [of "numWritten (pipe s)"])
  have "pc_ok c (reader_advance c (pipe s) x) (pc s)"
    by (rule pc_ok_reader_advance [OF abs [unfolded k]]) (use inv in \<open>simp add: shared_inv_def\<close>)
  with pipe_abs_reader_advance(1) [OF abs] inv q show ?thesis
    by (auto simp: shared_inv_def published_def split: writer_pc.splits)
qed

lemma pipe_step_inv: "pipe_step c s t \<Longrightarrow> shared_inv c s \<Longrightarrow> shared_inv c t"
proof (induction rule: pipe_step.induct)
  case (w_check s x)
  then have "admissible c x" by (simp add: admissible_def)
  with w_check pipe_has_room [of c "pipe s" "queue s" x] show ?case by (simp add: shared_defs pending_ok_def)
next
  case (w_publish s x)
  then have *: "pipe_abs c ((pipe s)\<lparr>numWritten := numWritten (pipe s) - 1\<rparr>) (queue s)"
    "pending_ok c (pipe s) x" "stored_ok c (pipe s) x (length x)"
    by (simp_all add: shared_defs)
  from publish_abs [OF *(1), of x] *(2,3) w_publish show ?case by (simp add: shared_defs)
next
  case (stop s)
  then show ?case by (auto simp: shared_defs stopWriter_def split: writer_pc.splits)
next
  case (start s)
  then show ?case by (auto simp: shared_defs startWriter_def split: writer_pc.splits)
qed (simp_all add: length_store_inv byte_store_inv reader_pop_inv, simp_all add: shared_defs)

interpretation pipe_system: invariant_system "pipe_step c" "shared_inv c" for c
  by unfold_locales (rule pipe_step_inv)

lemma initial_shared_inv:
  assumes "pipe_size_ok c" "length (buf raw) = psize c"
  shows "shared_inv c (initial_shared raw)"
  using pipe_abs_new [OF assms]
  by (simp add: shared_inv_def initial_shared_def published_def pc_ok_def stomps_intact_def
      LocklessPipe_def clear_def)

subsection \<open>Guarantees\<close>

text \<open>
  Property C1. Under every interleaving of the writer's stores with the reader, whatever has
  been published and not yet consumed is intact in the buffer, element by element and byte by
  byte, also while another element is being written; consumption is in order, without loss or
  duplication (the published elements are the consumed ones followed by the queued ones).
\<close>

theorem concurrent_fifo:
  assumes "pipe_size_ok c" "length (buf raw) = psize c" "(pipe_step c)\<^sup>*\<^sup>* (initial_shared raw) s"
  shows "pushed s = popped s @ queue s \<and> pipe_abs c (published s) (queue s) \<and>
    (queue s \<noteq> [] \<longrightarrow> oldest c (pipe s) = hd (queue s))"
proof -
  have "shared_inv c s"
    using pipe_system.run_keeps [OF assms(3) initial_shared_inv [OF assms(1,2)]] .
  then have *: "pushed s = popped s @ queue s" "pipe_abs c (published s) (queue s)"
    by (simp_all add: shared_inv_def)
  moreover have "oldest c (pipe s) = oldest c (published s)"
    by (simp add: published_def oldest_def cursor_defs split: writer_pc.split)
  ultimately show ?thesis
    by (cases "queue s") (simp_all add: oldest_pipe_abs)
qed

definition demo_start :: shared_pipe where
  "demo_start = initial_shared (raw_storage (replicate 32 0))"

lemma demo_checked: "pipe_step small_pipe demo_start (demo_start\<lparr>pc := W_checked [5]\<rparr>)"
proof (rule pipe_step.w_check)
  show "\<not> isFull small_pipe (pipe demo_start) (word_of_nat (length [5 :: u8]))" by code_simp
  show "isWriterRunning (pipe demo_start)" by code_simp
qed (simp_all add: demo_start_def initial_shared_def small_MAX)

text \<open>How many stores and other steps a push has still to make after its room check.\<close>

fun writer_left :: "writer_pc \<Rightarrow> nat" where
  "writer_left W_idle = 0"
| "writer_left (W_checked x) = length x + 4"
| "writer_left (W_reserved x) = length x + 3"
| "writer_left (W_copying x i) = length x - i + 2"
| "writer_left (W_counted x) = 1"

lemma pipe_step_left:
  "pipe_step c s t \<Longrightarrow> pc s \<noteq> W_idle \<Longrightarrow> pc t = pc s \<or> Suc (writer_left (pc t)) = writer_left (pc s)"
  by (induction rule: pipe_step.induct) auto

text \<open>The two stores of \<^verbatim>\<open>memcpy\<close> stay inside the buffer, so that the writer can always make them.\<close>

lemma writer_copies:
  assumes inv: "shared_inv c s" and x: "pc s = W_reserved x \<or> pc s = W_copying x i \<and> i < length x"
  shows "\<exists>t. pipe_step c s t \<and> pc t \<noteq> pc s"
proof -
  obtain lp dp v where pl: "startWrite_place c (writeVPtr (pipe s)) (word_of_nat (length x)) = (lp, dp, v)"
    by (metis prod_cases3)
  from inv x have "pipe_abs c (pipe s) (queue s)" "pending_ok c (pipe s) x" by (auto simp: shared_defs)
  note room = pending_place [OF this pl]
  from x show ?thesis
  proof
    assume r: "pc s = W_reserved x"
    from w_length [OF r pl memcpy_at_Some] room(1) r show ?thesis by fastforce
  next
    assume r: "pc s = W_copying x i \<and> i < length x"
    from w_byte [OF conjunct1 [OF r] conjunct2 [OF r] pl memcpy_at_Some] r room(2) show ?thesis by fastforce
  qed
qed

lemma writer_enabled:
  assumes inv: "shared_inv c s" and "pc s \<noteq> W_idle"
  shows "\<exists>t. pipe_step c s t \<and> pc t \<noteq> pc s"
proof (cases "pc s")
  case (W_checked x)
  with w_reserve [OF W_checked] show ?thesis by fastforce
next
  case (W_reserved x)
  with writer_copies [OF inv] show ?thesis by blast
next
  case (W_copying x i)
  with inv have "i \<le> length x" by (simp add: shared_defs stored_ok_def)
  then consider "i = length x" | "i < length x" by linarith
  then show ?thesis
  proof cases
    case 1
    with w_count [of s x] W_copying show ?thesis by fastforce
  next
    case 2
    with W_copying writer_copies [OF inv] show ?thesis by blast
  qed
next
  case (W_counted x)
  with w_publish [OF W_counted] show ?thesis by fastforce
qed (use assms(2) in simp)

text \<open>
  Property C8. Once its room check has succeeded a push is wait-free: in every reachable state with a
  push in progress the writer has a next step, whatever the reader has done meanwhile, so it never gets stuck between two
  stores and never writes outside the buffer; and every step of the system either leaves the writer where it is or brings it one
  step closer to the end of the push, which takes \<open>length x + 4\<close> steps after the check.
\<close>

theorem writer_never_stuck:
  assumes "pipe_size_ok c" "length (buf raw) = psize c" "(pipe_step c)\<^sup>*\<^sup>* (initial_shared raw) s"
    and "pc s \<noteq> W_idle"
  shows "(\<exists>t. pipe_step c s t \<and> Suc (writer_left (pc t)) = writer_left (pc s)) \<and>
    (\<forall>t. pipe_step c s t \<longrightarrow> pc t = pc s \<or> Suc (writer_left (pc t)) = writer_left (pc s))"
proof -
  have "shared_inv c s"
    using pipe_system.run_keeps [OF assms(3) initial_shared_inv [OF assms(1,2)]] .
  with writer_enabled [OF this assms(4)] pipe_step_left [OF _ assms(4)] show ?thesis by blast
qed

theorem writer_never_stuck_witness:
  "\<exists>t. pipe_step small_pipe (demo_start\<lparr>pc := W_checked [5]\<rparr>) t \<and> writer_left (pc t) = 4"
proof -
  have "(pipe_step small_pipe)\<^sup>*\<^sup>* (initial_shared (raw_storage (replicate 32 0)))
      (demo_start\<lparr>pc := W_checked [5]\<rparr>)"
    using demo_checked by (simp add: demo_start_def)
  from writer_never_stuck [OF small_pipe_ok _ this] show ?thesis
    by (simp add: raw_storage_def small_pipe_def)
qed

subsection \<open>The interleaved steps are those of push\<close>

lemma copy_bytes_run:
  assumes "pc s = W_copying x 0"
    and place: "startWrite_place c (writeVPtr (pipe s)) (word_of_nat (length x)) = (lp, dp, v)"
    and fit: "unat dp + length x \<le> length (buf (pipe s))" and "i \<le> length x"
  shows "(pipe_step c)\<^sup>*\<^sup>* s (s\<lparr>pipe := (pipe s)\<lparr>buf := blit (unat dp) (take i x) (buf (pipe s))\<rparr>,
    pc := W_copying x i\<rparr>)"
  using assms(4)
proof (induction i)
  case 0
  have "s = s\<lparr>pipe := (pipe s)\<lparr>buf := blit (unat dp) (take 0 x) (buf (pipe s))\<rparr>, pc := W_copying x 0\<rparr>"
    using assms(1) by (simp add: blit_def)
  then show ?case by (metis rtranclp.rtrancl_refl)
next
  case (Suc i)
  let ?b = "blit (unat dp) (take i x) (buf (pipe s))"
  let ?t = "s\<lparr>pipe := (pipe s)\<lparr>buf := ?b\<rparr>, pc := W_copying x i\<rparr>"
  have i: "i < length x" and len: "length (take i x) = i" using Suc.prems by simp_all
  have "length ?b = length (buf (pipe s))" using fit Suc.prems by (simp add: buffer_simps)
  then have cpy: "memcpy_at (unat dp + i) [x ! i] ?b = Some (blit (unat dp + i) [x ! i] ?b)"
    using fit i by simp
  have "blit (unat dp + i) [x ! i] ?b = blit (unat dp) (take (Suc i) x) (buf (pipe s))"
    using blit_snoc [of "unat dp" "take i x" "buf (pipe s)" "x ! i"] fit i
    by (simp add: len take_Suc_conv_app_nth)
  with w_byte [of ?t x i c lp dp v, OF _ i _ _] place cpy
  have "pipe_step c ?t (s\<lparr>pipe := (pipe s)\<lparr>buf := blit (unat dp) (take (Suc i) x) (buf (pipe s))\<rparr>,
      pc := W_copying x (Suc i)\<rparr>)" by simp
  with Suc show ?case by (simp add: rtranclp.rtrancl_into_rtrancl)
qed

lemma push_run:
  assumes "pipe_abs c (pipe s) (queue s)" "pc s = W_idle" "isWriterRunning (pipe s)"
    and "length x \<le> unat (MAX_PIPE_ELEMENT_SIZE c)" "\<not> isFull c (pipe s) (word_of_nat (length x))"
  shows "(pipe_step c)\<^sup>*\<^sup>* s (s\<lparr>pipe := write_element c (pipe s) x, pc := W_idle, queue := queue s @ [x], pushed := pushed s @ [x]\<rparr>)"
proof -
  let ?p = "pipe s" and ?h = "u32_bytes (byte_order c) (word_of_nat (length x))"
  have adm: "admissible c x" using assms(4) by (simp add: admissible_def)
  have pend: "pending_ok c ?p x"
    using pipe_has_room [OF assms(1) adm] assms(5) adm by (simp add: pending_ok_def)
  obtain lp dp v where place: "startWrite_place c (writeVPtr ?p) (word_of_nat (length x)) = (lp, dp, v)"
    by (metis prod_cases3)
  note bounds = pending_place [OF assms(1) pend place]
  let ?n = "next_vptr c ?p x"
  let ?s1 = "s\<lparr>pc := W_checked x\<rparr>"
  let ?s2 = "s\<lparr>pipe := ?p\<lparr>nextWriteVPtr := ?n\<rparr>, pc := W_reserved x\<rparr>"
  let ?s3 = "s\<lparr>pipe := ?p\<lparr>nextWriteVPtr := ?n, buf := blit (unat lp) ?h (buf ?p)\<rparr>, pc := W_copying x 0\<rparr>"
  let ?b = "blit (unat dp) x (blit (unat lp) ?h (buf ?p))"
  let ?s4 = "s\<lparr>pipe := ?p\<lparr>nextWriteVPtr := ?n, buf := ?b\<rparr>, pc := W_copying x (length x)\<rparr>"
  let ?s5 = "s\<lparr>pipe := ?p\<lparr>nextWriteVPtr := ?n, buf := ?b, numWritten := numWritten ?p + 1\<rparr>,
    pc := W_counted x\<rparr>"
  let ?t = "s\<lparr>pipe := write_element c ?p x, pc := W_idle, queue := queue s @ [x], pushed := pushed s @ [x]\<rparr>"
  have "pipe_step c s ?s1" by (rule w_check [OF assms(2,4,3,5)])
  moreover have "pipe_step c ?s1 ?s2" using w_reserve [of ?s1 x c] by simp
  moreover have "pipe_step c ?s2 ?s3"
    using w_length [of ?s2 x c lp dp v] place bounds by simp
  moreover have "(pipe_step c)\<^sup>*\<^sup>* ?s3 ?s4"
    using copy_bytes_run [of ?s3 x c lp dp v "length x"] place bounds by (simp add: buffer_simps)
  moreover have "pipe_step c ?s4 ?s5" using w_count [of ?s4 x c] by simp
  moreover have "write_element c ?p x =
      ?p\<lparr>nextWriteVPtr := ?n, buf := ?b, numWritten := numWritten ?p + 1, writeVPtr := ?n\<rparr>"
    by (simp add: write_element_def place next_vptr_def Let_def)
  then have "pipe_step c ?s5 ?t" using w_publish [of ?s5 x c] by simp
  ultimately show ?thesis
    by (meson converse_rtranclp_into_rtranclp rtranclp.rtrancl_into_rtrancl)
qed

text \<open>
  Property C9. The interleaved system takes exactly the steps of \<^verbatim>\<open>push\<close>: when nothing
  runs in between, its writer steps lead from the pipe before a successful push to the pipe
  that \<^verbatim>\<open>push\<close> returns, and the element joins the queue.
\<close>

theorem push_is_run_of_steps:
  assumes "pipe_abs c (pipe s) (queue s)" "pc s = W_idle" "isWriterRunning (pipe s)"
    and "length x \<le> unat (MAX_PIPE_ELEMENT_SIZE c)" "\<not> isFull c (pipe s) (word_of_nat (length x))"
  shows "\<exists>t. (pipe_step c)\<^sup>*\<^sup>* s t \<and> push c env (pipe s) x = Some (Returns (), pipe t) \<and>
    pc t = W_idle \<and> queue t = queue s @ [x]"
proof -
  let ?t = "s\<lparr>pipe := write_element c (pipe s) x, pc := W_idle, queue := queue s @ [x], pushed := pushed s @ [x]\<rparr>"
  have "push c env (pipe s) x = Some (Returns (), write_element c (pipe s) x)"
    by (rule push_with_room [OF assms(1)]) (use assms in \<open>simp_all add: startWrite_poll_stop admissible_def\<close>)
  with push_run [OF assms] show ?thesis by (intro exI [of _ ?t]) simp
qed

theorem push_is_run_of_steps_witness:
  "\<exists>t. (pipe_step small_pipe)\<^sup>*\<^sup>* demo_start t \<and>
     push small_pipe (\<lambda>_ p. p) (pipe demo_start) [5, 6] = Some (Returns (), pipe t) \<and>
     pc t = W_idle \<and> queue t = queue demo_start @ [ [5, 6] ]"
proof (rule push_is_run_of_steps)
  show "pipe_abs small_pipe (pipe demo_start) (queue demo_start)"
    using small_new_abs by (simp add: demo_start_def initial_shared_def small_new_def)
  show "\<not> isFull small_pipe (pipe demo_start) (word_of_nat (length [5, 6 :: u8]))" by code_simp
  show "isWriterRunning (pipe demo_start)" by code_simp
qed (simp_all add: demo_start_def initial_shared_def small_MAX)

text \<open>A run that has pushed one element, which the reader finds in the memory.\<close>

theorem concurrent_fifo_witness:
  "\<exists>s. (pipe_step small_pipe)\<^sup>*\<^sup>* demo_start s \<and> pushed s = [ [5, 6] ] \<and> popped s = [] \<and>
     pipe_abs small_pipe (published s) [ [5, 6] ] \<and> oldest small_pipe (pipe s) = [5, 6]"
proof -
  let ?s = "demo_start\<lparr>pipe := write_element small_pipe (pipe demo_start) [5, 6], pc := W_idle,
    queue := queue demo_start @ [ [5, 6] ], pushed := pushed demo_start @ [ [5, 6] ]\<rparr>"
  have "pipe_abs small_pipe (pipe demo_start) (queue demo_start)"
    using small_new_abs by (simp add: demo_start_def initial_shared_def small_new_def)
  moreover have "\<not> isFull small_pipe (pipe demo_start) (word_of_nat (length [5, 6 :: u8]))" "isWriterRunning (pipe demo_start)"
    by code_simp+
  moreover have start: "pc demo_start = W_idle" "queue demo_start = []" "pushed demo_start = []" "popped demo_start = []"
    by (simp_all add: demo_start_def initial_shared_def)
  ultimately have run: "(pipe_step small_pipe)\<^sup>*\<^sup>* demo_start ?s"
    using push_run [of small_pipe demo_start "[5, 6]"] by (simp add: small_MAX)
  from concurrent_fifo [OF small_pipe_ok _ this [unfolded demo_start_def], folded demo_start_def]
  have "pipe_abs small_pipe (published ?s) [ [5, 6] ] \<and> oldest small_pipe (pipe ?s) = [5, 6]"
    by (simp add: raw_storage_def small_pipe_def start)
  with run start show ?thesis by (intro exI [of _ ?s]) simp
qed

end
