(* ===== verification/PipeFairness.thy ===== *)
theory PipeFairness
  imports PipeConcurrency
begin

text \<open>
  What the pipe delivers in infinite runs in which both threads keep being scheduled. Safety of the
  interleaved pipe is in \<open>PipeConcurrency\<close>; here a weakly fair run is one in which no thread
  that can go on from some point onwards is left out for ever. In such a run every push that has
  passed its room check ends, the element arrives at the reader in its place, and a writer that polls
  for room finds it.
\<close>

subsection \<open>Fair runs and ranks\<close>

definition infinite_run :: "('s \<Rightarrow> 's \<Rightarrow> bool) \<Rightarrow> (nat \<Rightarrow> 's) \<Rightarrow> bool" where
  "infinite_run step \<sigma> \<longleftrightarrow> (\<forall>n. step (\<sigma> n) (\<sigma> (Suc n)))"

text \<open>\<open>moves\<close> are the steps of a thread: they are taken again and again unless the thread is
  disabled again and again.\<close>

definition weakly_fair :: "('s \<Rightarrow> 's \<Rightarrow> bool) \<Rightarrow> ('s \<Rightarrow> 's \<Rightarrow> bool) \<Rightarrow> (nat \<Rightarrow> 's) \<Rightarrow> bool" where
  "weakly_fair step moves \<sigma> \<longleftrightarrow>
     (\<forall>n. (\<forall>m\<ge>n. \<exists>t. step (\<sigma> m) t \<and> moves (\<sigma> m) t) \<longrightarrow> (\<exists>m\<ge>n. moves (\<sigma> m) (\<sigma> (Suc m))))"

text \<open>A goal measured by a rank: as long as it is not 0 the thread can move, each of its moves lowers
  the rank, and no other step raises it.\<close>

locale fair_progress = invariant_system +
  fixes moves :: "'a \<Rightarrow> 'a \<Rightarrow> bool" and rank :: "'a \<Rightarrow> nat"
  assumes can_move: "inv s \<Longrightarrow> 0 < rank s \<Longrightarrow> \<exists>t. step s t \<and> moves s t"
    and moves_lower: "step s t \<Longrightarrow> inv s \<Longrightarrow> 0 < rank s \<Longrightarrow> moves s t \<Longrightarrow> rank t < rank s"
    and others_keep: "step s t \<Longrightarrow> inv s \<Longrightarrow> 0 < rank s \<Longrightarrow> \<not> moves s t \<Longrightarrow> rank t \<le> rank s"
begin

lemma inv_on_run:
  assumes "infinite_run step \<sigma>" "inv (\<sigma> n)"
  shows "n \<le> m \<Longrightarrow> inv (\<sigma> m)"
  by (induction m rule: dec_induct) (use assms step_keeps in \<open>auto simp: infinite_run_def\<close>)

lemma reaches_zero:
  assumes "infinite_run step \<sigma>" "weakly_fair step moves \<sigma>" "inv (\<sigma> n)"
  shows "\<exists>m\<ge>n. rank (\<sigma> m) = 0"
  using assms(3)
proof (induction "rank (\<sigma> n)" arbitrary: n rule: less_induct)
  case less
  note inv = inv_on_run [OF assms(1) less.prems]
  show ?case
  proof (rule ccontr)
    assume "\<not> (\<exists>m\<ge>n. rank (\<sigma> m) = 0)"
    then have pos: "0 < rank (\<sigma> m)" if "n \<le> m" for m using that by auto
    then have "\<forall>m\<ge>n. \<exists>t. step (\<sigma> m) t \<and> moves (\<sigma> m) t" using can_move [OF inv] by simp
    with assms(2) have ex: "\<exists>m. n \<le> m \<and> moves (\<sigma> m) (\<sigma> (Suc m))" by (simp add: weakly_fair_def)
    define m where "m = (LEAST m. n \<le> m \<and> moves (\<sigma> m) (\<sigma> (Suc m)))"
    have m: "n \<le> m" "moves (\<sigma> m) (\<sigma> (Suc m))"
      using LeastI_ex [OF ex] unfolding m_def by blast+
    have keep: "rank (\<sigma> k) \<le> rank (\<sigma> n)" if "n \<le> k" "k \<le> m" for k
      using that
    proof (induction k rule: dec_induct)
      case (step k)
      then have "k < m" by simp
      from not_less_Least [OF this [unfolded m_def]] step.hyps have "\<not> moves (\<sigma> k) (\<sigma> (Suc k))" by blast
      with step.hyps have "rank (\<sigma> (Suc k)) \<le> rank (\<sigma> k)"
        using others_keep [OF _ inv pos] assms(1) by (simp add: infinite_run_def)
      with step show ?case by simp
    qed simp
    have "rank (\<sigma> (Suc m)) < rank (\<sigma> m)"
      using moves_lower [OF _ inv [OF m(1)] pos [OF m(1)] m(2)] assms(1) unfolding infinite_run_def by blast
    with keep [OF m(1)] have "rank (\<sigma> (Suc m)) < rank (\<sigma> n)" by simp
    from less.hyps [OF this] inv [of "Suc m"] m(1) obtain k where "Suc m \<le> k" "rank (\<sigma> k) = 0" by auto
    with pos [of k] m(1) show False by simp
  qed
qed

end

subsection \<open>The two threads of the pipe\<close>

text \<open>The writer moves inside a push; whether to begin one is up to its caller. The reader moves by
  taking an element out.\<close>

definition writer_moves :: "shared_pipe \<Rightarrow> shared_pipe \<Rightarrow> bool" where
  "writer_moves s t \<longleftrightarrow> pc s \<noteq> W_idle \<and> pc t \<noteq> pc s"

definition reader_moves :: "shared_pipe \<Rightarrow> shared_pipe \<Rightarrow> bool" where
  "reader_moves s t \<longleftrightarrow> popped t \<noteq> popped s"

definition fair_run :: "pipe_params \<Rightarrow> (nat \<Rightarrow> shared_pipe) \<Rightarrow> bool" where
  "fair_run c \<sigma> \<longleftrightarrow> infinite_run (pipe_step c) \<sigma> \<and>
     weakly_fair (pipe_step c) writer_moves \<sigma> \<and> weakly_fair (pipe_step c) reader_moves \<sigma>"

fun pushing :: "writer_pc \<Rightarrow> bytes option" where
  "pushing W_idle = None"
| "pushing (W_checked x) = Some x"
| "pushing (W_reserved x) = Some x"
| "pushing (W_copying x i) = Some x"
| "pushing (W_counted x) = Some x"

text \<open>The element of a push that is in progress after \<open>ps\<close> has been pushed stays pending until it is
  published right behind \<open>ps\<close>.\<close>

definition in_progress :: "pipe_params \<Rightarrow> bytes list \<Rightarrow> bytes \<Rightarrow> shared_pipe \<Rightarrow> bool" where
  "in_progress c ps x s \<longleftrightarrow> shared_inv c s \<and>
     (pushing (pc s) = Some x \<and> pushed s = ps \<or> (\<exists>qs. pushed s = ps @ x # qs))"

lemma in_progress_step: "pipe_step c s t \<Longrightarrow> in_progress c ps x s \<Longrightarrow> in_progress c ps x t"
proof -
  assume st: "pipe_step c s t" and pr: "in_progress c ps x s"
  then have "shared_inv c t" using pipe_step_inv by (auto simp: in_progress_def)
  moreover from st pr have "pushing (pc t) = Some x \<and> pushed t = ps \<or> (\<exists>qs. pushed t = ps @ x # qs)"
    by (induction rule: pipe_step.induct) (auto simp: in_progress_def)
  ultimately show ?thesis by (simp add: in_progress_def)
qed

interpretation push_ends: fair_progress "pipe_step c" "in_progress c ps x" writer_moves "\<lambda>s. writer_left (pc s)" for c ps x
proof unfold_locales
  fix s t
  show "pipe_step c s t \<Longrightarrow> in_progress c ps x s \<Longrightarrow> in_progress c ps x t" by (rule in_progress_step)
next
  fix s
  assume "in_progress c ps x s" "0 < writer_left (pc s)"
  moreover from this have "pc s \<noteq> W_idle" by auto
  ultimately show "\<exists>t. pipe_step c s t \<and> writer_moves s t"
    using writer_enabled [of c s] by (auto simp: in_progress_def writer_moves_def)
next
  fix s t
  assume "pipe_step c s t" "writer_moves s t"
  then show "writer_left (pc t) < writer_left (pc s)"
    using pipe_step_left [of c s t] by (auto simp: writer_moves_def)
next
  fix s t
  assume "pipe_step c s t" "0 < writer_left (pc s)" "\<not> writer_moves s t"
  then show "writer_left (pc t) \<le> writer_left (pc s)"
    using pipe_step_left [of c s t] by (auto simp: writer_moves_def)
qed

text \<open>The reader has to take out \<open>k\<close> elements that have been pushed.\<close>

definition has_pushed :: "pipe_params \<Rightarrow> nat \<Rightarrow> shared_pipe \<Rightarrow> bool" where
  "has_pushed c k s \<longleftrightarrow> shared_inv c s \<and> k \<le> length (pushed s)"

lemma queue_length: "shared_inv c s \<Longrightarrow> length (pushed s) = length (popped s) + length (queue s)"
  by (simp add: shared_inv_def)

lemma history_step:
  assumes "pipe_step c s t"
  shows "length (pushed s) \<le> length (pushed t)" "popped t = popped s \<or> length (popped t) = Suc (length (popped s))"
    "pc s = W_idle \<Longrightarrow> pushed t = pushed s" "\<exists>xs. pushed t = pushed s @ xs"
  using assms by (induction rule: pipe_step.induct) auto

interpretation pop_happens: fair_progress "pipe_step c" "has_pushed c k" reader_moves "\<lambda>s. k - length (popped s)" for c k
proof unfold_locales
  fix s t
  assume "pipe_step c s t" "has_pushed c k s"
  then show "has_pushed c k t"
    using pipe_step_inv history_step(1) by (fastforce simp: has_pushed_def)
next
  fix s
  assume "has_pushed c k s" "0 < k - length (popped s)"
  then obtain x q where "queue s = x # q" by (cases "queue s") (auto simp: has_pushed_def shared_inv_def)
  from r_pop [OF this] show "\<exists>t. pipe_step c s t \<and> reader_moves s t" by (fastforce simp: reader_moves_def)
next
  fix s t
  assume "pipe_step c s t" "0 < k - length (popped s)" "reader_moves s t"
  then show "k - length (popped t) < k - length (popped s)"
    using history_step(2) [of c s t] by (auto simp: reader_moves_def)
next
  fix s t
  assume "pipe_step c s t" "\<not> reader_moves s t"
  then show "k - length (popped t) \<le> k - length (popped s)" by (simp add: reader_moves_def)
qed

lemma fair_runD:
  assumes "fair_run c \<sigma>"
  shows "infinite_run (pipe_step c) \<sigma>" "weakly_fair (pipe_step c) writer_moves \<sigma>" "weakly_fair (pipe_step c) reader_moves \<sigma>"
  using assms by (simp_all add: fair_run_def)

lemma push_is_published:
  assumes "fair_run c \<sigma>" "shared_inv c (\<sigma> n)" "pushing (pc (\<sigma> n)) = Some x"
  shows "\<exists>m\<ge>n. shared_inv c (\<sigma> m) \<and> (\<exists>qs. pushed (\<sigma> m) = pushed (\<sigma> n) @ x # qs)"
proof -
  note run = fair_runD [OF assms(1)]
  have pr: "in_progress c (pushed (\<sigma> n)) x (\<sigma> n)" using assms(2,3) by (simp add: in_progress_def)
  from push_ends.reaches_zero [of c \<sigma>, OF run(1) run(2) pr] obtain m where m: "n \<le> m" "writer_left (pc (\<sigma> m)) = 0"
    by auto
  then have "pushing (pc (\<sigma> m)) = None" by (cases "pc (\<sigma> m)") auto
  moreover have "in_progress c (pushed (\<sigma> n)) x (\<sigma> m)"
    using push_ends.inv_on_run [OF run(1) pr m(1)] .
  ultimately show ?thesis using m(1) by (auto simp: in_progress_def)
qed

lemma pushed_is_popped:
  assumes "fair_run c \<sigma>" "shared_inv c (\<sigma> n)"
  shows "\<exists>m\<ge>n. shared_inv c (\<sigma> m) \<and> length (pushed (\<sigma> n)) \<le> length (popped (\<sigma> m))"
proof -
  note run = fair_runD [OF assms(1)]
  have pu: "has_pushed c (length (pushed (\<sigma> n))) (\<sigma> n)" using assms(2) by (simp add: has_pushed_def)
  from pop_happens.reaches_zero [of c \<sigma>, OF run(1) run(3) pu] obtain m where
    m: "n \<le> m" "length (pushed (\<sigma> n)) - length (popped (\<sigma> m)) = 0"
    by auto
  moreover have "has_pushed c (length (pushed (\<sigma> n))) (\<sigma> m)"
    using pop_happens.inv_on_run [OF run(1) pu m(1)] .
  ultimately show ?thesis by (auto simp: has_pushed_def)
qed

lemma append_prefix: "as @ bs = ps @ qs \<Longrightarrow> length ps \<le> length as \<Longrightarrow> \<exists>rest. as = ps @ rest"
  by (metis append_eq_append_conv_if append_take_drop_id)

lemma push_arrives:
  assumes "fair_run c \<sigma>" "\<And>n. shared_inv c (\<sigma> n)" "pushing (pc (\<sigma> n)) = Some x"
  shows "\<exists>m\<ge>n. \<exists>later. popped (\<sigma> m) = pushed (\<sigma> n) @ x # later"
proof -
  from push_is_published [OF assms(1,2,3)] obtain k qs where
    k: "n \<le> k" "pushed (\<sigma> k) = pushed (\<sigma> n) @ x # qs" by blast
  from pushed_is_popped [OF assms(1,2), of k] obtain m where
    m: "k \<le> m" "length (pushed (\<sigma> k)) \<le> length (popped (\<sigma> m))" by blast
  have "\<exists>rest. pushed (\<sigma> m) = pushed (\<sigma> k) @ rest"
    using m(1)
  proof (induction m rule: dec_induct)
    case (step m)
    then show ?case using history_step(4) [OF fair_runD(1) [OF assms(1), unfolded infinite_run_def, rule_format, of m]] by auto
  qed simp
  then obtain rest where "popped (\<sigma> m) @ queue (\<sigma> m) = pushed (\<sigma> k) @ rest"
    using assms(2) [of m] by (auto simp: shared_inv_def)
  from append_prefix [OF this m(2)] obtain more where "popped (\<sigma> m) = pushed (\<sigma> k) @ more" by blast
  with k m(1) show ?thesis by (intro exI [of _ m]) auto
qed

text \<open>A writer that starts no push leaves the pipe to the reader, who empties it, and an empty pipe has room.\<close>

lemma idle_writer_finds_room:
  assumes "fair_run c \<sigma>" "shared_inv c (\<sigma> n)" "\<forall>m\<ge>n. pc (\<sigma> m) = W_idle"
  shows "\<exists>m\<ge>n. \<forall>k\<ge>m. queue (\<sigma> k) = [] \<and>
    (\<forall>x :: bytes. length x \<le> unat (MAX_PIPE_ELEMENT_SIZE c) \<longrightarrow> \<not> isFull c (pipe (\<sigma> k)) (word_of_nat (length x)))"
proof -
  note next_step = fair_runD(1) [OF assms(1), unfolded infinite_run_def, rule_format]
  have same: "pushed (\<sigma> k) = pushed (\<sigma> n)" if "n \<le> k" for k
    using that
  proof (induction k rule: dec_induct)
    case (step k)
    with history_step(3) [OF next_step [of k]] assms(3) show ?case by simp
  qed simp
  from pushed_is_popped [OF assms(1,2)] obtain m where
    m: "n \<le> m" "shared_inv c (\<sigma> m)" "length (pushed (\<sigma> n)) \<le> length (popped (\<sigma> m))" by blast
  have empty: "shared_inv c (\<sigma> k) \<and> queue (\<sigma> k) = []" if "m \<le> k" for k
    using that
  proof (induction k rule: dec_induct)
    case base
    with m same [OF m(1)] show ?case by (auto simp: shared_inv_def)
  next
    case (step k)
    then have "shared_inv c (\<sigma> (Suc k))" using pipe_step_inv next_step [of k] by blast
    moreover have "length (popped (\<sigma> k)) \<le> length (popped (\<sigma> (Suc k)))"
      using history_step(2) [OF next_step [of k]] by auto
    moreover have "pushed (\<sigma> (Suc k)) = pushed (\<sigma> k)" using step.hyps m(1) same [of k] same [of "Suc k"] by simp
    moreover have "length (pushed (\<sigma> k)) = length (popped (\<sigma> k))" using queue_length [of c "\<sigma> k"] step.IH by simp
    ultimately show ?case using queue_length [of c "\<sigma> (Suc k)"] by simp
  qed
  have "\<not> isFull c (pipe (\<sigma> k)) (word_of_nat (length x))"
    if "m \<le> k" "length x \<le> unat (MAX_PIPE_ELEMENT_SIZE c)" for k and x :: bytes
  proof -
    from empty [OF that(1)] assms(3) that(1) m(1) have "pipe_abs c (pipe (\<sigma> k)) []"
      by (auto simp: shared_inv_def published_def)
    from pipe_fifo.room_empty [OF this, of x] that(2) show ?thesis by (simp add: admissible_def)
  qed
  with empty m(1) show ?thesis by blast
qed

text \<open>Fair runs exist from every state: let the writer end its push, then the reader empty the pipe.\<close>

lemma fair_run_exists:
  assumes "shared_inv c s"
  shows "\<exists>\<sigma>. \<sigma> 0 = s \<and> fair_run c \<sigma>"
proof -
  have "\<exists>t. pipe_step c s t \<and> (pc s \<noteq> W_idle \<longrightarrow> pc t \<noteq> pc s) \<and>
      (pc s = W_idle \<longrightarrow> queue s \<noteq> [] \<longrightarrow> popped t \<noteq> popped s)" if "shared_inv c s" for s
  proof (cases "pc s = W_idle")
    case True
    with start [of c s] r_pop [of s _ _ c] show ?thesis by (cases "queue s") fastforce+
  qed (use writer_enabled [OF that] in blast)
  then obtain f where f: "shared_inv c s \<Longrightarrow> pipe_step c s (f s) \<and> (pc s \<noteq> W_idle \<longrightarrow> pc (f s) \<noteq> pc s) \<and>
      (pc s = W_idle \<longrightarrow> queue s \<noteq> [] \<longrightarrow> popped (f s) \<noteq> popped s)" for s
    by metis
  define \<sigma> where "\<sigma> n = (f ^^ n) s" for n
  have inv: "shared_inv c (\<sigma> n)" for n
    by (induction n) (use assms f pipe_step_inv in \<open>auto simp: \<sigma>_def\<close>)
  have f: "pipe_step c (\<sigma> n) (\<sigma> (Suc n))" "pc (\<sigma> n) \<noteq> W_idle \<Longrightarrow> pc (\<sigma> (Suc n)) \<noteq> pc (\<sigma> n)"
    "pc (\<sigma> n) = W_idle \<Longrightarrow> queue (\<sigma> n) \<noteq> [] \<Longrightarrow> popped (\<sigma> (Suc n)) \<noteq> popped (\<sigma> n)" for n
    using f [OF inv, of n] by (simp_all add: \<sigma>_def)
  have run: "infinite_run (pipe_step c) \<sigma>" using f(1) by (simp add: infinite_run_def)
  have writer: "weakly_fair (pipe_step c) writer_moves \<sigma>"
    using f(2) by (auto simp: weakly_fair_def writer_moves_def)
  have idle: "\<exists>m\<ge>n. pc (\<sigma> m) = W_idle" for n
  proof (cases "pushing (pc (\<sigma> n))")
    case None
    then show ?thesis by (cases "pc (\<sigma> n)") auto
  next
    case (Some x)
    with inv have "in_progress c (pushed (\<sigma> n)) x (\<sigma> n)" by (simp add: in_progress_def)
    from push_ends.reaches_zero [of c \<sigma>, OF run writer this] obtain m where "n \<le> m" "writer_left (pc (\<sigma> m)) = 0" by auto
    then show ?thesis by (cases "pc (\<sigma> m)") auto
  qed
  have "queue s \<noteq> []" if "pipe_step c s t" "reader_moves s t" for s t
    using that by (induction rule: pipe_step.induct) (auto simp: reader_moves_def)
  then have "weakly_fair (pipe_step c) reader_moves \<sigma>"
    unfolding weakly_fair_def using idle f(3) by (metis reader_moves_def)
  with run writer have "fair_run c \<sigma>" by (simp add: fair_run_def)
  then show ?thesis by (intro exI [of _ \<sigma>]) (simp add: \<sigma>_def)
qed

text \<open>
  Property C7. Delivery in weakly fair runs, from every reachable state of the interleaved pipe. A push that has
  passed its room check ends, and the reader takes its element out right after everything pushed before it. If
  the writer starts no more push, as while it polls for room in \<^verbatim>\<open>startWrite\<close>, the pipe drains: from
  some point on it is empty and has room for every element of the permitted size, so the poll succeeds unless the writer is stopped.
\<close>

theorem fair_delivery:
  assumes "pipe_size_ok c" "length (buf raw) = psize c" "(pipe_step c)\<^sup>*\<^sup>* (initial_shared raw) (\<sigma> 0)" "fair_run c \<sigma>"
  shows "(\<forall>n x. pushing (pc (\<sigma> n)) = Some x \<longrightarrow> (\<exists>m\<ge>n. \<exists>later. popped (\<sigma> m) = pushed (\<sigma> n) @ x # later)) \<and>
    (\<forall>n. (\<forall>m\<ge>n. pc (\<sigma> m) = W_idle) \<longrightarrow>
       (\<exists>m\<ge>n. \<forall>k\<ge>m. queue (\<sigma> k) = [] \<and>
          (\<forall>x :: bytes. length x \<le> unat (MAX_PIPE_ELEMENT_SIZE c) \<longrightarrow> \<not> isFull c (pipe (\<sigma> k)) (word_of_nat (length x)))))"
proof -
  have "shared_inv c (\<sigma> 0)"
    using pipe_system.run_keeps [OF assms(3) initial_shared_inv [OF assms(1,2)]] .
  then have inv: "shared_inv c (\<sigma> n)" for n
    by (induction n) (use fair_runD(1) [OF assms(4)] pipe_step_inv in \<open>auto simp: infinite_run_def\<close>)
  have "\<exists>m\<ge>n. \<exists>later. popped (\<sigma> m) = pushed (\<sigma> n) @ x # later" if pend: "pushing (pc (\<sigma> n)) = Some x" for n x
    using push_arrives [OF assms(4) inv pend] by blast
  with idle_writer_finds_room [OF assms(4) inv] show ?thesis by blast
qed

theorem fair_delivery_witness:
  "\<exists>\<sigma>. \<sigma> 0 = demo_start\<lparr>pc := W_checked [5]\<rparr> \<and> fair_run small_pipe \<sigma> \<and> (\<exists>m later. popped (\<sigma> m) = [5] # later)"
proof -
  have reach: "(pipe_step small_pipe)\<^sup>*\<^sup>* (initial_shared (raw_storage (replicate 32 0))) (demo_start\<lparr>pc := W_checked [5]\<rparr>)"
    using demo_checked by (simp add: demo_start_def)
  have len: "length (buf (raw_storage (replicate 32 0))) = psize small_pipe" by (simp add: raw_storage_def small_pipe_def)
  from fair_run_exists [OF pipe_system.run_keeps [OF reach initial_shared_inv [OF small_pipe_ok len]]]
  obtain \<sigma> where s: "\<sigma> 0 = demo_start\<lparr>pc := W_checked [5]\<rparr>" "fair_run small_pipe \<sigma>" by blast
  have "pushing (pc (\<sigma> 0)) = Some [5]" using s(1) by simp
  with conjunct1 [OF fair_delivery [OF small_pipe_ok len reach [folded s(1)] s(2)]]
  have "\<exists>m\<ge>0. \<exists>later. popped (\<sigma> m) = pushed (\<sigma> 0) @ [5] # later" by blast
  with s show ?thesis by (auto simp: demo_start_def initial_shared_def)
qed

end
