(* ===== verification/MemoryFence.thy ===== *)
theory MemoryFence
  imports Prelude
begin

text \<open>
  \<^verbatim>\<open>lockless_pipe/membar.h\<close> and \<^verbatim>\<open>lockless_pipe/MemoryFence.h\<close>. A barrier is the set of orderings that
  it enforces between the accesses before and after it, a platform the set of orderings that
  its memory model keeps without a barrier. The spin lock is a step relation of threads that take
  it by the compare-and-swap macro and release it, in which stores become visible in any order that
  the barriers allow; the macro of x86 is modelled down to the registers of its assembly statement.
\<close>

subsection \<open>Barriers\<close>

datatype ordering = Load_load | Load_store | Store_load | Store_store

datatype platform = Sparc | Power_xlc | Power_gnu | X86 | Gnu_builtins

text \<open>Total store order on SPARC and x86; nothing is assumed of the others.\<close>

definition model_order :: "platform \<Rightarrow> ordering set" where
  "model_order p = (case p of Sparc \<Rightarrow> {Load_load, Load_store, Store_store}
     | X86 \<Rightarrow> {Load_load, Load_store, Store_store} | _ \<Rightarrow> {})"

text \<open>The barriers that the macros expand to: an empty assembly statement orders nothing in the
  machine, \<^verbatim>\<open>lwsync\<close> all but a store with a later load, \<^verbatim>\<open>isync\<close> after a conditional branch the loads
  before it, \<^verbatim>\<open>sync\<close>, \<^verbatim>\<open>mfence\<close> and \<^verbatim>\<open>__sync_synchronize\<close> everything.\<close>

definition compiler_only :: "ordering set" where "compiler_only = {}"

definition lwsync :: "ordering set" where "lwsync = {Load_load, Load_store, Store_store}"

definition isync :: "ordering set" where "isync = {Load_load, Load_store}"

definition full_barrier :: "ordering set" where
  "full_barrier = {Load_load, Load_store, Store_load, Store_store}"

text \<open>What a section of the header defines for one platform: the barriers of the upper-case macros, those of the
  lower-case macros that the section defines itself (\<open>None\<close> where it leaves them to the defaults),
  and whether the compare-and-swap macro returns the old lock word or a truth value.\<close>

record membar_section =
  upper_StoreStore :: "ordering set"
  upper_ACQUIRE :: "ordering set"
  upper_RELEASE :: "ordering set"
  upper_FULLSYNC :: "ordering set"
  lower_storestore :: "ordering set option"
  lower_acquire :: "ordering set option"
  lower_release :: "ordering set option"
  cas_returns_old :: bool

definition sparc_section :: membar_section where
  "sparc_section = \<lparr>upper_StoreStore = {Store_store}, upper_ACQUIRE = {Store_load, Store_store},
     upper_RELEASE = {Load_store, Store_store}, upper_FULLSYNC = full_barrier,
     lower_storestore = Some compiler_only, lower_acquire = Some compiler_only, lower_release = Some compiler_only,
     cas_returns_old = True\<rparr>"

definition power_xlc_section :: membar_section where
  "power_xlc_section = \<lparr>upper_StoreStore = lwsync, upper_ACQUIRE = isync,
     upper_RELEASE = lwsync, upper_FULLSYNC = full_barrier,
     lower_storestore = None, lower_acquire = Some lwsync, lower_release = None, cas_returns_old = False\<rparr>"

definition power_gnu_section :: membar_section where
  "power_gnu_section = \<lparr>upper_StoreStore = lwsync, upper_ACQUIRE = isync,
     upper_RELEASE = lwsync, upper_FULLSYNC = full_barrier,
     lower_storestore = None, lower_acquire = Some lwsync, lower_release = None, cas_returns_old = False\<rparr>"

definition x86_section :: membar_section where
  "x86_section = \<lparr>upper_StoreStore = compiler_only, upper_ACQUIRE = full_barrier,
     upper_RELEASE = full_barrier, upper_FULLSYNC = full_barrier,
     lower_storestore = None, lower_acquire = Some compiler_only, lower_release = Some compiler_only,
     cas_returns_old = True\<rparr>"

definition gnu_builtins_section :: membar_section where
  "gnu_builtins_section = \<lparr>upper_StoreStore = full_barrier, upper_ACQUIRE = full_barrier,
     upper_RELEASE = full_barrier, upper_FULLSYNC = full_barrier,
     lower_storestore = None, lower_acquire = None, lower_release = None, cas_returns_old = False\<rparr>"

definition section_of :: "platform \<Rightarrow> membar_section" where
  "section_of p = (case p of Sparc \<Rightarrow> sparc_section | Power_xlc \<Rightarrow> power_xlc_section
     | Power_gnu \<Rightarrow> power_gnu_section | X86 \<Rightarrow> x86_section | Gnu_builtins \<Rightarrow> gnu_builtins_section)"


definition MEMBAR_acquire :: "platform \<Rightarrow> ordering set" where
  "MEMBAR_acquire p =
     (case lower_acquire (section_of p) of None \<Rightarrow> upper_ACQUIRE (section_of p) | Some b \<Rightarrow> b)"

definition MEMBAR_release :: "platform \<Rightarrow> ordering set" where
  "MEMBAR_release p =
     (case lower_release (section_of p) of None \<Rightarrow> upper_RELEASE (section_of p) | Some b \<Rightarrow> b)"


lemmas section_defs = section_of_def sparc_section_def power_xlc_section_def power_gnu_section_def x86_section_def
  gnu_builtins_section_def lwsync_def isync_def full_barrier_def compiler_only_def

definition MF_read_sync :: "platform \<Rightarrow> ordering set" where
  "MF_read_sync p = MEMBAR_acquire p"

definition MF_write_sync :: "platform \<Rightarrow> ordering set" where
  "MF_write_sync p = MEMBAR_release p"


lemma write_sync_orders: "Store_store \<in> model_order p \<union> MF_write_sync p"
  by (cases p) (simp_all add: model_order_def MF_write_sync_def MEMBAR_release_def section_defs)

lemma read_sync_orders: "Load_load \<in> model_order p \<union> MF_read_sync p"
  by (cases p) (simp_all add: model_order_def MF_read_sync_def MEMBAR_acquire_def section_defs)



subsection \<open>The spin lock\<close>

text \<open>On x86 \<^verbatim>\<open>MEMBAR_LOCK_CAS\<close> is one assembly statement, \<^verbatim>\<open>lock cmpxchgl\<close> of a register that holds 1 with
  the lock word. The instruction compares the word with \<^verbatim>\<open>eax\<close>; when they are equal it stores the
  register, otherwise it loads the word into \<^verbatim>\<open>eax\<close>. The operands of the statement are the
  register of \<^verbatim>\<open>result\<close>, which holds 0 before (\<^verbatim>\<open>"=q"(result)\<close> with \<^verbatim>\<open>"0"(0)\<close>), and the register
  of the 1 (\<^verbatim>\<open>"r"(1)\<close>). The compiler chooses both, two different ones as they hold different values;
  nothing in the statement asks for \<^verbatim>\<open>eax\<close>.\<close>

datatype register = EAX | Other_register nat

definition lock_cmpxchgl :: "register \<Rightarrow> (register \<Rightarrow> u32) \<Rightarrow> u32 \<Rightarrow> (register \<Rightarrow> u32) \<times> u32" where
  "lock_cmpxchgl src regs w = (if regs EAX = w then (regs, regs src) else (regs(EAX := w), w))"

record cas_operands =
  result_register :: register
  one_register :: register

definition x86_LOCK_CAS :: "cas_operands \<Rightarrow> (register \<Rightarrow> u32) \<Rightarrow> u32 \<Rightarrow> u32 \<times> u32" where
  "x86_LOCK_CAS ops regs w =
     (case lock_cmpxchgl (one_register ops) (regs(result_register ops := 0, one_register ops := 1)) w of
        (regs', w') \<Rightarrow> (regs' (result_register ops), w'))"

text \<open>\<^verbatim>\<open>MEMBAR_LOCK_CAS\<close>: the value that the macro returns, to be read as 0 when the lock was taken,
  and the new lock word. \<^verbatim>\<open>atomic_cas_32\<close> of SPARC returns the old word, the functions and builtins
  of the other platforms a truth value. The registers matter on x86 only.\<close>

definition MEMBAR_LOCK_CAS :: "platform \<Rightarrow> cas_operands \<Rightarrow> (register \<Rightarrow> u32) \<Rightarrow> u32 \<Rightarrow> u32 \<times> u32" where
  "MEMBAR_LOCK_CAS p ops regs w =
     (if p = X86 then x86_LOCK_CAS ops regs w
      else if w = 0 then (0, 1) else (if cas_returns_old (section_of p) then w else 1, w))"

text \<open>With \<^verbatim>\<open>eax\<close> the statement is a compare-and-swap of 0 and 1; with another register it returns 0
  whatever the lock word was.\<close>

lemma lock_cas_correct:
  assumes "p = X86 \<longrightarrow> result_register ops = EAX" "result_register ops \<noteq> one_register ops"
  shows "w = 0 \<Longrightarrow> MEMBAR_LOCK_CAS p ops regs w = (0, 1)"
    and "w \<noteq> 0 \<Longrightarrow> fst (MEMBAR_LOCK_CAS p ops regs w) \<noteq> 0 \<and> snd (MEMBAR_LOCK_CAS p ops regs w) = w"
  using assms by (auto simp: MEMBAR_LOCK_CAS_def x86_LOCK_CAS_def lock_cmpxchgl_def)

lemma lock_cas_always_succeeds:
  assumes "result_register ops \<noteq> EAX" "result_register ops \<noteq> one_register ops"
  shows "fst (MEMBAR_LOCK_CAS X86 ops regs w) = 0"
  using assms by (simp add: MEMBAR_LOCK_CAS_def x86_LOCK_CAS_def lock_cmpxchgl_def)

text \<open>The lock word, the threads between a successful compare-and-swap and the release, the stores
  of critical sections that are not yet visible, and the releases whose store of 0 is not yet
  visible.\<close>

record lock_state =
  lock_word :: u32
  inside :: "nat set"
  data_pending :: nat
  releases_pending :: nat

text \<open>The compare-and-swap runs with any content of the registers. \<open>b\<close> is the barrier in front of
  the store of \<^verbatim>\<open>MEMBAR_lock_release\<close>, with what the memory model keeps anyway.\<close>

inductive lock_step :: "platform \<Rightarrow> cas_operands \<Rightarrow> ordering set \<Rightarrow> lock_state \<Rightarrow> lock_state \<Rightarrow> bool"
  for p ops b where
  cas: "tid \<notin> inside s \<Longrightarrow> MEMBAR_LOCK_CAS p ops regs (lock_word s) = (r, w) \<Longrightarrow>
    lock_step p ops b s (s\<lparr>lock_word := w, inside := (if r = 0 then insert tid (inside s) else inside s)\<rparr>)"
| critical_store: "tid \<in> inside s \<Longrightarrow> lock_step p ops b s (s\<lparr>data_pending := data_pending s + 1\<rparr>)"
| data_visible: "0 < data_pending s \<Longrightarrow> lock_step p ops b s (s\<lparr>data_pending := data_pending s - 1\<rparr>)"
| release: "tid \<in> inside s \<Longrightarrow>
    lock_step p ops b s (s\<lparr>inside := inside s - {tid}, releases_pending := releases_pending s + 1\<rparr>)"
| release_visible: "0 < releases_pending s \<Longrightarrow> Store_store \<in> b \<longrightarrow> data_pending s = 0 \<Longrightarrow>
    lock_step p ops b s (s\<lparr>lock_word := 0, releases_pending := releases_pending s - 1\<rparr>)"

definition lock_start :: lock_state where
  "lock_start = \<lparr>lock_word = 0, inside = {}, data_pending = 0, releases_pending = 0\<rparr>"

definition lock_inv :: "lock_state \<Rightarrow> bool" where
  "lock_inv s \<longleftrightarrow>
     (if lock_word s = 0 then inside s = {} \<and> releases_pending s = 0 \<and> data_pending s = 0
      else (\<exists>tid. inside s = {tid}) \<and> releases_pending s = 0 \<or> inside s = {} \<and> releases_pending s = 1)"

text \<open>What the lock needs of the platform and of the compiler.\<close>

definition lock_sound :: "platform \<Rightarrow> cas_operands \<Rightarrow> ordering set \<Rightarrow> bool" where
  "lock_sound p ops b \<longleftrightarrow> (p = X86 \<longrightarrow> result_register ops = EAX) \<and>
     result_register ops \<noteq> one_register ops \<and> Store_store \<in> b"

lemma lock_step_inv: "lock_step p ops b s t \<Longrightarrow> lock_sound p ops b \<Longrightarrow> lock_inv s \<Longrightarrow> lock_inv t"
proof (induction rule: lock_step.induct)
  case (cas tid s regs r w)
  then have correct: "lock_word s = 0 \<Longrightarrow> r = 0 \<and> w = 1" "lock_word s \<noteq> 0 \<Longrightarrow> r \<noteq> 0 \<and> w = lock_word s"
    using lock_cas_correct [of p ops "lock_word s" regs] by (auto simp: lock_sound_def)
  show ?case
  proof (cases "lock_word s = 0")
    case True
    with cas correct(1) show ?thesis by (fastforce simp: lock_inv_def)
  next
    case False
    with cas correct(2) show ?thesis by simp
  qed
next
  case (release tid s)
  then show ?case by (cases "lock_word s = 0") (auto simp: lock_inv_def)
qed (auto simp: lock_inv_def lock_sound_def split: if_splits)

interpretation lock_system: invariant_system "lock_step p ops b" "\<lambda>s. lock_sound p ops b \<and> lock_inv s" for p ops b
  by unfold_locales (auto intro: lock_step_inv)

lemma release_orders: "Store_store \<in> model_order p \<union> MEMBAR_release p"
  using write_sync_orders [of p] by (simp add: MF_write_sync_def)

lemma two_threads_inside:
  assumes "result_register ops \<noteq> EAX" "result_register ops \<noteq> one_register ops"
  shows "\<exists>s. (lock_step X86 ops b)\<^sup>*\<^sup>* lock_start s \<and> inside s = {tid1, tid2}"
proof -
  have enters: "\<exists>w. lock_step X86 ops b s (s\<lparr>lock_word := w, inside := insert tid (inside s)\<rparr>)"
    if "tid \<notin> inside s" for tid s
  proof -
    obtain r w where cas: "MEMBAR_LOCK_CAS X86 ops (\<lambda>_. 0) (lock_word s) = (r, w)" by fastforce
    then have "r = 0" using lock_cas_always_succeeds [OF assms, of "\<lambda>_. 0" "lock_word s"] by simp
    with lock_step.cas [OF that cas, of b] show ?thesis by auto
  qed
  obtain w1 where w1: "lock_step X86 ops b lock_start (lock_start\<lparr>lock_word := w1, inside := {tid1}\<rparr>)"
    using enters [of tid1 lock_start] by (auto simp: lock_start_def)
  let ?s = "lock_start\<lparr>lock_word := w1, inside := {tid1}\<rparr>"
  show ?thesis
  proof (cases "tid2 = tid1")
    case True
    with w1 show ?thesis by (intro exI [of _ ?s]) auto
  next
    case False
    then obtain w2 where "lock_step X86 ops b ?s (?s\<lparr>lock_word := w2, inside := insert tid2 (inside ?s)\<rparr>)"
      using enters [of tid2 ?s] by auto
    with w1 have "(lock_step X86 ops b)\<^sup>*\<^sup>* lock_start (?s\<lparr>lock_word := w2, inside := insert tid2 (inside ?s)\<rparr>)"
      by (meson converse_rtranclp_into_rtranclp rtranclp.rtrancl_refl)
    then show ?thesis by (intro exI conjI, assumption) auto
  qed
qed

text \<open>
  Property C10. The spin lock of \<^verbatim>\<open>membar.h\<close>. On every platform, and on x86 when the compiler keeps
  \<^verbatim>\<open>result\<close> of \<^verbatim>\<open>MEMBAR_LOCK_CAS\<close> in \<^verbatim>\<open>eax\<close>, it is a lock: for any number of threads that enter
  after a \<^verbatim>\<open>MEMBAR_lock_cas\<close> that returns 0 and leave by \<^verbatim>\<open>MEMBAR_lock_release\<close>, at most one is
  inside at any time, and whenever the macro would return 0, so whenever a thread can enter, no
  thread is inside and all stores made in earlier critical sections are visible. On x86 with
  \<^verbatim>\<open>result\<close> in any other register, which the constraint \<^verbatim>\<open>"=q"\<close> allows, it is none: the macro
  returns 0 whatever the lock word is, and any two threads can be inside together.
\<close>

theorem lock_excludes:
  assumes "result_register ops \<noteq> one_register ops"
    and "(lock_step p ops (model_order p \<union> MEMBAR_release p))\<^sup>*\<^sup>* lock_start s"
  shows "((p = X86 \<longrightarrow> result_register ops = EAX) \<longrightarrow>
      (tid1 \<in> inside s \<and> tid2 \<in> inside s \<longrightarrow> tid1 = tid2) \<and>
      (fst (MEMBAR_LOCK_CAS p ops regs (lock_word s)) = 0 \<longrightarrow> inside s = {} \<and> data_pending s = 0)) \<and>
     (p = X86 \<and> result_register ops \<noteq> EAX \<longrightarrow>
      fst (MEMBAR_LOCK_CAS p ops regs (lock_word s)) = 0 \<and>
      (\<exists>t. (lock_step p ops (model_order p \<union> MEMBAR_release p))\<^sup>*\<^sup>* lock_start t \<and> inside t = {tid1, tid2}))"
proof (intro conjI impI)
  assume eax: "p = X86 \<longrightarrow> result_register ops = EAX"
  have "lock_inv lock_start" by (simp add: lock_inv_def lock_start_def)
  with lock_system.run_keeps [OF assms(2)] release_orders [of p] eax assms(1) have inv: "lock_inv s"
    by (simp add: lock_sound_def)
  then show "tid1 \<in> inside s \<and> tid2 \<in> inside s \<Longrightarrow> tid1 = tid2"
    by (auto simp: lock_inv_def split: if_splits)
  assume "fst (MEMBAR_LOCK_CAS p ops regs (lock_word s)) = 0"
  with lock_cas_correct(2) [OF eax assms(1)] have "lock_word s = 0" by blast
  with inv show "inside s = {}" "data_pending s = 0" by (simp_all add: lock_inv_def)
qed (use assms(1) lock_cas_always_succeeds two_threads_inside in auto)

theorem lock_excludes_witness:
  "(let good = \<lparr>result_register = EAX, one_register = Other_register 0\<rparr>;
        bad = \<lparr>result_register = Other_register 1, one_register = EAX\<rparr>;
        s = \<lparr>lock_word = 1, inside = {1}, data_pending = 0, releases_pending = 0\<rparr>
    in fst (MEMBAR_LOCK_CAS X86 good (\<lambda>_. 7) (lock_word s)) = 1 \<and> 2 \<notin> inside s \<and>
       fst (MEMBAR_LOCK_CAS X86 bad (\<lambda>_. 7) (lock_word s)) = 0 \<and>
       (\<exists>t. (lock_step X86 bad (model_order X86 \<union> MEMBAR_release X86))\<^sup>*\<^sup>* lock_start t \<and> inside t = {1, 2}))"
proof -
  let ?s = "\<lparr>lock_word = 1, inside = {1}, data_pending = 0, releases_pending = 0\<rparr>"
  let ?b = "model_order X86 \<union> MEMBAR_release X86"
  let ?good = "\<lparr>result_register = EAX, one_register = Other_register 0\<rparr>"
  let ?bad = "\<lparr>result_register = Other_register 1, one_register = EAX\<rparr>"
  have "lock_step X86 ?good ?b lock_start ?s"
    using lock_step.cas [of 1 lock_start X86 ?good "\<lambda>_. 7" 0 1 ?b]
    by (simp add: lock_start_def MEMBAR_LOCK_CAS_def x86_LOCK_CAS_def lock_cmpxchgl_def)
  then have run: "(lock_step X86 ?good ?b)\<^sup>*\<^sup>* lock_start ?s" by (rule r_into_rtranclp)
  have "2 \<notin> inside ?s"
    using lock_excludes [of ?good X86 ?s 1 2] run by fastforce
  moreover have "\<exists>t. (lock_step X86 ?bad ?b)\<^sup>*\<^sup>* lock_start t \<and> inside t = {1, 2}"
    using lock_excludes [of ?bad X86 lock_start 1 2] by simp
  ultimately show ?thesis by (simp add: MEMBAR_LOCK_CAS_def x86_LOCK_CAS_def lock_cmpxchgl_def)
qed

end
