(* ===== verification/PipeStoreBuffer.thy ===== *)
theory PipeStoreBuffer
  imports PipeConcurrency MemoryFence
begin

text \<open>
  The pipe on a processor that delays and reorders the writer's stores. \<^verbatim>\<open>push\<close> issues
  its stores into a buffer; a store becomes visible to the reader at any later time, before or
  after its neighbours, unless a \<^verbatim>\<open>MF_write_sync\<close> between them forbids it. The writer sees its
  own stores at once, the reader sees the memory only and decodes from it what it consumes. The theory
  puts \<^verbatim>\<open>LocklessPipe.hpp\<close> and \<^verbatim>\<open>MemoryFence.h\<close> together: with the fences where the code has
  them the delayed pipe is a run of \<open>pipe_step\<close>, in which stores take effect in program order, and the
  reader consumes what was pushed.
\<close>

subsection \<open>Pending stores\<close>

datatype pipe_store =
    St_next u64        \<comment> \<open>\<^verbatim>\<open>nextWriteVPtr_\<close>\<close>
  | St_byte nat u8     \<comment> \<open>a byte of \<^verbatim>\<open>buf_\<close>\<close>
  | St_written u64     \<comment> \<open>\<^verbatim>\<open>numWritten_\<close>\<close>
  | St_write u64       \<comment> \<open>\<^verbatim>\<open>writeVPtr_\<close>\<close>
  | Fence

fun do_store :: "pipe_store \<Rightarrow> lockless_pipe \<Rightarrow> lockless_pipe" where
  "do_store (St_next v) m = m\<lparr>nextWriteVPtr := v\<rparr>"
| "do_store (St_byte i b) m = m\<lparr>buf := (buf m)[i := b]\<rparr>"
| "do_store (St_written k) m = m\<lparr>numWritten := k\<rparr>"
| "do_store (St_write v) m = m\<lparr>writeVPtr := v\<rparr>"
| "do_store Fence m = m"

fun same_place :: "pipe_store \<Rightarrow> pipe_store \<Rightarrow> bool" where
  "same_place (St_next _) (St_next _) = True"
| "same_place (St_byte i _) (St_byte j _) = (i = j)"
| "same_place (St_written _) (St_written _) = True"
| "same_place (St_write _) (St_write _) = True"
| "same_place _ _ = False"

fun byte_stores :: "nat \<Rightarrow> bytes \<Rightarrow> pipe_store list" where
  "byte_stores i [] = []"
| "byte_stores i (y # ys) = St_byte i y # byte_stores (Suc i) ys"

record buffered_pipe =
  mem :: lockless_pipe
  pending :: "pipe_store list"
  wpc :: writer_pc
  issued :: "bytes list"
  consumed :: "bytes list"

definition view :: "buffered_pipe \<Rightarrow> lockless_pipe" where
  "view s = fold do_store (pending s) (mem s)"

text \<open>
  \<open>ws\<close> are the orderings kept between the accesses before and after a \<^verbatim>\<open>MF_write_sync\<close>. A store
  leaves the buffer when no older store to the same place is in it and no effective fence
  stands before it.
\<close>

inductive sb_step :: "pipe_params \<Rightarrow> ordering set \<Rightarrow> buffered_pipe \<Rightarrow> buffered_pipe \<Rightarrow> bool" for c ws where
  check: "wpc s = W_idle \<Longrightarrow> length x \<le> unat (MAX_PIPE_ELEMENT_SIZE c) \<Longrightarrow>
     isWriterRunning (view s) \<Longrightarrow> \<not> isFull c (view s) (word_of_nat (length x)) \<Longrightarrow>
     sb_step c ws s (s\<lparr>wpc := W_checked x\<rparr>)"
| reserve: "wpc s = W_checked x \<Longrightarrow>
     sb_step c ws s (s\<lparr>pending := pending s @ [St_next (next_vptr c (view s) x), Fence], wpc := W_reserved x\<rparr>)"
| length_word: "wpc s = W_reserved x \<Longrightarrow>
     startWrite_place c (writeVPtr (view s)) (word_of_nat (length x)) = (lp, dp, v) \<Longrightarrow>
     unat lp + 4 \<le> length (buf (view s)) \<Longrightarrow>
     sb_step c ws s (s\<lparr>pending := pending s @ byte_stores (unat lp) (u32_bytes (byte_order c) (word_of_nat (length x))),
       wpc := W_copying x 0\<rparr>)"
| data_byte: "wpc s = W_copying x i \<Longrightarrow> i < length x \<Longrightarrow>
     startWrite_place c (writeVPtr (view s)) (word_of_nat (length x)) = (lp, dp, v) \<Longrightarrow>
     unat dp + i < length (buf (view s)) \<Longrightarrow>
     sb_step c ws s (s\<lparr>pending := pending s @ [St_byte (unat dp + i) (x ! i)], wpc := W_copying x (Suc i)\<rparr>)"
| count: "wpc s = W_copying x (length x) \<Longrightarrow>
     sb_step c ws s (s\<lparr>pending := pending s @ [St_written (numWritten (view s) + 1), Fence], wpc := W_counted x\<rparr>)"
| publish: "wpc s = W_counted x \<Longrightarrow>
     sb_step c ws s (s\<lparr>pending := pending s @ [St_write (nextWriteVPtr (view s))], wpc := W_idle,
       issued := issued s @ [x]\<rparr>)"
| commit: "pending s = A @ e # B \<Longrightarrow> e \<noteq> Fence \<Longrightarrow> \<forall>a \<in> set A. \<not> same_place a e \<Longrightarrow>
     Store_store \<in> ws \<longrightarrow> Fence \<notin> set A \<Longrightarrow>
     sb_step c ws s (s\<lparr>mem := do_store e (mem s), pending := A @ B\<rparr>)"
| retire: "pending s = Fence # B \<Longrightarrow> sb_step c ws s (s\<lparr>pending := B\<rparr>)"
| consume: "\<not> isEmpty (mem s) \<Longrightarrow>
     sb_step c ws s (s\<lparr>mem := reader_advance c (mem s) (oldest c (mem s)),
       consumed := consumed s @ [oldest c (mem s)]\<rparr>)"
| stop_writer: "sb_step c ws s (s\<lparr>mem := stopWriter (mem s)\<rparr>)"
| start_writer: "sb_step c ws s (s\<lparr>mem := startWriter (mem s)\<rparr>)"

definition initial_buffered :: "lockless_pipe \<Rightarrow> buffered_pipe" where
  "initial_buffered raw = \<lparr>mem = LocklessPipe raw, pending = [], wpc = W_idle, issued = [], consumed = []\<rparr>"

text \<open>The state as the writer sees it: every pending store done.\<close>

definition ahead :: "buffered_pipe \<Rightarrow> shared_pipe" where
  "ahead s = \<lparr>pipe = view s, pc = wpc s, queue = drop (length (consumed s)) (issued s),
     pushed = issued s, popped = consumed s\<rparr>"

subsection \<open>Stores at different places commute\<close>

lemma do_store_commute: "\<not> same_place a e \<Longrightarrow> do_store a (do_store e m) = do_store e (do_store a m)"
  by (cases a; cases e) (simp_all add: list_update_swap)

lemma commit_view:
  "\<forall>a \<in> set A. \<not> same_place a e \<Longrightarrow>
   fold do_store (A @ B) (do_store e m) = fold do_store (A @ e # B) m"
  by (induction A arbitrary: m) (simp_all add: do_store_commute [of _ e])

lemma do_store_fields [simp]:
  "readVPtr (do_store e m) = readVPtr m" "numRead (do_store e m) = numRead m"
  "isWriterRunning (do_store e m) = isWriterRunning m" "length (buf (do_store e m)) = length (buf m)"
  by (cases e; simp)+

lemma reader_advance_do_store:
  "do_store e (reader_advance c m x) = reader_advance c (do_store e m) x"
  by (cases e) (simp_all add: reader_advance_def Let_def split: prod.split)

lemma fold_reader_advance:
  "fold do_store B (reader_advance c m x) = reader_advance c (fold do_store B m) x"
  by (induction B arbitrary: m) (simp_all add: reader_advance_do_store)

lemma running_do_store: "do_store e (m\<lparr>isWriterRunning := r\<rparr>) = (do_store e m)\<lparr>isWriterRunning := r\<rparr>"
  by (cases e) simp_all

lemma fold_running:
  "fold do_store B (m\<lparr>isWriterRunning := r\<rparr>) = (fold do_store B m)\<lparr>isWriterRunning := r\<rparr>"
  by (induction B arbitrary: m) (simp_all add: running_do_store)

lemma blit_Cons: "i < length b \<Longrightarrow> i + length (y # ys) \<le> length b \<Longrightarrow> blit (Suc i) ys (b[i := y]) = blit i (y # ys) b"
  by (rule nth_equalityI) (auto simp: buffer_simps nth_Cons' nth_list_update)

lemma fold_byte_stores:
  "i + length ys \<le> length (buf m) \<Longrightarrow> fold do_store (byte_stores i ys) m = m\<lparr>buf := blit i ys (buf m)\<rparr>"
proof (induction ys arbitrary: i m)
  case Nil
  then show ?case by (simp add: blit_def)
next
  case (Cons y ys)
  then show ?case using blit_Cons [of i "buf m" y ys] by simp
qed

lemma list_update_blit: "i < length b \<Longrightarrow> blit i [y] b = b[i := y]"
  by (rule nth_equalityI) (auto simp: buffer_simps nth_list_update)


subsection \<open>The bytes that hold live elements\<close>

definition live_bytes :: "pipe_params \<Rightarrow> lockless_pipe \<Rightarrow> nat set" where
  "live_bytes c m = region (psize c) (0, read_cursor m) (if write_cursor m < read_cursor m then 1 else 0, write_cursor m)"

lemma live_bytes_region:
  "v' = (if write_cursor m < read_cursor m then Suc v else v) \<Longrightarrow>
   region (psize c) (v, read_cursor m) (v', write_cursor m) = live_bytes c m"
  by (simp add: live_bytes_def region_def)

lemma live_bytes_frame [simp]:
  "live_bytes c (m\<lparr>nextWriteVPtr := n\<rparr>) = live_bytes c m" "live_bytes c (m\<lparr>buf := b\<rparr>) = live_bytes c m"
  "live_bytes c (m\<lparr>numWritten := k\<rparr>) = live_bytes c m" "live_bytes c (m\<lparr>isWriterRunning := r\<rparr>) = live_bytes c m"
  by (simp_all add: live_bytes_def cursor_defs)

lemma pipe_abs_update_dead:
  assumes "pipe_abs c m q" "i \<notin> live_bytes c m"
  shows "pipe_abs c (m\<lparr>buf := (buf m)[i := b]\<rparr>) q"
proof (cases "i < length (buf m)")
  case True
  from assms(1) obtain v v' where *: "length (buf m) = psize c" "read_cursor m \<le> psize c"
    "getVersion (readVPtr m) = word_of_nat v" "getVersion (writeVPtr m) = word_of_nat v'"
    "ring_cursors (v, read_cursor m) (v', write_cursor m)"
    "layout (byte_order c) (psize c) (buf m) (v, read_cursor m) q (v', write_cursor m)"
    "v' = (if write_cursor m < read_cursor m then Suc v else v)" by (rule pipe_absE)
  have "layout (byte_order c) (psize c) (blit i [b] (buf m)) (v, read_cursor m) q (v', write_cursor m)"
    by (rule layout_store [OF *(6,2,5,1)])
      (use True assms(2) in \<open>simp_all add: *(1) live_bytes_region [OF *(7)] Suc_leI\<close>)
  then have "ring_at c (m\<lparr>buf := (buf m)[i := b]\<rparr>) q v v'"
    using * by (simp add: ring_at_def cursor_defs list_update_blit [OF True])
  with assms(1) show ?thesis by (auto simp: pipe_abs_def cursor_defs)
qed (use assms(1) in \<open>simp add: list_update_beyond\<close>)

text \<open>The end of a sequence of elements depends on its start and the elements only.\<close>

lemma layout_end:
  assumes "layout e S b (v, p) q (v', w)" "layout e S b' (u, p) q (u', w')"
  shows "w' = w \<and> u' + v = v' + u"
  using assms
proof (induction q arbitrary: v u p)
  case Nil
  then show ?case by auto
next
  case (Cons x q)
  obtain lp dp v1 where s1: "slot S (v, p) (length x) = (lp, dp, v1)" by (metis prod_cases3)
  obtain lp2 dp2 u1 where s2: "slot S (u, p) (length x) = (lp2, dp2, u1)" by (metis prod_cases3)
  have "dp2 = dp \<and> u1 + v = v1 + u"
    using s1 s2 by (auto simp: slot_def split: if_splits)
  with Cons.IH [of v1 "dp + length x" u1] Cons.prems s1 s2 show ?case by auto
qed

text \<open>Publication adds live bytes, consumption takes some away.\<close>

lemma live_bytes_publish:
  assumes "pipe_abs c (m\<lparr>numWritten := k\<rparr>) q" "pipe_abs c (m\<lparr>writeVPtr := w, numWritten := k'\<rparr>) (q @ [x])"
  shows "live_bytes c m \<subseteq> live_bytes c (m\<lparr>writeVPtr := w\<rparr>)"
proof -
  let ?r = "read_cursor m" and ?m' = "m\<lparr>writeVPtr := w\<rparr>"
  let ?l = "layout (byte_order c) (psize c) (buf m)"
  have same: "read_cursor (m\<lparr>numWritten := k\<rparr>) = ?r" "write_cursor (m\<lparr>numWritten := k\<rparr>) = write_cursor m"
    "read_cursor (m\<lparr>writeVPtr := w, numWritten := k'\<rparr>) = ?r"
    "write_cursor (m\<lparr>writeVPtr := w, numWritten := k'\<rparr>) = write_cursor ?m'" "read_cursor ?m' = ?r"
    by (simp_all add: cursor_defs)
  from assms(1) obtain v v' where 1: "?r \<le> psize c" "write_cursor m \<le> psize c"
    "?l (v, ?r) q (v', write_cursor m)" "v' = (if write_cursor m < ?r then Suc v else v)"
    by (rule pipe_absE) (simp add: same)
  from assms(2) obtain u u' where 2: "write_cursor ?m' \<le> psize c"
    "?l (u, ?r) (q @ [x]) (u', write_cursor ?m')" "u' = (if write_cursor ?m' < ?r then Suc u else u)"
    by (rule pipe_absE) (simp add: same)
  from 2(2) obtain um wm where mid: "?l (u, ?r) q (um, wm)" "?l (um, wm) [x] (u', write_cursor ?m')"
    by (auto simp: layout_append)
  from layout_end [OF 1(3) mid(1)] have wm: "wm = write_cursor m" and um: "um + v = v' + u" by auto
  from layout_progress [OF mid(2)] 1(2) wm have "um \<le> u' \<and> (u' = um \<longrightarrow> write_cursor m + 4 \<le> write_cursor ?m')"
    by simp
  with um 1 2(1,3) show ?thesis
    by (auto simp: live_bytes_def region_def same split: if_splits)
qed

lemma live_bytes_consume:
  assumes abs: "pipe_abs c m (x # q)"
  shows "live_bytes c (reader_advance c m x) \<subseteq> live_bytes c m"
proof -
  from abs obtain v v' where ok: "pipe_size_ok c" and r: "read_cursor m \<le> psize c"
    and w: "write_cursor m \<le> psize c" and ver: "getVersion (readVPtr m) = word_of_nat v"
    and ring: "ring_cursors (v, read_cursor m) (v', write_cursor m)"
    and lay: "layout (byte_order c) (psize c) (buf m) (v, read_cursor m) (x # q) (v', write_cursor m)"
    and v': "v' = (if write_cursor m < read_cursor m then Suc v else v)" by (rule pipe_absE)
  obtain lp dp u where sl: "slot (psize c) (v, read_cursor m) (length x) = (lp, dp, u)"
    by (metis prod_cases3)
  note pop = layout_pop [OF lay r ring sl]
  have n: "unat (word_of_nat (length x) :: u32) = length x"
    "unat (word_of_nat (dp + length x) :: u32) = dp + length x"
    using pop(2) by (intro unat_word_of_nat_small [of _ c]; simp)+
  have place: "startWrite_place c (readVPtr m) (word_of_nat (length x)) =
      (word_of_nat lp, word_of_nat dp, word_of_nat u)"
    using startWrite_place_slot [OF ok, of "word_of_nat (length x)" "readVPtr m" v lp dp u]
      pop(6) r ver sl n(1) by (simp add: cursor_defs)
  have cur: "read_cursor (reader_advance c m x) = dp + length x"
    "write_cursor (reader_advance c m x) = write_cursor m"
    using n(2) by (simp_all add: reader_advance_def place cursor_defs)
  have u: "u = v \<and> read_cursor m \<le> dp + length x \<or> u = Suc v"
    using pop(6) by (cases rule: slot_cases [where v = v and p = "read_cursor m"]) (use sl in auto)
  have "v' = (if write_cursor m < dp + length x then Suc u else u)"
    by (rule ring_order(1) [OF pop(1-3)])
  with u v' r w show ?thesis
    by (auto simp: live_bytes_def cur region_def split: if_splits)
qed

subsection \<open>What holds at every stage of the buffer\<close>

text \<open>
  A pending buffer takes the memory from stage to stage, one element more being published at each
  store of \<^verbatim>\<open>writeVPtr_\<close>. At every stage the memory holds its elements, no pending store goes into
  their bytes, and \<^verbatim>\<open>numWritten_\<close> counts them, or them and the next one.
\<close>

fun store_indices :: "pipe_store list \<Rightarrow> nat set" where
  "store_indices [] = {}"
| "store_indices (St_byte i b # B) = insert i (store_indices B)"
| "store_indices (_ # B) = store_indices B"

definition counted :: "lockless_pipe \<Rightarrow> bytes list \<Rightarrow> lockless_pipe" where
  "counted m q = m\<lparr>numWritten := numRead m + word_of_nat (length q)\<rparr>"

definition stage_ok :: "pipe_params \<Rightarrow> lockless_pipe \<Rightarrow> bytes list \<Rightarrow> pipe_store list \<Rightarrow> bool" where
  "stage_ok c m q B \<longleftrightarrow> pipe_abs c (counted m q) q \<and> store_indices B \<inter> live_bytes c m = {} \<and>
     (numWritten m = numRead m + word_of_nat (length q) \<or>
      numWritten m = numRead m + word_of_nat (length q) + 1)"

fun stages :: "pipe_params \<Rightarrow> lockless_pipe \<Rightarrow> bytes list \<Rightarrow> pipe_store list \<Rightarrow> bytes list \<Rightarrow> bool" where
  "stages c m q [] xs \<longleftrightarrow> stage_ok c m q [] \<and> xs = []"
| "stages c m q (St_write v # B) xs \<longleftrightarrow> stage_ok c m q (St_write v # B) \<and>
     (case xs of [] \<Rightarrow> False | x # xs \<Rightarrow> numWritten m = numRead m + word_of_nat (length q) + 1 \<and>
        stages c (do_store (St_write v) m) (q @ [x]) B xs)"
| "stages c m q (e # B) xs \<longleftrightarrow> stage_ok c m q (e # B) \<and> stages c (do_store e m) q B xs"

text \<open>Between two fences the stores are all of the data (bytes and \<^verbatim>\<open>numWritten_\<close>) or all of the two
  pointers.\<close>

fun is_data :: "pipe_store \<Rightarrow> bool" where
  "is_data (St_byte i b) = True"
| "is_data (St_written k) = True"
| "is_data _ = False"

definition same_segment :: "pipe_store \<Rightarrow> pipe_store \<Rightarrow> bool" where
  "same_segment e f \<longleftrightarrow> e = Fence \<or> f = Fence \<or> is_data e = is_data f"

definition fenced :: "pipe_store list \<Rightarrow> bool" where
  "fenced B = successively same_segment B"

definition next_kind :: "writer_pc \<Rightarrow> pipe_store" where
  "next_kind w = (case w of W_reserved x \<Rightarrow> St_written 0 | W_copying x i \<Rightarrow> St_written 0 | _ \<Rightarrow> St_write 0)"

lemma fenced_Nil [simp]: "fenced []" "fenced [e]"
  by (simp_all add: fenced_def)

lemma fenced_Cons: "fenced (e # B) \<longleftrightarrow> (B = [] \<or> same_segment e (hd B)) \<and> fenced B"
  by (auto simp: fenced_def successively_Cons)

lemma fenced_append: "fenced (A @ B) \<longleftrightarrow> fenced A \<and> fenced B \<and>
    (A = [] \<or> B = [] \<or> same_segment (last A) (hd B))"
  by (auto simp: fenced_def successively_append_iff)

lemma same_segment_trans: "same_segment d e \<Longrightarrow> same_segment e f \<Longrightarrow> e \<noteq> Fence \<Longrightarrow> same_segment d f"
  by (auto simp: same_segment_def)

lemma fenced_remove: "fenced (A @ e # B) \<Longrightarrow> e \<noteq> Fence \<Longrightarrow> fenced (A @ B)"
  by (cases B) (auto simp: fenced_append fenced_Cons intro: same_segment_trans)

lemma fenced_same_kind:
  "fenced (A @ e # B) \<Longrightarrow> e \<noteq> Fence \<Longrightarrow> Fence \<notin> set A \<Longrightarrow> \<forall>a \<in> set A. is_data a = is_data e"
proof (induction A)
  case (Cons a A)
  from Cons have all: "\<forall>b \<in> set A. is_data b = is_data e" by (simp add: fenced_Cons)
  from Cons.prems have "same_segment a (hd (A @ [e]))" by (cases A) (simp_all add: fenced_Cons)
  with Cons.prems have "is_data a = is_data (hd (A @ [e]))" by (cases A) (auto simp: same_segment_def)
  with all show ?case by (cases A) simp_all
qed simp

lemma store_indices_append [simp]: "store_indices (A @ B) = store_indices A \<union> store_indices B"
  by (induction A rule: store_indices.induct) auto

lemma stages_stage_ok: "stages c m q B xs \<Longrightarrow> stage_ok c m q B"
  by (induction c m q B xs rule: stages.induct) auto

subsection \<open>A store that becomes visible keeps the stages\<close>

lemma counted_frame [simp]:
  "counted (m\<lparr>nextWriteVPtr := n\<rparr>) q = (counted m q)\<lparr>nextWriteVPtr := n\<rparr>"
  "counted (m\<lparr>buf := b\<rparr>) q = (counted m q)\<lparr>buf := b\<rparr>"
  "counted (m\<lparr>isWriterRunning := r\<rparr>) q = (counted m q)\<lparr>isWriterRunning := r\<rparr>"
  "counted (m\<lparr>numWritten := k\<rparr>) q = counted m q"
  "buf (counted m q) = buf m" "live_bytes c (counted m q) = live_bytes c m"
  by (simp_all add: counted_def)

lemma field_swaps:
  "m\<lparr>nextWriteVPtr := v, writeVPtr := w\<rparr> = m\<lparr>writeVPtr := w, nextWriteVPtr := v\<rparr>"
  "m\<lparr>numWritten := k, buf := b\<rparr> = m\<lparr>buf := b, numWritten := k\<rparr>"
  by simp_all

lemma stage_ok_next [simp]: "stage_ok c (m\<lparr>nextWriteVPtr := n\<rparr>) q B = stage_ok c m q B"
  by (simp add: stage_ok_def)

lemma stage_ok_mono: "stage_ok c m q B \<Longrightarrow> store_indices B' \<subseteq> store_indices B \<Longrightarrow> stage_ok c m q B'"
  by (auto simp: stage_ok_def)

lemma stage_ok_commit_byte:
  assumes "stage_ok c m q (A @ St_byte i b # B)"
  shows "stage_ok c (do_store (St_byte i b) m) q (A @ B)"
  using assms pipe_abs_update_dead [of c "counted m q" q i b] by (auto simp: stage_ok_def)

lemma stages_commit_byte:
  assumes "stages c m q (A @ St_byte i b # B) xs" "\<forall>a \<in> set A. is_data a \<and> \<not> same_place a (St_byte i b)"
  shows "stages c (do_store (St_byte i b) m) q (A @ B) xs"
  using assms
proof (induction A arbitrary: m)
  case (Cons a A)
  then have 1: "stage_ok c m q ((a # A) @ St_byte i b # B)" by (metis append_Cons stages_stage_ok)
  from Cons have "stages c (do_store a m) q (A @ St_byte i b # B) xs" by (cases a) auto
  with Cons have "stages c (do_store (St_byte i b) (do_store a m)) q (A @ B) xs" by simp
  then have "stages c (do_store a (do_store (St_byte i b) m)) q (A @ B) xs"
    using Cons.prems(2) do_store_commute [of a "St_byte i b" m] by simp
  with stage_ok_commit_byte [OF 1] Cons.prems(2) show ?case by (cases a) auto
qed simp

lemma stages_commit_written:
  assumes "stages c m q (A @ St_written k # B) xs" "\<forall>a \<in> set A. is_data a \<and> \<not> same_place a (St_written k)"
  shows "stages c (do_store (St_written k) m) q (A @ B) xs"
  using assms
proof (induction A arbitrary: m)
  case (Cons a A)
  then obtain i b where a: "a = St_byte i b" by (cases a) auto
  with Cons have 1: "stages c ((do_store a m)\<lparr>numWritten := k\<rparr>) q (A @ B) xs" by simp
  from stages_stage_ok [OF this] Cons.prems(1) a
  have "stage_ok c (m\<lparr>numWritten := k\<rparr>) q (a # A @ B)" by (auto simp: stage_ok_def)
  with 1 a show ?case by (simp add: field_swaps)
qed simp

lemma stages_commit_next:
  assumes "stages c m q (A @ St_next v # B) xs" "\<forall>a \<in> set A. \<exists>w. a = St_write w"
  shows "stages c (do_store (St_next v) m) q (A @ B) xs"
  using assms
proof (induction A arbitrary: m q xs)
  case (Cons a A)
  then obtain w where a: "a = St_write w" by auto
  with Cons.prems obtain x ys where xs: "xs = x # ys" by (cases xs) auto
  have "stages c ((m\<lparr>writeVPtr := w\<rparr>)\<lparr>nextWriteVPtr := v\<rparr>) (q @ [x]) (A @ B) ys"
    using Cons.IH [of "m\<lparr>writeVPtr := w\<rparr>" "q @ [x]" ys] Cons.prems a xs by simp
  with Cons.prems(1) a xs show ?case by (simp add: field_swaps stage_ok_mono [of c m q "St_write w # A @ St_next v # B"])
qed simp

lemma stages_commit_write:
  assumes "stages c m q (A @ St_write w # B) xs" "\<forall>a \<in> set A. \<exists>v. a = St_next v"
  shows "\<exists>x ys. xs = x # ys \<and> stages c (do_store (St_write w) m) (q @ [x]) (A @ B) ys"
  using assms
proof (induction A arbitrary: m)
  case Nil
  then show ?case by (cases xs) auto
next
  case (Cons a A)
  then obtain v where a: "a = St_next v" by auto
  with Cons obtain x ys where *: "xs = x # ys"
    "stages c (do_store (St_write w) (m\<lparr>nextWriteVPtr := v\<rparr>)) (q @ [x]) (A @ B) ys" by fastforce
  then have "stages c ((m\<lparr>writeVPtr := w\<rparr>)\<lparr>nextWriteVPtr := v\<rparr>) (q @ [x]) (A @ B) ys"
    by (simp add: field_swaps)
  with stages_stage_ok [OF this] a *(1) show ?case
    by (auto intro: stage_ok_mono)
qed

lemma stages_commit:
  assumes st: "stages c m q (A @ e # B) xs" and f: "fenced (A @ e # B)" and e: "e \<noteq> Fence"
    and A: "Fence \<notin> set A" "\<forall>a \<in> set A. \<not> same_place a e"
  shows "\<exists>ys zs. xs = ys @ zs \<and> stages c (do_store e m) (q @ ys) (A @ B) zs"
proof -
  have kind: "\<forall>a \<in> set A. is_data a = is_data e" by (rule fenced_same_kind [OF f e A(1)])
  show ?thesis
  proof (cases e)
    case (St_next v)
    then have "\<forall>a \<in> set A. \<exists>w. a = St_write w"
      using kind A by (metis is_data.simps(1,2,3) pipe_store.exhaust same_place.simps(1))
    with stages_commit_next st St_next show ?thesis by fastforce
  next
    case (St_write w)
    then have "\<forall>a \<in> set A. \<exists>v. a = St_next v"
      using kind A by (metis is_data.simps(1,2,4) pipe_store.exhaust same_place.simps(4))
    with stages_commit_write [of c m q A w B xs] st St_write obtain x ys
      where "xs = [x] @ ys" "stages c (do_store e m) (q @ [x]) (A @ B) ys" by auto
    then show ?thesis by blast
  next
    case (St_byte i b)
    with stages_commit_byte [of c m q A i b B xs] st kind A(2)
    have "stages c (do_store e m) (q @ []) (A @ B) xs" by simp
    then show ?thesis by (metis append_Nil)
  next
    case (St_written k)
    with stages_commit_written [of c m q A k B xs] st kind A(2)
    have "stages c (do_store e m) (q @ []) (A @ B) xs" by simp
    then show ?thesis by (metis append_Nil)
  qed (use e in simp)
qed

subsection \<open>Issuing stores and consuming keep the stages\<close>

lemma stages_last: "stages c m q B xs \<Longrightarrow> stage_ok c (fold do_store B m) (q @ xs) []"
  by (induction c m q B xs rule: stages.induct) (auto split: list.splits)

lemma stages_live: "stages c m q B xs \<Longrightarrow> live_bytes c m \<subseteq> live_bytes c (fold do_store B m)"
proof (induction c m q B xs rule: stages.induct)
  case (2 c m q v B xs)
  then obtain x ys where xs: "xs = x # ys" by (cases xs) auto
  with 2 have now: "stage_ok c m q (St_write v # B)" and
    after: "stages c (m\<lparr>writeVPtr := v\<rparr>) (q @ [x]) B ys" by simp_all
  have "live_bytes c m \<subseteq> live_bytes c (m\<lparr>writeVPtr := v\<rparr>)"
    by (rule live_bytes_publish [where q = q and x = x])
      (use now stages_stage_ok [OF after] in \<open>auto simp: stage_ok_def counted_def\<close>)
  also have "\<dots> \<subseteq> live_bytes c (fold do_store (St_write v # B) m)"
    using 2 xs after by simp
  finally show ?case .
qed auto

lemma stages_append_ok:
  assumes "stages c m q B xs" "store_indices D \<inter> live_bytes c (fold do_store B m) = {}"
  shows "stage_ok c m q (B @ D)"
  using stages_live [OF assms(1)] stages_stage_ok [OF assms(1)] assms(2) by (auto simp: stage_ok_def)

lemma stages_append:
  assumes "stages c m q B xs" "stages c (fold do_store B m) (q @ xs) D ys"
    and "store_indices D \<inter> live_bytes c (fold do_store B m) = {}"
  shows "stages c m q (B @ D) (xs @ ys)"
  using assms
proof (induction B arbitrary: m q xs)
  case (Cons e B)
  have ok: "stage_ok c m q (e # B @ D)" using stages_append_ok [OF Cons.prems(1,3)] by simp
  show ?case
  proof (cases e)
    case (St_write v)
    then obtain x zs where "xs = x # zs" using Cons.prems(1) by (cases xs) auto
    with ok Cons.prems Cons.IH [of "do_store e m" "q @ [x]" zs] St_write show ?thesis by simp
  qed (use ok Cons.prems Cons.IH [of "do_store e m" q xs] in simp_all)
qed simp

lemma stages_byte_stores:
  "stage_ok c m q (byte_stores i ys) \<Longrightarrow> stages c m q (byte_stores i ys) []"
proof (induction ys arbitrary: i m)
  case (Cons y ys)
  from stage_ok_commit_byte [of c m q "[]" i y] Cons show ?case by simp
qed simp

lemma byte_stores_indices: "store_indices (byte_stores i ys) = {i..<i + length ys}"
  by (induction ys arbitrary: i) auto

lemma numRead_reader_advance: "numRead (reader_advance c m x) = numRead m + 1"
  by (simp add: reader_advance_def Let_def split: prod.split)

lemma reader_advance_swaps:
  "(reader_advance c m x)\<lparr>nextWriteVPtr := v\<rparr> = reader_advance c (m\<lparr>nextWriteVPtr := v\<rparr>) x"
  "(reader_advance c m x)\<lparr>writeVPtr := v\<rparr> = reader_advance c (m\<lparr>writeVPtr := v\<rparr>) x"
  "(reader_advance c m x)\<lparr>buf := b\<rparr> = reader_advance c (m\<lparr>buf := b\<rparr>) x"
  by (simp_all add: reader_advance_def Let_def split: prod.split)

lemma stage_ok_consume:
  assumes "stage_ok c m (x # q) B"
  shows "stage_ok c (reader_advance c m x) q B"
proof -
  have eq: "reader_advance c (counted m (x # q)) x = counted (reader_advance c m x) q"
    by (simp add: counted_def reader_advance_def Let_def algebra_simps split: prod.split)
  have abs: "pipe_abs c (counted m (x # q)) (x # q)" using assms by (simp add: stage_ok_def)
  from pipe_abs_reader_advance(1) [OF this] live_bytes_consume [OF abs] assms show ?thesis
    by (auto simp: stage_ok_def eq numRead_reader_advance)
qed

lemma stages_consume: "stages c m (x # q) B xs \<Longrightarrow> stages c (reader_advance c m x) q B xs"
proof (induction c m "x # q" B xs arbitrary: q rule: stages.induct)
  case (2 c m v B xs)
  then obtain y ys where xs: "xs = y # ys" by (cases xs) auto
  with 2 stage_ok_consume [of c m x q] show ?case
    by (simp add: numRead_reader_advance reader_advance_swaps algebra_simps)
qed (simp_all add: stage_ok_consume reader_advance_swaps)

lemma stage_ok_running [simp]: "stage_ok c (m\<lparr>isWriterRunning := r\<rparr>) q B = stage_ok c m q B"
  by (simp add: stage_ok_def)

lemma stages_running [simp]: "stages c (m\<lparr>isWriterRunning := r\<rparr>) q B xs = stages c m q B xs"
proof (induction c m q B xs rule: stages.induct)
  case (2 c m q v B xs)
  then show ?case by (cases xs) (simp_all add: running_do_store del: do_store.simps)
qed (simp_all add: running_do_store del: do_store.simps)

subsection \<open>The delayed pipe refines the pipe with stores in program order\<close>

definition sb_inv :: "pipe_params \<Rightarrow> buffered_pipe \<Rightarrow> bool" where
  "sb_inv c s \<longleftrightarrow> fenced (pending s @ [next_kind (wpc s)]) \<and> shared_inv c (ahead s) \<and>
     (\<exists>q r. issued s = consumed s @ q @ r \<and> stages c (mem s) q (pending s) r)"

lemma sb_invE:
  assumes "sb_inv c s"
  obtains q r where "fenced (pending s @ [next_kind (wpc s)])" "shared_inv c (ahead s)"
    "issued s = consumed s @ q @ r" "stages c (mem s) q (pending s) r" "queue (ahead s) = q @ r"
  using assms by (auto simp: sb_inv_def ahead_def)

lemma sb_invI:
  "fenced (pending s @ [next_kind (wpc s)]) \<Longrightarrow> shared_inv c (ahead s) \<Longrightarrow>
   issued s = consumed s @ q @ r \<Longrightarrow> stages c (mem s) q (pending s) r \<Longrightarrow> sb_inv c s"
  by (auto simp: sb_inv_def)

lemma ahead_fields [simp]:
  "pipe (ahead s) = view s" "pc (ahead s) = wpc s" "pushed (ahead s) = issued s" "popped (ahead s) = consumed s"
  by (simp_all add: ahead_def)

lemma ahead_issue:
  "ahead (s\<lparr>pending := pending s @ D, wpc := w\<rparr>) = (ahead s)\<lparr>pipe := fold do_store D (view s), pc := w\<rparr>"
  by (simp add: ahead_def view_def)

lemma stage_reads:
  assumes "stage_ok c m q B"
  shows "isEmpty m \<longleftrightarrow> q = []" "q \<noteq> [] \<Longrightarrow> oldest c m = hd q"
proof -
  have abs: "pipe_abs c (counted m q) q" using assms by (simp add: stage_ok_def)
  from pipe_abs_isEmpty [OF this] show "isEmpty m \<longleftrightarrow> q = []" by (simp add: isEmpty_def counted_def)
  assume "q \<noteq> []"
  with abs oldest_pipe_abs [of c "counted m q" "hd q" "tl q"] show "oldest c m = hd q"
    by (simp add: oldest_def cursor_defs counted_def)
qed

lemma sb_step_refines:
  assumes "sb_step c ws s t" "sb_inv c s"
  shows "ahead t = ahead s \<or> pipe_step c (ahead s) (ahead t)"
  using assms
proof (induction rule: sb_step.induct)
  case (check s x)
  then show ?case using w_check [of "ahead s" x c] by (simp add: ahead_def view_def)
next
  case (reserve s x)
  then show ?case using w_reserve [of "ahead s" x c] by (simp add: ahead_issue)
next
  case (length_word s x lp dp v)
  then show ?case
    using w_length [of "ahead s" x c lp dp v] by (simp add: ahead_issue fold_byte_stores)
next
  case (data_byte s x i lp dp v)
  then show ?case
    using w_byte [of "ahead s" x i c lp dp v] by (simp add: ahead_issue list_update_blit Suc_leI)
next
  case (count s x)
  then show ?case using w_count [of "ahead s" x c] by (simp add: ahead_issue)
next
  case (publish s x)
  then have "issued s = consumed s @ queue (ahead s)" by (auto elim!: sb_invE)
  then have "drop (length (consumed s)) (issued s @ [x]) = queue (ahead s) @ [x]" by simp
  then show ?case using w_publish [of "ahead s" x c] publish.hyps by (simp add: ahead_def view_def)
next
  case (commit s A e B)
  then show ?case by (simp add: ahead_def view_def commit_view [of A e B, simplified])
next
  case (retire s B)
  then show ?case by (simp add: ahead_def view_def)
next
  case (consume s)
  from consume.prems obtain q r where q: "issued s = consumed s @ q @ r"
    "stages c (mem s) q (pending s) r" "queue (ahead s) = q @ r" by (rule sb_invE)
  from consume.hyps stage_reads [OF stages_stage_ok [OF q(2)]]
  have "q = oldest c (mem s) # tl q" by (cases q) auto
  with q r_pop [of "ahead s" "oldest c (mem s)" "tl q @ r" c] show ?case
    by (cases q) (auto simp: ahead_def view_def fold_reader_advance)
next
  case (stop_writer s)
  then show ?case using stop [of c "ahead s"] by (simp add: ahead_def view_def stopWriter_def fold_running)
next
  case (start_writer s)
  then show ?case using start [of c "ahead s"] by (simp add: ahead_def view_def startWriter_def fold_running)
qed

subsection \<open>Every step keeps the stages\<close>

lemma slot_dead:
  assumes abs: "pipe_abs c p q" and pend: "pending_ok c p x"
    and place: "startWrite_place c (writeVPtr p) (word_of_nat (length x)) = (lp, dp, v)"
  shows "({unat lp..<unat lp + 4} \<union> {unat dp..<unat dp + length x}) \<inter> live_bytes c p = {}"
proof -
  have room: "has_room (psize c) (read_cursor p) (write_cursor p) (length x)"
    using pend by (simp add: pending_ok_def)
  from abs pending_fits [OF abs pend] room obtain u u' u'' lp' dp' where ring: "ring_at c p q u u'"
    and pl: "startWrite_place c (writeVPtr p) (word_of_nat (length x)) =
      (word_of_nat lp', word_of_nat dp', word_of_nat u'')"
    and nats: "unat (word_of_nat lp' :: u32) = lp'" "unat (word_of_nat dp' :: u32) = dp'"
    and free: "({lp'..<lp' + 4} \<union> {dp'..<dp' + length x}) \<inter>
      region (psize c) (u, read_cursor p) (u', write_cursor p) = {}" by (rule pipe_slotE)
  have "u' = (if write_cursor p < read_cursor p then Suc u else u)"
    by (rule ring_order(1)) (use ring abs in \<open>auto simp: ring_at_def pipe_abs_def\<close>)
  from free [unfolded live_bytes_region [OF this]] place pl nats show ?thesis by auto
qed

lemma view_stage: "sb_inv c s \<Longrightarrow> stage_ok c (view s) (queue (ahead s)) []"
  using stages_last by (auto simp: view_def elim!: sb_invE)

lemma sb_inv_issue:
  assumes inv: "sb_inv c s" and t: "t = s\<lparr>pending := pending s @ D, wpc := w\<rparr>"
    and sh: "shared_inv c (ahead t)"
    and st: "stages c (view s) (queue (ahead s)) D []" "store_indices D \<inter> live_bytes c (view s) = {}"
    and f: "fenced (pending s @ D @ [next_kind w])"
  shows "sb_inv c t"
proof -
  from inv obtain q r where "issued s = consumed s @ q @ r" "stages c (mem s) q (pending s) r"
    "queue (ahead s) = q @ r" by (rule sb_invE)
  with stages_append [of c "mem s" q "pending s" r D "[]"] st sh f show ?thesis
    unfolding t sb_inv_def by (auto simp: view_def)
qed

lemma sb_step_shared: "sb_step c ws s t \<Longrightarrow> sb_inv c s \<Longrightarrow> shared_inv c (ahead t)"
  using sb_step_refines pipe_step_inv by (metis sb_inv_def)

lemma fenced_byte_stores:
  "fenced (B @ [e]) \<Longrightarrow> is_data e \<Longrightarrow> fenced (B @ byte_stores i ys @ [e])"
proof (induction ys arbitrary: B i)
  case (Cons y ys)
  from Cons.prems have "fenced ((B @ [St_byte i y]) @ [e])"
    by (auto simp: fenced_append fenced_Cons same_segment_def)
  from Cons.IH [OF this] Cons.prems show ?case by simp
qed simp

lemma sb_inv_reserve:
  assumes "sb_inv c s" "wpc s = W_checked x"
    and "t = s\<lparr>pending := pending s @ [St_next v, Fence], wpc := W_reserved x\<rparr>" "shared_inv c (ahead t)"
  shows "sb_inv c t"
  by (rule sb_inv_issue [OF assms(1,3,4)])
    (use view_stage [OF assms(1)] assms(1,2) in
      \<open>auto simp: sb_inv_def next_kind_def fenced_append fenced_Cons same_segment_def stage_ok_def\<close>)

lemma sb_inv_bytes:
  assumes inv: "sb_inv c s" and data: "is_data (next_kind (wpc s))" "next_kind w = next_kind (wpc s)"
    and t: "t = s\<lparr>pending := pending s @ byte_stores i ys, wpc := w\<rparr>" and sh: "shared_inv c (ahead t)"
    and dead: "{i..<i + length ys} \<inter> live_bytes c (view s) = {}"
  shows "sb_inv c t"
proof (rule sb_inv_issue [OF inv t sh])
  show "stages c (view s) (queue (ahead s)) (byte_stores i ys) []"
    by (rule stages_byte_stores) (use view_stage [OF inv] dead in \<open>simp add: stage_ok_def byte_stores_indices\<close>)
  show "store_indices (byte_stores i ys) \<inter> live_bytes c (view s) = {}" using dead by (simp add: byte_stores_indices)
  show "fenced (pending s @ byte_stores i ys @ [next_kind w])"
    using fenced_byte_stores inv data by (simp add: sb_inv_def)
qed

lemma sb_inv_count:
  assumes inv: "sb_inv c s" and pc: "wpc s = W_copying x (length x)"
    and t: "t = s\<lparr>pending := pending s @ [St_written (numWritten (view s) + 1), Fence], wpc := W_counted x\<rparr>"
    and sh: "shared_inv c (ahead t)"
  shows "sb_inv c t"
proof -
  have "pipe_abs c (view s) (queue (ahead s))"
    using inv pc by (auto simp: sb_inv_def shared_inv_def published_def)
  then have "numWritten (view s) = numRead (view s) + word_of_nat (length (queue (ahead s)))"
    by (simp add: pipe_abs_def algebra_simps)
  then show ?thesis
    by (intro sb_inv_issue [OF inv t sh])
      (use view_stage [OF inv] inv pc in \<open>auto simp: sb_inv_def next_kind_def fenced_append fenced_Cons same_segment_def stage_ok_def\<close>)
qed

lemma sb_inv_publish:
  assumes inv: "sb_inv c s" and pc: "wpc s = W_counted x"
    and t: "t = s\<lparr>pending := pending s @ [St_write w], wpc := W_idle, issued := issued s @ [x]\<rparr>"
    and sh: "shared_inv c (ahead t)"
  shows "sb_inv c t"
proof -
  let ?V = "view s" and ?Q = "queue (ahead s)"
  from inv obtain q r where q: "issued s = consumed s @ q @ r" "stages c (mem s) q (pending s) r" "?Q = q @ r"
    and f: "fenced (pending s @ [next_kind (wpc s)])" by (rule sb_invE)
  have "pipe_abs c (?V\<lparr>numWritten := numWritten ?V - 1\<rparr>) ?Q"
    using inv pc by (auto simp: sb_inv_def shared_inv_def published_def)
  then have cnt: "numWritten ?V = numRead ?V + word_of_nat (length ?Q) + 1"
    by (simp add: pipe_abs_def algebra_simps)
  have "queue (ahead t) = ?Q @ [x]" "view t = ?V\<lparr>writeVPtr := w\<rparr>" using q t by (simp_all add: ahead_def view_def)
  then have new: "pipe_abs c (?V\<lparr>writeVPtr := w\<rparr>) (?Q @ [x])"
    using sh t by (simp add: shared_inv_def published_def)
  moreover from cnt have "counted (?V\<lparr>writeVPtr := w\<rparr>) (?Q @ [x]) = ?V\<lparr>writeVPtr := w\<rparr>"
    by (simp add: counted_def algebra_simps)
  ultimately have "stages c ?V ?Q [St_write w] [x]"
    using view_stage [OF inv] cnt by (simp add: stage_ok_def algebra_simps)
  with stages_append [of c "mem s" q "pending s" r "[St_write w]" "[x]"] q
  have "stages c (mem s) q (pending s @ [St_write w]) (r @ [x])" by (simp add: view_def)
  with q sh f pc show ?thesis
    by (auto simp: sb_inv_def t next_kind_def fenced_append fenced_Cons same_segment_def)
qed

lemma sb_inv_commit:
  assumes inv: "sb_inv c s" and B: "pending s = A @ e # B"
    and e: "e \<noteq> Fence" "\<forall>a \<in> set A. \<not> same_place a e" "Fence \<notin> set A"
    and t: "t = s\<lparr>mem := do_store e (mem s), pending := A @ B\<rparr>" and sh: "shared_inv c (ahead t)"
  shows "sb_inv c t"
proof -
  from inv obtain q r where q: "issued s = consumed s @ q @ r" "stages c (mem s) q (A @ e # B) r"
    and f: "fenced (A @ e # (B @ [next_kind (wpc s)]))" by (rule sb_invE) (simp add: B)
  from f have "fenced (A @ e # B)" using fenced_append [of "A @ e # B" "[next_kind (wpc s)]"] by simp
  from stages_commit [OF q(2) this e(1,3,2)] obtain ys zs
    where "r = ys @ zs" "stages c (do_store e (mem s)) (q @ ys) (A @ B) zs" by blast
  with q(1) fenced_remove [OF f e(1)] sh show ?thesis
    by (intro sb_invI [of t c "q @ ys" zs]) (simp_all add: t)
qed

lemma sb_inv_consume:
  assumes inv: "sb_inv c s" and ne: "\<not> isEmpty (mem s)"
    and t: "t = s\<lparr>mem := reader_advance c (mem s) (oldest c (mem s)), consumed := consumed s @ [oldest c (mem s)]\<rparr>"
    and sh: "shared_inv c (ahead t)"
  shows "sb_inv c t"
proof -
  from inv obtain q r where q: "issued s = consumed s @ q @ r" "stages c (mem s) q (pending s) r"
    and f: "fenced (pending s @ [next_kind (wpc s)])" by (rule sb_invE)
  from ne stage_reads [OF stages_stage_ok [OF q(2)]] obtain y
    where y: "q = oldest c (mem s) # y" by (cases q) auto
  with q stages_consume [of c "mem s" "oldest c (mem s)" y] sh f show ?thesis
    by (intro sb_invI [of t c y r]) (simp_all add: t)
qed

lemma sb_step_inv:
  assumes step: "sb_step c ws s t" and inv: "sb_inv c s" and ws: "Store_store \<in> ws"
  shows "sb_inv c t"
  using step
proof (cases rule: sb_step.cases)
  case (length_word x lp dp v)
  then have "pipe_abs c (view s) (queue (ahead s))" "pending_ok c (view s) x"
    using inv by (auto simp: sb_inv_def shared_inv_def published_def pc_ok_def)
  from slot_dead [OF this length_word(3)] length_word(2) show ?thesis
    by (intro sb_inv_bytes [OF inv _ _ length_word(1) sb_step_shared [OF step inv]])
      (auto simp: next_kind_def)
next
  case (data_byte x i lp dp v)
  then have abs: "pipe_abs c (view s) (queue (ahead s))" "pending_ok c (view s) x"
    using inv by (auto simp: sb_inv_def shared_inv_def published_def pc_ok_def)
  have "unat dp + i \<in> {unat dp..<unat dp + length x}" using data_byte(3) by simp
  with slot_dead [OF abs data_byte(4)] have "unat dp + i \<notin> live_bytes c (view s)" by blast
  then show ?thesis
    by (intro sb_inv_bytes [OF inv, of "W_copying x (Suc i)" t "unat dp + i" "[x ! i]"] sb_step_shared [OF step inv])
      (use data_byte in \<open>auto simp: next_kind_def\<close>)
next
  case (retire B)
  then have "ahead t = ahead s" by (simp add: ahead_def view_def)
  with inv retire show ?thesis by (auto simp: sb_inv_def fenced_Cons stage_ok_def)
next
  case (reserve x)
  then show ?thesis using sb_inv_reserve [OF inv] sb_step_shared [OF step inv] by blast
next
  case (count x)
  then show ?thesis using sb_inv_count [OF inv] sb_step_shared [OF step inv] by blast
next
  case (publish x)
  then show ?thesis using sb_inv_publish [OF inv] sb_step_shared [OF step inv] by blast
next
  case (commit A e B)
  then show ?thesis using sb_inv_commit [OF inv] sb_step_shared [OF step inv] ws by blast
next
  case consume
  then show ?thesis using sb_inv_consume [OF inv] sb_step_shared [OF step inv] by blast
qed (use inv sb_step_shared [OF step inv] in
  \<open>auto simp: sb_inv_def next_kind_def stopWriter_def startWriter_def\<close>)

interpretation sb_system: functional_refinement "sb_step c ws" "\<lambda>s. Store_store \<in> ws \<and> sb_inv c s"
    "pipe_step c" ahead for c ws
  by unfold_locales (auto intro: sb_step_inv dest: sb_step_refines)

lemma ahead_initial: "ahead (initial_buffered raw) = initial_shared raw"
  by (simp add: ahead_def view_def initial_buffered_def initial_shared_def)

lemma initial_buffered_inv:
  assumes "pipe_size_ok c" "length (buf raw) = psize c"
  shows "sb_inv c (initial_buffered raw)"
proof (rule sb_invI)
  show "shared_inv c (ahead (initial_buffered raw))"
    using initial_shared_inv [OF assms] by (simp add: ahead_initial)
  have "counted (LocklessPipe raw) [] = LocklessPipe raw"
    by (simp add: counted_def LocklessPipe_def clear_def)
  with pipe_abs_new [OF assms] show "stages c (mem (initial_buffered raw)) [] (pending (initial_buffered raw)) []"
    by (simp add: initial_buffered_def stage_ok_def LocklessPipe_def clear_def)
qed (simp_all add: initial_buffered_def)

subsection \<open>Guarantees\<close>

text \<open>
  Property C3. On every platform of \<^verbatim>\<open>membar.h\<close> the pipe with delayed stores refines the pipe with stores
  in program order: whatever order the stores become visible in, the state that the writer sees, with
  the elements pushed and consumed so far, is reached by a run of \<open>pipe_step\<close> that pushes and
  consumes the same elements.
\<close>

theorem fenced_pipe_refines:
  assumes "pipe_size_ok c" "length (buf raw) = psize c"
    and "(sb_step c (model_order p \<union> MF_write_sync p))\<^sup>*\<^sup>* (initial_buffered raw) s"
  shows "(pipe_step c)\<^sup>*\<^sup>* (initial_shared raw) (ahead s)"
  using sb_system.run_refines [OF assms(3)] initial_buffered_inv [OF assms(1,2)] write_sync_orders
  by (simp add: ahead_initial)

definition demo_buffered :: buffered_pipe where
  "demo_buffered = initial_buffered (raw_storage (replicate 32 0))"

lemma demo_buffered_check: "sb_step small_pipe ws demo_buffered (demo_buffered\<lparr>wpc := W_checked [5]\<rparr>)"
proof (rule sb_step.check)
  show "\<not> isFull small_pipe (view demo_buffered) (word_of_nat (length [5 :: u8]))" by code_simp
  show "isWriterRunning (view demo_buffered)" by code_simp
qed (simp_all add: demo_buffered_def initial_buffered_def small_MAX)

theorem fenced_pipe_refines_witness:
  "(pipe_step small_pipe)\<^sup>*\<^sup>* (initial_shared (raw_storage (replicate 32 0)))
     (ahead (demo_buffered\<lparr>wpc := W_checked [5]\<rparr>))"
proof (rule fenced_pipe_refines [where p = Power_gnu])
  show "(sb_step small_pipe (model_order Power_gnu \<union> MF_write_sync Power_gnu))\<^sup>*\<^sup>*
      (initial_buffered (raw_storage (replicate 32 0))) (demo_buffered\<lparr>wpc := W_checked [5]\<rparr>)"
    unfolding demo_buffered_def [symmetric] by (rule r_into_rtranclp, rule demo_buffered_check)
qed (simp_all add: small_pipe_ok, simp add: raw_storage_def small_pipe_def)

text \<open>The stores of a push of the one-byte element 5 into a new pipe.\<close>

definition demo_stores :: "pipe_store list" where
  "demo_stores = [St_next 5, Fence] @ byte_stores 0 [0, 0, 0, 1] @ [St_byte 4 5, St_written 1, Fence]"

lemma demo_push_issued:
  "(sb_step small_pipe ws)\<^sup>*\<^sup>* demo_buffered
     (demo_buffered\<lparr>pending := demo_stores @ [St_write 5], wpc := W_idle, issued := [ [5] ]\<rparr>)"
proof -
  let ?D2 = "[St_next 5, Fence]" and ?D3 = "[St_next 5, Fence] @ byte_stores 0 [0, 0, 0, 1]"
  let ?D4 = "([St_next 5, Fence] @ byte_stores 0 [0, 0, 0, 1]) @ [St_byte 4 5]"
  let ?s1 = "demo_buffered\<lparr>wpc := W_checked [5]\<rparr>"
  let ?s2 = "demo_buffered\<lparr>pending := ?D2, wpc := W_reserved [5]\<rparr>"
  let ?s3 = "demo_buffered\<lparr>pending := ?D3, wpc := W_copying [5] 0\<rparr>"
  let ?s4 = "demo_buffered\<lparr>pending := ?D4, wpc := W_copying [5] 1\<rparr>"
  let ?s5 = "demo_buffered\<lparr>pending := demo_stores, wpc := W_counted [5]\<rparr>"
  have new: "pending demo_buffered = []" "wpc demo_buffered = W_idle" "issued demo_buffered = []"
    by (simp_all add: demo_buffered_def initial_buffered_def)
  have vals: "next_vptr small_pipe (view ?s1) [5] = 5" "numWritten (view ?s4) = 0"
    "u32_bytes (byte_order small_pipe) (word_of_nat (length [5 :: u8])) = [0, 0, 0, 1]"
    "nextWriteVPtr (view ?s5) = 5" by code_simp+
  have place: "startWrite_place small_pipe (writeVPtr (view ?s2)) (word_of_nat (length [5 :: u8])) = (0, 4, 0)"
    "startWrite_place small_pipe (writeVPtr (view ?s3)) (word_of_nat (length [5 :: u8])) = (0, 4, 0)"
    by code_simp+
  have lens: "unat (0 :: u32) + 4 \<le> length (buf (view ?s2))" "unat (4 :: u32) + 0 < length (buf (view ?s3))"
    by code_simp+
  have "sb_step small_pipe ws demo_buffered ?s1" by (rule demo_buffered_check)
  moreover have "sb_step small_pipe ws ?s1 ?s2"
    using sb_step.reserve [of ?s1 "[5]" small_pipe ws] vals(1) by (simp add: new)
  moreover have "sb_step small_pipe ws ?s2 ?s3"
    using sb_step.length_word [OF _ place(1) lens(1), of ws, unfolded vals(3)] by simp
  moreover have "sb_step small_pipe ws ?s3 ?s4"
    using sb_step.data_byte [OF _ _ place(2) lens(2), of ws] by simp
  moreover have "sb_step small_pipe ws ?s4 ?s5"
    using sb_step.count [of ?s4 "[5]" small_pipe ws] vals(2) by (simp add: demo_stores_def)
  moreover have "sb_step small_pipe ws ?s5 (demo_buffered\<lparr>pending := demo_stores @ [St_write 5], wpc := W_idle, issued := [ [5] ]\<rparr>)"
    using sb_step.publish [of ?s5 "[5]" small_pipe ws] vals(4) by (simp add: new)
  ultimately show ?thesis
    by (meson converse_rtranclp_into_rtranclp rtranclp.rtrancl_refl)
qed

text \<open>
  Property C5. On every platform the reader of the delayed pipe takes out what was pushed: the elements it has
  decoded from the memory are the first elements pushed, the pipe looks empty to it exactly when it has
  taken every element whose publication it can see, otherwise the memory holds the next element
  intact, and \<^verbatim>\<open>numWritten_\<close> never falls behind what it can see, as the comment in \<^verbatim>\<open>finishWrite\<close> asks for
  \<^verbatim>\<open>validate\<close>.
\<close>

theorem fenced_pipe_delivers:
  assumes "pipe_size_ok c" "length (buf raw) = psize c"
    and "(sb_step c (model_order p \<union> MF_write_sync p))\<^sup>*\<^sup>* (initial_buffered raw) s"
  shows "\<exists>q r. issued s = consumed s @ q @ r \<and> (isEmpty (mem s) \<longleftrightarrow> q = []) \<and>
    (q \<noteq> [] \<longrightarrow> oldest c (mem s) = hd q) \<and>
    (numWritten (mem s) - numRead (mem s) = word_of_nat (length q) \<or>
     numWritten (mem s) - numRead (mem s) = word_of_nat (length q) + 1)"
proof -
  from sb_system.run_keeps [OF assms(3)] initial_buffered_inv [OF assms(1,2)] write_sync_orders
  have "sb_inv c s" by blast
  then obtain q r where q: "issued s = consumed s @ q @ r" "stages c (mem s) q (pending s) r"
    by (rule sb_invE)
  from stages_stage_ok [OF q(2)] have st: "stage_ok c (mem s) q (pending s)" .
  then have "numWritten (mem s) - numRead (mem s) = word_of_nat (length q) \<or>
      numWritten (mem s) - numRead (mem s) = word_of_nat (length q) + 1"
    by (auto simp: stage_ok_def algebra_simps)
  with q stage_reads [OF st] show ?thesis by blast
qed

theorem fenced_pipe_delivers_witness:
  "\<exists>q r. [ [5] ] = q @ r \<and>
     (isEmpty (mem (demo_buffered\<lparr>pending := demo_stores @ [St_write 5], wpc := W_idle, issued := [ [5] ]\<rparr>)) \<longleftrightarrow> q = [])"
proof -
  let ?s = "demo_buffered\<lparr>pending := demo_stores @ [St_write 5], wpc := W_idle, issued := [ [5] ]\<rparr>"
  have new: "consumed ?s = []" "issued ?s = [ [5] ]" "length (buf (raw_storage (replicate 32 0))) = psize small_pipe"
    by (simp_all add: demo_buffered_def initial_buffered_def raw_storage_def small_pipe_def)
  have "(sb_step small_pipe (model_order X86 \<union> MF_write_sync X86))\<^sup>*\<^sup>* (initial_buffered (raw_storage (replicate 32 0))) ?s"
    using demo_push_issued by (simp only: demo_buffered_def)
  from fenced_pipe_delivers [OF small_pipe_ok new(3) this] show ?thesis
    unfolding new append_Nil by blast
qed

end
