(* ===== verification/PipeFairBuffer.thy ===== *)
theory PipeFairBuffer
  imports PipeFairness PipeStoreBuffer
begin

text \<open>
  Delivery on a processor that delays and reorders the stores of the writer: what \<open>PipeFairness\<close> shows for stores in program order,
  for the pipe of \<open>PipeStoreBuffer\<close>. A fair run is one in which the writer goes on inside a push, the oldest store of the
  buffer becomes visible at some time, and the reader takes out what it sees. With the fences of the code an element
  then passes through three stages, each with a rank of its own: it is stored, its stores become visible, it is consumed.
\<close>

subsection \<open>Visible elements\<close>

fun is_write :: "pipe_store \<Rightarrow> bool" where
  "is_write (St_write v) = True"
| "is_write _ = False"

definition writes :: "pipe_store list \<Rightarrow> nat" where
  "writes B = length (filter is_write B)"

lemma writes_simps [simp]:
  "writes [] = 0" "writes (e # B) = (if is_write e then Suc (writes B) else writes B)" "writes (A @ B) = writes A + writes B"
  by (simp_all add: writes_def)

lemma writes_byte_stores [simp]: "writes (byte_stores i ys) = 0"
  by (induction ys arbitrary: i) simp_all

text \<open>A published element is visible when its store of \<^verbatim>\<open>writeVPtr_\<close> has left the buffer.\<close>

definition visible :: "buffered_pipe \<Rightarrow> nat" where
  "visible s = length (issued s) - writes (pending s)"

lemma stages_writes: "stages c m q B xs \<Longrightarrow> length xs = writes B"
  by (induction c m q B xs rule: stages.induct) (auto split: list.splits)

lemma visible_queue:
  assumes "sb_inv c s"
  obtains q r where "issued s = consumed s @ q @ r" "stages c (mem s) q (pending s) r" "visible s = length (consumed s) + length q"
    "length r = writes (pending s)"
  using assms
proof (rule sb_invE)
  fix q r
  assume "issued s = consumed s @ q @ r" "stages c (mem s) q (pending s) r"
  with stages_writes [of c "mem s" q "pending s" r] show thesis
    by (intro that) (auto simp: visible_def)
qed

text \<open>How many entries of the buffer there are up to and including the \<open>j\<close>-th store of \<^verbatim>\<open>writeVPtr_\<close>.\<close>

fun up_to_write :: "nat \<Rightarrow> pipe_store list \<Rightarrow> nat" where
  "up_to_write 0 B = 0"
| "up_to_write (Suc j) [] = 0"
| "up_to_write (Suc j) (e # B) = Suc (up_to_write (if is_write e then j else Suc j) B)"

lemma up_to_write_append: "j \<le> writes B \<Longrightarrow> up_to_write j (B @ D) = up_to_write j B"
  by (induction j B rule: up_to_write.induct) (auto split: if_splits)

lemma up_to_write_skip:
  "writes A = 0 \<Longrightarrow> 0 < j \<Longrightarrow> up_to_write j (A @ B) = length A + up_to_write j B"
  by (induction A) (auto simp: gr0_conv_Suc split: if_splits)

lemma up_to_write_remove:
  "\<not> is_write e \<Longrightarrow> up_to_write j (A @ B) \<le> up_to_write j (A @ e # B)"
proof (induction A arbitrary: j)
  case Nil
  then show ?case by (cases j) simp_all
next
  case (Cons a A)
  then show ?case by (cases j) simp_all
qed

lemma up_to_write_remove_write:
  assumes "is_write e" "writes A = 0"
  shows "up_to_write (j - 1) (A @ B) \<le> up_to_write j (A @ e # B)"
proof (cases j)
  case (Suc i)
  then have "up_to_write j (A @ e # B) = Suc (length A + up_to_write i B)"
    using up_to_write_skip [OF assms(2), of j "e # B"] assms(1) by simp
  moreover have "up_to_write i (A @ B) \<le> length A + up_to_write i B"
    using up_to_write_skip [OF assms(2), of i B] by (cases i) simp_all
  ultimately show ?thesis using Suc by simp
qed simp

lemma same_place_write: "is_write e \<Longrightarrow> \<forall>a \<in> set A. \<not> same_place a e \<Longrightarrow> writes A = 0"
proof (induction A)
  case (Cons a A)
  then show ?case by (cases a; cases e) simp_all
qed simp

subsection \<open>The writer\<close>

definition sb_writer_moves :: "buffered_pipe \<Rightarrow> buffered_pipe \<Rightarrow> bool" where
  "sb_writer_moves s t \<longleftrightarrow> wpc s \<noteq> W_idle \<and> wpc t \<noteq> wpc s"

lemma sb_writer_copies:
  assumes inv: "sb_inv c s" and x: "wpc s = W_reserved x \<or> wpc s = W_copying x i \<and> i < length x"
  shows "\<exists>t. sb_step c ws s t \<and> wpc t \<noteq> wpc s"
proof -
  obtain lp dp v where pl: "startWrite_place c (writeVPtr (view s)) (word_of_nat (length x)) = (lp, dp, v)"
    by (metis prod_cases3)
  from inv have "shared_inv c (ahead s)" by (simp add: sb_inv_def)
  with x have "pipe_abs c (view s) (queue (ahead s))" "pending_ok c (view s) x" by (auto simp: shared_defs)
  note room = pending_place [OF this pl]
  from x show ?thesis
  proof
    assume r: "wpc s = W_reserved x"
    from length_word [OF r pl room(1)] r show ?thesis by fastforce
  next
    assume r: "wpc s = W_copying x i \<and> i < length x"
    then have "unat dp + i < length (buf (view s))" using room(2) by simp
    from data_byte [OF conjunct1 [OF r] conjunct2 [OF r] pl this] r show ?thesis by fastforce
  qed
qed

lemma sb_writer_enabled:
  assumes inv: "sb_inv c s" and "wpc s \<noteq> W_idle"
  shows "\<exists>t. sb_step c ws s t \<and> wpc t \<noteq> wpc s"
proof (cases "wpc s")
  case (W_checked x)
  with reserve [OF W_checked] show ?thesis by fastforce
next
  case (W_reserved x)
  with sb_writer_copies [OF inv] show ?thesis by blast
next
  case (W_copying x i)
  with inv have "i \<le> length x" by (simp add: sb_inv_def shared_defs stored_ok_def)
  then consider "i = length x" | "i < length x" by linarith
  then show ?thesis
  proof cases
    case 1
    with count [of s x] W_copying show ?thesis by fastforce
  next
    case 2
    with W_copying sb_writer_copies [OF inv] show ?thesis by blast
  qed
next
  case (W_counted x)
  with publish [OF W_counted] show ?thesis by fastforce
qed (use assms(2) in simp)

lemma sb_step_left:
  assumes "sb_step c ws s t" "sb_inv c s" "wpc s \<noteq> W_idle"
  shows "wpc t = wpc s \<or> Suc (writer_left (wpc t)) = writer_left (wpc s)"
  using sb_step_refines [OF assms(1,2)] pipe_step_left [of c "ahead s" "ahead t"] assms(3)
  by (auto simp: ahead_def)


definition sb_in_progress :: "pipe_params \<Rightarrow> ordering set \<Rightarrow> bytes list \<Rightarrow> bytes \<Rightarrow> buffered_pipe \<Rightarrow> bool" where
  "sb_in_progress c ws ps x s \<longleftrightarrow> (Store_store \<in> ws \<and> sb_inv c s) \<and>
     (pushing (wpc s) = Some x \<and> issued s = ps \<or> (\<exists>qs. issued s = ps @ x # qs))"

lemma sb_in_progress_step: "sb_step c ws s t \<Longrightarrow> sb_in_progress c ws ps x s \<Longrightarrow> sb_in_progress c ws ps x t"
proof -
  assume st: "sb_step c ws s t" and pr: "sb_in_progress c ws ps x s"
  then have "Store_store \<in> ws \<and> sb_inv c t" using sb_step_inv [OF st] by (auto simp: sb_in_progress_def)
  moreover from st pr have "pushing (wpc t) = Some x \<and> issued t = ps \<or> (\<exists>qs. issued t = ps @ x # qs)"
    by (induction rule: sb_step.induct) (auto simp: sb_in_progress_def)
  ultimately show ?thesis by (simp add: sb_in_progress_def)
qed

interpretation sb_push_ends: fair_progress "sb_step c ws" "sb_in_progress c ws ps x" sb_writer_moves "\<lambda>s. writer_left (wpc s)"
  for c ws ps x
proof unfold_locales
  fix s t
  show "sb_step c ws s t \<Longrightarrow> sb_in_progress c ws ps x s \<Longrightarrow> sb_in_progress c ws ps x t" by (rule sb_in_progress_step)
next
  fix s
  assume "sb_in_progress c ws ps x s" "0 < writer_left (wpc s)"
  moreover from this have "wpc s \<noteq> W_idle" by auto
  ultimately show "\<exists>t. sb_step c ws s t \<and> sb_writer_moves s t"
    using sb_writer_enabled [of c s ws] by (auto simp: sb_in_progress_def sb_writer_moves_def)
next
  fix s t
  assume "sb_step c ws s t" "sb_in_progress c ws ps x s" "sb_writer_moves s t"
  then show "writer_left (wpc t) < writer_left (wpc s)"
    using sb_step_left [of c ws s t] by (auto simp: sb_writer_moves_def sb_in_progress_def)
next
  fix s t
  assume "0 < writer_left (wpc s)" "\<not> sb_writer_moves s t"
  then show "writer_left (wpc t) \<le> writer_left (wpc s)" by (auto simp: sb_writer_moves_def)
qed

subsection \<open>The store buffer\<close>

text \<open>A step adds stores at the end of the buffer, one of them a store of \<^verbatim>\<open>writeVPtr_\<close> for each element
  it publishes, or takes one entry out.\<close>

lemma sb_buffer_step:
  assumes "sb_step c ws s t"
  obtains (added) D xs where "pending t = pending s @ D" "issued t = issued s @ xs" "length xs = writes D"
    | (removed) A e B where "pending s = A @ e # B" "pending t = A @ B" "issued t = issued s"
        "\<forall>a \<in> set A. \<not> same_place a e" "e = Fence \<longrightarrow> A = []"
  using assms
proof (cases rule: sb_step.cases)
  case (publish x)
  then show ?thesis by (intro added [of "[St_write (nextWriteVPtr (view s))]" "[x]"]) simp_all
next
  case (commit A e B)
  then show ?thesis by (intro removed [of A e B]) simp_all
next
  case (retire B)
  then show ?thesis by (intro removed [of "[]" Fence B]) simp_all
next
  case (reserve x)
  then show ?thesis by (intro added [of "[St_next (next_vptr c (view s) x), Fence]" "[]"]) simp_all
next
  case (length_word x lp dp v)
  then show ?thesis
    by (intro added [of "byte_stores (unat lp) (u32_bytes (byte_order c) (word_of_nat (length x)))" "[]"]) simp_all
next
  case (data_byte x i lp dp v)
  then show ?thesis by (intro added [of "[St_byte (unat dp + i) (x ! i)]" "[]"]) simp_all
next
  case (count x)
  then show ?thesis by (intro added [of "[St_written (numWritten (view s) + 1), Fence]" "[]"]) simp_all
qed (rule added [of "[]" "[]"], simp_all)+

definition drain_moves :: "buffered_pipe \<Rightarrow> buffered_pipe \<Rightarrow> bool" where
  "drain_moves s t \<longleftrightarrow> pending s \<noteq> [] \<and> pending t = tl (pending s)"

lemma drain_enabled: "pending s \<noteq> [] \<Longrightarrow> \<exists>t. sb_step c ws s t \<and> drain_moves s t \<and> wpc t = wpc s"
proof -
  assume "pending s \<noteq> []"
  then obtain e B where B: "pending s = e # B" by (cases "pending s") auto
  show ?thesis
  proof (cases "e = Fence")
    case True
    from retire [OF B [unfolded True]] B show ?thesis by (fastforce simp: drain_moves_def)
  next
    case False
    with commit [of s "[]" e B] B show ?thesis by (fastforce simp: drain_moves_def)
  qed
qed

lemma remove_head:
  assumes "A @ B = tl (A @ e # B)" "\<forall>a \<in> set A. \<not> same_place a e" "e = Fence \<longrightarrow> A = []"
  shows "A = []"
proof (rule ccontr)
  assume ne: "A \<noteq> []"
  then obtain a A' where A: "A = a # A'" by (cases A) auto
  with assms(1) have "(a # A') @ B = (A' @ [e]) @ B" by simp
  then have "A = A' @ [e]" using A by (simp only: append_same_eq)
  with assms(2) have "\<not> same_place e e" by simp
  with assms(3) ne show False by (cases e) simp_all
qed

definition has_issued :: "pipe_params \<Rightarrow> ordering set \<Rightarrow> nat \<Rightarrow> buffered_pipe \<Rightarrow> bool" where
  "has_issued c ws k s \<longleftrightarrow> (Store_store \<in> ws \<and> sb_inv c s) \<and> k \<le> length (issued s)"

definition to_drain :: "nat \<Rightarrow> buffered_pipe \<Rightarrow> nat" where
  "to_drain k s = up_to_write (k - visible s) (pending s)"

lemma visible_writes: "sb_inv c s \<Longrightarrow> visible s + writes (pending s) = length (issued s)"
  by (rule visible_queue [of c s]) simp_all

lemma to_drain_zero:
  assumes "has_issued c ws k s" "to_drain k s = 0"
  shows "k \<le> visible s"
proof (rule ccontr)
  assume "\<not> k \<le> visible s"
  then obtain j where j: "k - visible s = Suc j" using less_imp_Suc_add not_le by (metis Suc_diff_Suc)
  with assms(2) have "pending s = []" by (cases "pending s") (simp_all add: to_drain_def)
  with assms(1) j show False using visible_writes [of c s] by (simp add: has_issued_def)
qed

lemma to_drain_keep:
  assumes st: "sb_step c ws s t" and inv: "has_issued c ws k s"
  shows "to_drain k t \<le> to_drain k s"
  using st
proof (cases rule: sb_buffer_step)
  case (added D xs)
  then have "visible t = visible s" by (simp add: visible_def)
  moreover have "k - visible s \<le> writes (pending s)"
    using visible_writes [of c s] inv by (auto simp: has_issued_def)
  ultimately show ?thesis by (simp add: to_drain_def added up_to_write_append)
next
  case (removed A e B)
  have v: "visible s + writes (A @ e # B) = length (issued s)"
    using visible_writes [of c s] inv removed by (simp add: has_issued_def)
  show ?thesis
  proof (cases "is_write e")
    case True
    with v removed have "k - visible t = (k - visible s) - 1" by (simp add: visible_def)
    then show ?thesis
      using up_to_write_remove_write [OF True same_place_write [OF True removed(4)], of "k - visible s" B]
      by (simp add: to_drain_def removed)
  next
    case False
    with removed have "visible t = visible s" by (simp add: visible_def)
    then show ?thesis using up_to_write_remove [OF False] by (simp add: to_drain_def removed)
  qed
qed

lemma to_drain_lower:
  assumes st: "sb_step c ws s t" and inv: "has_issued c ws k s" and pos: "0 < to_drain k s" and mv: "drain_moves s t"
  shows "to_drain k t < to_drain k s"
  using st
proof (cases rule: sb_buffer_step)
  case (added D xs)
  with mv have "length (pending s @ D) = length (tl (pending s))" "pending s \<noteq> []" by (simp_all add: drain_moves_def)
  then show ?thesis by (cases "pending s") simp_all
next
  case (removed A e B)
  with mv have "A = []" by (intro remove_head [of A B e]) (simp_all add: drain_moves_def)
  with removed have B: "pending s = e # B" "pending t = B" by simp_all
  from pos obtain j where j: "k - visible s = Suc j" by (cases "k - visible s") (simp_all add: to_drain_def)
  have v: "visible s + writes (e # B) = length (issued s)"
    using visible_writes [of c s] inv B by (simp add: has_issued_def)
  have "visible t = (if is_write e then Suc (visible s) else visible s)"
    using v B removed(3) by (auto simp: visible_def)
  moreover from j have "k - Suc (visible s) = j" by simp
  ultimately show ?thesis using j B by (simp add: to_drain_def)
qed

lemma issued_grows: "sb_step c ws s t \<Longrightarrow> \<exists>xs. issued t = issued s @ xs"
  by (induction rule: sb_step.induct) auto

interpretation drain_happens: fair_progress "sb_step c ws" "has_issued c ws k" drain_moves "to_drain k" for c ws k
proof unfold_locales
  fix s t
  assume "sb_step c ws s t" "has_issued c ws k s"
  then show "has_issued c ws k t"
    using sb_step_inv [of c ws s t] issued_grows [of c ws s t] by (auto simp: has_issued_def)
next
  fix s
  assume "has_issued c ws k s" "0 < to_drain k s"
  then have "pending s \<noteq> []" by (cases "k - visible s") (auto simp: to_drain_def)
  then show "\<exists>t. sb_step c ws s t \<and> drain_moves s t" using drain_enabled by blast
qed (rule to_drain_lower to_drain_keep, assumption+)+


subsection \<open>The reader\<close>

definition sb_reader_moves :: "buffered_pipe \<Rightarrow> buffered_pipe \<Rightarrow> bool" where
  "sb_reader_moves s t \<longleftrightarrow> consumed t \<noteq> consumed s"

definition sees :: "pipe_params \<Rightarrow> ordering set \<Rightarrow> nat \<Rightarrow> buffered_pipe \<Rightarrow> bool" where
  "sees c ws k s \<longleftrightarrow> (Store_store \<in> ws \<and> sb_inv c s) \<and> k \<le> visible s"

lemma visible_grows:
  assumes "sb_step c ws s t" "sb_inv c s"
  shows "visible s \<le> visible t"
  using assms(1)
proof (cases rule: sb_buffer_step)
  case (removed A e B)
  then have "writes (pending t) \<le> writes (pending s)" by simp
  with removed(3) show ?thesis by (simp add: visible_def)
qed (simp add: visible_def)

lemma consumed_step:
  "sb_step c ws s t \<Longrightarrow> consumed t = consumed s \<or> length (consumed t) = Suc (length (consumed s)) \<and> \<not> isEmpty (mem s)"
  by (induction rule: sb_step.induct) auto

lemma reader_enabled: "\<not> isEmpty (mem s) \<Longrightarrow> \<exists>t. sb_step c ws s t \<and> sb_reader_moves s t"
  using consume [of s c ws] by (fastforce simp: sb_reader_moves_def)

interpretation consume_happens: fair_progress "sb_step c ws" "sees c ws k" sb_reader_moves "\<lambda>s. k - length (consumed s)" for c ws k
proof unfold_locales
  fix s t
  assume st: "sb_step c ws s t" "sees c ws k s"
  with sb_step_inv [OF st(1)] visible_grows [OF st(1)] show "sees c ws k t" by (fastforce simp: sees_def)
next
  fix s
  assume s: "sees c ws k s" "0 < k - length (consumed s)"
  then have "sb_inv c s" by (simp add: sees_def)
  then obtain q r where q: "stages c (mem s) q (pending s) r" "visible s = length (consumed s) + length q"
    by (rule visible_queue)
  with s have "q \<noteq> []" by (auto simp: sees_def)
  with stage_reads [OF stages_stage_ok [OF q(1)]] have "\<not> isEmpty (mem s)" by simp
  then show "\<exists>t. sb_step c ws s t \<and> sb_reader_moves s t" by (rule reader_enabled)
next
  fix s t
  assume "sb_step c ws s t" "0 < k - length (consumed s)" "sb_reader_moves s t"
  then show "k - length (consumed t) < k - length (consumed s)"
    using consumed_step [of c ws s t] by (auto simp: sb_reader_moves_def)
next
  fix s t
  assume "\<not> sb_reader_moves s t"
  then show "k - length (consumed t) \<le> k - length (consumed s)" by (simp add: sb_reader_moves_def)
qed

subsection \<open>Fair runs\<close>

definition fair_buffered_run :: "pipe_params \<Rightarrow> ordering set \<Rightarrow> (nat \<Rightarrow> buffered_pipe) \<Rightarrow> bool" where
  "fair_buffered_run c ws \<sigma> \<longleftrightarrow> infinite_run (sb_step c ws) \<sigma> \<and> weakly_fair (sb_step c ws) sb_writer_moves \<sigma> \<and>
     weakly_fair (sb_step c ws) drain_moves \<sigma> \<and> weakly_fair (sb_step c ws) sb_reader_moves \<sigma>"

lemma fair_buffered_runD:
  assumes "fair_buffered_run c ws \<sigma>"
  shows "infinite_run (sb_step c ws) \<sigma>" "weakly_fair (sb_step c ws) sb_writer_moves \<sigma>"
    "weakly_fair (sb_step c ws) drain_moves \<sigma>" "weakly_fair (sb_step c ws) sb_reader_moves \<sigma>"
  using assms by (simp_all add: fair_buffered_run_def)

text \<open>The three stages of an element, one after the other.\<close>

lemma buffered_push_arrives:
  assumes run: "fair_buffered_run c ws \<sigma>" and ws: "Store_store \<in> ws" and inv: "sb_inv c (\<sigma> n)"
    and x: "pushing (wpc (\<sigma> n)) = Some x"
  shows "\<exists>m\<ge>n. \<exists>later. consumed (\<sigma> m) = issued (\<sigma> n) @ x # later"
proof -
  note run = fair_buffered_runD [OF run]
  let ?k = "Suc (length (issued (\<sigma> n)))"
  have pr: "sb_in_progress c ws (issued (\<sigma> n)) x (\<sigma> n)" using inv ws x by (simp add: sb_in_progress_def)
  from sb_push_ends.reaches_zero [of c ws \<sigma>, OF run(1,2) pr] obtain i where i: "n \<le> i" "writer_left (wpc (\<sigma> i)) = 0" by auto
  then have "pushing (wpc (\<sigma> i)) = None" by (cases "wpc (\<sigma> i)") auto
  with sb_push_ends.inv_on_run [OF run(1) pr i(1)] have iss: "has_issued c ws ?k (\<sigma> i)"
    by (auto simp: sb_in_progress_def has_issued_def)
  from drain_happens.reaches_zero [of c ws \<sigma>, OF run(1,3) iss] obtain j where j: "i \<le> j" "to_drain ?k (\<sigma> j) = 0" by auto
  with to_drain_zero [OF drain_happens.inv_on_run [OF run(1) iss j(1)]] drain_happens.inv_on_run [OF run(1) iss j(1)]
  have se: "sees c ws ?k (\<sigma> j)" by (simp add: sees_def has_issued_def)
  from consume_happens.reaches_zero [of c ws \<sigma>, OF run(1,4) se] obtain m where
    m: "j \<le> m" "?k - length (consumed (\<sigma> m)) = 0" by auto
  have m': "n \<le> m" using i(1) j(1) m(1) by simp
  from sb_push_ends.inv_on_run [OF run(1) pr m'] have pm: "sb_in_progress c ws (issued (\<sigma> n)) x (\<sigma> m)" .
  then have "sb_inv c (\<sigma> m)" by (simp add: sb_in_progress_def)
  then obtain q where q: "issued (\<sigma> m) = consumed (\<sigma> m) @ q" by (rule visible_queue) blast
  with m(2) have "length (issued (\<sigma> n)) < length (issued (\<sigma> m))" by simp
  then have "issued (\<sigma> m) \<noteq> issued (\<sigma> n)" by auto
  with pm obtain qs where "issued (\<sigma> m) = (issued (\<sigma> n) @ [x]) @ qs"
    by (auto simp: sb_in_progress_def)
  with q have "consumed (\<sigma> m) @ q = (issued (\<sigma> n) @ [x]) @ qs" by simp
  from append_prefix [OF this] m(2) m' show ?thesis by auto
qed

text \<open>Fair runs exist from every state: empty the buffer, then let the writer go on, then the reader.\<close>

definition scheduled :: "pipe_params \<Rightarrow> ordering set \<Rightarrow> buffered_pipe \<Rightarrow> buffered_pipe \<Rightarrow> bool" where
  "scheduled c ws s t \<longleftrightarrow> sb_step c ws s t \<and>
     (if pending s \<noteq> [] then drain_moves s t \<and> wpc t = wpc s
      else if wpc s \<noteq> W_idle then wpc t \<noteq> wpc s
      else isEmpty (mem s) \<or> sb_reader_moves s t)"

lemma scheduled_exists: "sb_inv c s \<Longrightarrow> \<exists>t. scheduled c ws s t"
  using drain_enabled [of s c ws] sb_writer_enabled [of c s ws] reader_enabled [of s c ws] start_writer [of c ws s]
  unfolding scheduled_def by (cases "pending s = []"; cases "wpc s = W_idle"; cases "isEmpty (mem s)") auto

lemma scheduled_drains:
  assumes "\<And>n. scheduled c ws (\<sigma> n) (\<sigma> (Suc n))"
  shows "\<exists>m\<ge>n. pending (\<sigma> m) = [] \<and> wpc (\<sigma> m) = wpc (\<sigma> n)"
proof (induction "length (pending (\<sigma> n))" arbitrary: n)
  case (Suc k)
  then have "pending (\<sigma> n) \<noteq> []" by auto
  with assms [of n] have "pending (\<sigma> (Suc n)) = tl (pending (\<sigma> n))" "wpc (\<sigma> (Suc n)) = wpc (\<sigma> n)"
    by (simp_all add: scheduled_def drain_moves_def)
  with Suc(1) [of "Suc n"] Suc(2) show ?case by (metis Suc_leD length_tl diff_Suc_1)
qed auto

lemma scheduled_idles:
  assumes "\<And>n. scheduled c ws (\<sigma> n) (\<sigma> (Suc n))" "\<And>n. sb_inv c (\<sigma> n)"
  shows "\<exists>m\<ge>n. pending (\<sigma> m) = [] \<and> wpc (\<sigma> m) = W_idle"
proof (induction "writer_left (wpc (\<sigma> n))" arbitrary: n rule: less_induct)
  case less
  from scheduled_drains [of c ws \<sigma>, OF assms(1)] obtain m where m: "n \<le> m" "pending (\<sigma> m) = []" "wpc (\<sigma> m) = wpc (\<sigma> n)" by blast
  show ?case
  proof (cases "wpc (\<sigma> m) = W_idle")
    case False
    with assms(1) [of m] m have "sb_step c ws (\<sigma> m) (\<sigma> (Suc m))" "wpc (\<sigma> (Suc m)) \<noteq> wpc (\<sigma> m)" by (simp_all add: scheduled_def)
    with sb_step_left [OF _ assms(2) False] have "writer_left (wpc (\<sigma> (Suc m))) < writer_left (wpc (\<sigma> n))"
      using m(3) by (metis lessI)
    from less [OF this] m(1) show ?thesis by (meson Suc_leD le_trans)
  qed (use m in blast)
qed

lemma fair_buffered_run_exists:
  assumes "sb_inv c s" "Store_store \<in> ws"
  shows "\<exists>\<sigma>. \<sigma> 0 = s \<and> fair_buffered_run c ws \<sigma>"
proof -
  have "\<exists>\<sigma>. \<forall>n. (sb_inv c (\<sigma> n) \<and> (n = 0 \<longrightarrow> \<sigma> n = s)) \<and> scheduled c ws (\<sigma> n) (\<sigma> (Suc n))"
  proof (rule dependent_nat_choice [where P = "\<lambda>n t. sb_inv c t \<and> (n = 0 \<longrightarrow> t = s)" and Q = "\<lambda>n. scheduled c ws"])
    fix t and n :: nat
    assume t: "sb_inv c t \<and> (n = 0 \<longrightarrow> t = s)"
    with scheduled_exists [of c t ws] obtain t' where "scheduled c ws t t'" by blast
    with sb_step_inv [of c ws t t'] assms(2) t show "\<exists>t'. (sb_inv c t' \<and> (Suc n = 0 \<longrightarrow> t' = s)) \<and> scheduled c ws t t'"
      by (auto simp: scheduled_def)
  qed (use assms(1) in blast)
  then obtain \<sigma> where s: "\<sigma> 0 = s" and inv: "\<And>n. sb_inv c (\<sigma> n)" and sch: "\<And>n. scheduled c ws (\<sigma> n) (\<sigma> (Suc n))" by blast
  have "weakly_fair (sb_step c ws) drain_moves \<sigma>"
    unfolding weakly_fair_def using sch by (metis drain_moves_def order_refl scheduled_def)
  moreover have "weakly_fair (sb_step c ws) sb_writer_moves \<sigma>"
    unfolding weakly_fair_def using sch scheduled_drains [of c ws \<sigma>, OF sch] by (metis sb_writer_moves_def scheduled_def)
  moreover have "weakly_fair (sb_step c ws) sb_reader_moves \<sigma>"
    unfolding weakly_fair_def using sch scheduled_idles [of c ws \<sigma>, OF sch inv] consumed_step by (metis sb_reader_moves_def scheduled_def)
  ultimately have "fair_buffered_run c ws \<sigma>"
    using sch by (simp add: fair_buffered_run_def infinite_run_def scheduled_def)
  with s show ?thesis by blast
qed

subsection \<open>Delivery\<close>

text \<open>
  Property C6. Delivery with delayed stores, on every platform of \<^verbatim>\<open>membar.h\<close> and from every reachable state: in a run in
  which the writer goes on inside a push, the oldest pending store becomes visible at some time and the reader takes
  out what it sees, every element whose push has passed its room check reaches the reader, intact and right after
  all that was pushed before it.
\<close>

theorem fenced_fair_delivery:
  assumes "pipe_size_ok c" "length (buf raw) = psize c"
    and "(sb_step c (model_order p \<union> MF_write_sync p))\<^sup>*\<^sup>* (initial_buffered raw) (\<sigma> 0)"
    and "fair_buffered_run c (model_order p \<union> MF_write_sync p) \<sigma>" "pushing (wpc (\<sigma> n)) = Some x"
  shows "\<exists>m\<ge>n. \<exists>later. consumed (\<sigma> m) = issued (\<sigma> n) @ x # later"
proof -
  have ws: "Store_store \<in> model_order p \<union> MF_write_sync p" using write_sync_orders by blast
  have "sb_inv c (\<sigma> 0)"
    using sb_system.run_keeps [OF assms(3)] initial_buffered_inv [OF assms(1,2)] ws by blast
  then have "sb_inv c (\<sigma> n)" for n
  proof (induction n)
    case (Suc n)
    from fair_buffered_runD(1) [OF assms(4)] have "sb_step c (model_order p \<union> MF_write_sync p) (\<sigma> n) (\<sigma> (Suc n))"
      by (simp add: infinite_run_def)
    from sb_step_inv [OF this _ ws] Suc show ?case by blast
  qed
  from buffered_push_arrives [OF assms(4) ws this assms(5)] show ?thesis .
qed

theorem fenced_fair_delivery_witness:
  "\<exists>\<sigma>. \<sigma> 0 = demo_buffered\<lparr>wpc := W_checked [5]\<rparr> \<and> fair_buffered_run small_pipe (model_order Power_gnu \<union> MF_write_sync Power_gnu) \<sigma> \<and>
     (\<exists>m later. consumed (\<sigma> m) = [5] # later)"
proof -
  let ?ws = "model_order Power_gnu \<union> MF_write_sync Power_gnu"
  have ws: "Store_store \<in> ?ws" using write_sync_orders by blast
  have len: "length (buf (raw_storage (replicate 32 0))) = psize small_pipe" by (simp add: raw_storage_def small_pipe_def)
  have reach: "(sb_step small_pipe ?ws)\<^sup>*\<^sup>* (initial_buffered (raw_storage (replicate 32 0))) (demo_buffered\<lparr>wpc := W_checked [5]\<rparr>)"
    unfolding demo_buffered_def [symmetric] by (rule r_into_rtranclp, rule demo_buffered_check)
  have "sb_inv small_pipe (demo_buffered\<lparr>wpc := W_checked [5]\<rparr>)"
    using sb_system.run_keeps [OF reach] initial_buffered_inv [OF small_pipe_ok len] ws by blast
  from fair_buffered_run_exists [OF this ws] obtain \<sigma> where
    s: "\<sigma> 0 = demo_buffered\<lparr>wpc := W_checked [5]\<rparr>" "fair_buffered_run small_pipe ?ws \<sigma>" by blast
  have "pushing (wpc (\<sigma> 0)) = Some [5]" using s(1) by simp
  from fenced_fair_delivery [OF small_pipe_ok len reach [folded s(1)] s(2) this]
  have "\<exists>m later. consumed (\<sigma> m) = issued (\<sigma> 0) @ [5] # later" by blast
  with s show ?thesis by (auto simp: demo_buffered_def initial_buffered_def)
qed

end
