(* ===== verification/PipeValidate.thy ===== *)
theory PipeValidate
  imports PipeFairness
begin

text \<open>
  \<^verbatim>\<open>validate\<close> while the pipe is in use. It copies \<^verbatim>\<open>numRead_\<close>, \<^verbatim>\<open>numWritten_\<close>, \<^verbatim>\<open>readVPtr_\<close> and \<^verbatim>\<open>writeVPtr_\<close>, one load
  after the other, and the other threads can run between two loads. The check of the counters is sound from every thread, because of the
  order of the loads and of the stores in \<^verbatim>\<open>finishWrite\<close>; the checks of the two pointers are sound only if one of
  the two stands still, as it does when the reader or the writer itself calls \<^verbatim>\<open>validate\<close>.
\<close>

subsection \<open>The loads\<close>

definition validate_loads :: "pipe_params \<Rightarrow> u64 \<Rightarrow> u64 \<Rightarrow> u64 \<Rightarrow> u64 \<Rightarrow> lockless_pipe \<Rightarrow> bool" where
  "validate_loads c nr nw rv wv p =
     (let valid = True;
          valid = (if nr > nw then False else valid);
          valid = (if getVersion wv - getVersion rv > 1 then False else valid);
          valid = (if getPointer wv > PIPE_SIZE c then False else valid);
          valid = (if getPointer rv > PIPE_SIZE c then False else valid);
          valid = (if getPointer wv = getPointer rv \<and> getVersion wv \<noteq> getVersion rv then False else valid);
          valid = (if stomp1 p \<noteq> STOMP \<or> stomp2 p \<noteq> STOMP \<or> stomp3 p \<noteq> STOMP \<or> stomp4 p \<noteq> STOMP
                   then False else valid)
      in valid)"

lemma validate_loads_same: "validate_loads c (numRead p) (numWritten p) (readVPtr p) (writeVPtr p) p = validate c p"
  by (simp add: validate_loads_def validate_def Let_def)

text \<open>The four loads in four states of a run; the stomps are constants.\<close>

definition validate_run :: "pipe_params \<Rightarrow> shared_pipe \<Rightarrow> shared_pipe \<Rightarrow> shared_pipe \<Rightarrow> shared_pipe \<Rightarrow> bool" where
  "validate_run c s1 s2 s3 s4 =
     validate_loads c (numRead (pipe s1)) (numWritten (pipe s2)) (readVPtr (pipe s3)) (writeVPtr (pipe s4)) (pipe s4)"

lemma validate_loads_conj:
  "validate_loads c nr nw rv wv p \<longleftrightarrow> nr \<le> nw \<and> getVersion wv - getVersion rv \<le> 1 \<and>
     getPointer wv \<le> PIPE_SIZE c \<and> getPointer rv \<le> PIPE_SIZE c \<and>
     (getPointer wv = getPointer rv \<longrightarrow> getVersion wv = getVersion rv) \<and> stomps_intact p"
  unfolding validate_loads_def Let_def stomps_intact_def by auto

subsection \<open>The counters\<close>

definition counters_inv :: "shared_pipe \<Rightarrow> bool" where
  "counters_inv s \<longleftrightarrow> numRead (pipe s) = word_of_nat (length (popped s)) \<and>
     numWritten (pipe s) = word_of_nat (length (pushed s) + (case pc s of W_counted x \<Rightarrow> 1 | _ \<Rightarrow> 0))"

lemma reader_advance_numRead [simp]: "numRead (reader_advance c p x) = numRead p + 1"
  by (simp add: reader_advance_def Let_def split: prod.split)

lemma counters_inv_step: "pipe_step c s t \<Longrightarrow> counters_inv s \<Longrightarrow> counters_inv t"
  by (induction rule: pipe_step.induct)
    (auto simp: counters_inv_def stopWriter_def startWriter_def split: writer_pc.splits)

interpretation counters_system: invariant_system "pipe_step c" counters_inv for c
  by unfold_locales (rule counters_inv_step)

lemma initial_counters_inv: "counters_inv (initial_shared raw)"
  by (simp add: counters_inv_def initial_shared_def LocklessPipe_def clear_def)

subsection \<open>What a run keeps\<close>

lemma run_grows:
  assumes "(pipe_step c)\<^sup>*\<^sup>* s t"
  shows "length (pushed s) \<le> length (pushed t)" "length (popped s) \<le> length (popped t)"
  using assms
proof (induction rule: rtranclp_induct)
  case (step t u)
  { case 1 then show ?case using step history_step(1) [OF step(2)] by simp }
  { case 2 then show ?case using step history_step(2) [OF step(2)] by auto }
qed simp_all

lemma pointers_step:
  assumes "pipe_step c s t"
  shows "length (popped t) = length (popped s) \<Longrightarrow> readVPtr (pipe t) = readVPtr (pipe s)"
    "length (pushed t) = length (pushed s) \<Longrightarrow> writeVPtr (pipe t) = writeVPtr (pipe s)"
  using assms by (induction rule: pipe_step.induct) (auto simp: stopWriter_def startWriter_def)

lemma pointers_run:
  assumes "(pipe_step c)\<^sup>*\<^sup>* s t"
  shows "length (popped t) = length (popped s) \<Longrightarrow> readVPtr (pipe t) = readVPtr (pipe s)"
    "length (pushed t) = length (pushed s) \<Longrightarrow> writeVPtr (pipe t) = writeVPtr (pipe s)"
  using assms
proof (induction rule: rtranclp_induct)
  case (step t u)
  note grow = run_grows [OF step(1)] run_grows [OF r_into_rtranclp [of "pipe_step c", OF step(2)]]
  { case 1 then show ?case using step(3) pointers_step(1) [OF step(2)] grow by simp }
  { case 2 then show ?case using step(4) pointers_step(2) [OF step(2)] grow by simp }
qed simp_all

text \<open>The checks of the pointers on one state.\<close>

lemma pointers_consistent:
  assumes "shared_inv c s"
  shows "getVersion (writeVPtr (pipe s)) - getVersion (readVPtr (pipe s)) \<le> 1 \<and>
     getPointer (writeVPtr (pipe s)) \<le> PIPE_SIZE c \<and> getPointer (readVPtr (pipe s)) \<le> PIPE_SIZE c \<and>
     (getPointer (writeVPtr (pipe s)) = getPointer (readVPtr (pipe s)) \<longrightarrow>
        getVersion (writeVPtr (pipe s)) = getVersion (readVPtr (pipe s)))"
proof -
  have same: "readVPtr (published s) = readVPtr (pipe s)" "writeVPtr (published s) = writeVPtr (pipe s)"
    by (simp_all add: published_def split: writer_pc.split)
  from assms have "pipe_abs c (published s) (queue s)" by (simp add: shared_inv_def)
  then obtain v v' where "read_cursor (published s) \<le> psize c" "write_cursor (published s) \<le> psize c"
    and ver: "getVersion (readVPtr (published s)) = word_of_nat v" "getVersion (writeVPtr (published s)) = word_of_nat v'"
    and v': "v' = (if write_cursor (published s) < read_cursor (published s) then Suc v else v)" by (rule pipe_absE)
  then show ?thesis by (auto simp: same cursor_defs word_le_nat_alt)
qed

lemma counters_ordered:
  assumes "(pipe_step c)\<^sup>*\<^sup>* s t" "counters_inv s" "counters_inv t" "shared_inv c s" "length (pushed t) + 1 < 2 ^ 64"
  shows "numRead (pipe s) \<le> numWritten (pipe t)"
proof -
  let ?w = "length (pushed t) + (case pc t of W_counted x \<Rightarrow> 1 | _ \<Rightarrow> 0)"
  have "length (popped s) \<le> length (pushed s)" using assms(4) by (simp add: shared_inv_def)
  with run_grows(1) [OF assms(1)] have "length (popped s) \<le> length (pushed t)" by simp
  moreover have "?w < 2 ^ 64" using assms(5) by (simp split: writer_pc.split)
  moreover have small: "n < 2 ^ 64 \<Longrightarrow> unat (word_of_nat n :: u64) = n" for n by (simp add: unat_of_nat)
  moreover have "numRead (pipe s) = word_of_nat (length (popped s))" "numWritten (pipe t) = word_of_nat ?w"
    using assms(2,3) by (simp_all only: counters_inv_def)
  ultimately show ?thesis by (simp only: word_le_nat_alt small)
qed


subsection \<open>A round of push and pop\<close>

definition round_trip :: "pipe_params \<Rightarrow> bytes \<Rightarrow> lockless_pipe \<Rightarrow> lockless_pipe" where
  "round_trip c x p = reader_advance c (write_element c p x) x"

lemma round_trip_run:
  assumes "shared_inv c s" "pc s = W_idle" "queue s = []" "isWriterRunning (pipe s)" "length x \<le> unat (MAX_PIPE_ELEMENT_SIZE c)"
  shows "\<exists>t. (pipe_step c)\<^sup>*\<^sup>* s t \<and> pipe t = round_trip c x (pipe s) \<and> pc t = W_idle \<and> queue t = []"
proof -
  let ?u = "s\<lparr>pipe := write_element c (pipe s) x, pc := W_idle, queue := queue s @ [x], pushed := pushed s @ [x]\<rparr>"
  have abs: "pipe_abs c (pipe s) (queue s)" using assms(1,2) by (simp add: shared_inv_def published_def)
  have "\<not> isFull c (pipe s) (word_of_nat (length x))"
    using pipe_fifo.room_empty [of c "pipe s" x] abs assms(3,5) by (simp add: admissible_def)
  from push_run [OF abs assms(2,4,5) this] have "(pipe_step c)\<^sup>*\<^sup>* s ?u" .
  moreover have "pipe_step c ?u (?u\<lparr>pipe := reader_advance c (pipe ?u) x, queue := [], popped := popped ?u @ [x]\<rparr>)"
    by (rule r_pop) (simp add: assms(3))
  ultimately show ?thesis
    by (intro exI [of _ "?u\<lparr>pipe := reader_advance c (pipe ?u) x, queue := [], popped := popped ?u @ [x]\<rparr>"])
      (simp add: round_trip_def rtranclp.rtrancl_into_rtrancl)
qed

lemma round_trip_running: "isWriterRunning (round_trip c x p) = isWriterRunning p"
  by (simp add: round_trip_def reader_advance_def write_element_def Let_def split: prod.split)

lemma round_trips_run:
  assumes "shared_inv c s" "pc s = W_idle" "queue s = []" "isWriterRunning (pipe s)" "length x \<le> unat (MAX_PIPE_ELEMENT_SIZE c)"
  shows "\<exists>t. (pipe_step c)\<^sup>*\<^sup>* s t \<and> pipe t = (round_trip c x ^^ n) (pipe s) \<and> pc t = W_idle \<and> queue t = [] \<and> shared_inv c t \<and>
    isWriterRunning (pipe t)"
proof (induction n)
  case 0
  with assms show ?case by auto
next
  case (Suc n)
  then obtain t where t: "(pipe_step c)\<^sup>*\<^sup>* s t" "pipe t = (round_trip c x ^^ n) (pipe s)" "pc t = W_idle" "queue t = []"
    "shared_inv c t" "isWriterRunning (pipe t)" by blast
  from round_trip_run [OF t(5,3,4,6) assms(5)] obtain u where
    u: "(pipe_step c)\<^sup>*\<^sup>* t u" "pipe u = round_trip c x (pipe t)" "pc u = W_idle" "queue u = []" by blast
  have "shared_inv c u" using pipe_system.run_keeps [OF u(1) t(5)] .
  with t u show ?case by (intro exI [of _ u]) (auto simp: round_trip_running intro: rtranclp_trans)
qed

text \<open>A read pointer loaded before five round trips of 11 bytes and a write pointer loaded after them are two versions apart.\<close>

definition vptr_after :: "pipe_params \<Rightarrow> bytes \<Rightarrow> u64 \<Rightarrow> u64" where
  "vptr_after c x w = (case startWrite_place c w (word_of_nat (length x)) of
     (lp, dp, v) \<Rightarrow> getVersionedPointer v (dp + word_of_nat (length x)))"

lemma round_trips_write: "writeVPtr ((round_trip c x ^^ n) p) = (vptr_after c x ^^ n) (writeVPtr p)"
  by (induction n) (simp_all add: round_trip_def write_element_def vptr_after_def Let_def split: prod.split)

lemma false_alarm:
  "\<exists>t. (pipe_step small_pipe)\<^sup>*\<^sup>* demo_start t \<and> queue t = [] \<and> \<not> validate_run small_pipe demo_start demo_start demo_start t"
proof -
  let ?x = "replicate 11 (7 :: u8)"
  have len: "length (buf (raw_storage (replicate 32 0))) = psize small_pipe" by (simp add: raw_storage_def small_pipe_def)
  have start: "pc demo_start = W_idle" "queue demo_start = []" "isWriterRunning (pipe demo_start)"
    "writeVPtr (pipe demo_start) = 0" "readVPtr (pipe demo_start) = 0"
    by (simp_all add: demo_start_def initial_shared_def LocklessPipe_def clear_def)
  have "length ?x \<le> unat (MAX_PIPE_ELEMENT_SIZE small_pipe)" by (simp add: small_MAX)
  from round_trips_run [of small_pipe demo_start ?x 5, OF initial_shared_inv [OF small_pipe_ok len, folded demo_start_def] start(1-3) this]
  obtain t where t: "(pipe_step small_pipe)\<^sup>*\<^sup>* demo_start t" "queue t = []" "pipe t = (round_trip small_pipe ?x ^^ 5) (pipe demo_start)"
    by blast
  have "getVersion ((vptr_after small_pipe ?x ^^ 5) 0) = 2" by code_simp
  with t(3) have "getVersion (writeVPtr (pipe t)) - getVersion (readVPtr (pipe demo_start)) = 2"
    by (simp only: round_trips_write start) (simp add: getVersion_def)
  moreover have "\<not> (2 :: u32) \<le> 1" by code_simp
  ultimately have "\<not> getVersion (writeVPtr (pipe t)) - getVersion (readVPtr (pipe demo_start)) \<le> 1" by simp
  with t show ?thesis by (auto simp only: validate_run_def validate_loads_conj)
qed

subsection \<open>When to trust validate\<close>

text \<open>
  Property C20. \<^verbatim>\<open>validate\<close> on a pipe in use, before \<open>2 ^ 64\<close> elements have been written. It accepts if no element is
  consumed or none is published between its loads of the two pointers, whatever else the threads do during the call: a call from the
  reader's or the writer's own thread raises no false alarm, also when the version numbers wrap around, and neither does a call on a
  pipe at rest. Called from a third thread it can refuse a pipe that is intact: there is a run in which five elements pass between
  the loads.
\<close>

theorem concurrent_validate:
  "(pipe_size_ok c \<and> length (buf raw) = psize c \<and> (pipe_step c)\<^sup>*\<^sup>* (initial_shared raw) s1 \<and> (pipe_step c)\<^sup>*\<^sup>* s1 s2 \<and>
      (pipe_step c)\<^sup>*\<^sup>* s2 s3 \<and> (pipe_step c)\<^sup>*\<^sup>* s3 s4 \<and> length (pushed s2) + 1 < 2 ^ 64 \<and>
      (popped s4 = popped s3 \<or> pushed s4 = pushed s3) \<longrightarrow> validate_run c s1 s2 s3 s4) \<and>
   (\<exists>t. (pipe_step small_pipe)\<^sup>*\<^sup>* demo_start t \<and> queue t = [] \<and> \<not> validate_run small_pipe demo_start demo_start demo_start t)"
proof (intro conjI impI false_alarm, elim conjE)
  assume ok: "pipe_size_ok c" "length (buf raw) = psize c" and r1: "(pipe_step c)\<^sup>*\<^sup>* (initial_shared raw) s1"
    and runs: "(pipe_step c)\<^sup>*\<^sup>* s1 s2" "(pipe_step c)\<^sup>*\<^sup>* s2 s3" "(pipe_step c)\<^sup>*\<^sup>* s3 s4"
    and small: "length (pushed s2) + 1 < 2 ^ 64" and still: "popped s4 = popped s3 \<or> pushed s4 = pushed s3"
  note keep = pipe_system.run_keeps [of c] counters_system.run_keeps [of c]
  have inv: "shared_inv c s1" "counters_inv s1"
    using keep(1) [OF r1 initial_shared_inv [OF ok]] keep(2) [OF r1 initial_counters_inv] by blast+
  then have inv2: "counters_inv s2" "shared_inv c s2" using keep runs(1) by blast+
  then have inv3: "shared_inv c s3" using keep(1) runs(2) by blast
  then have inv4: "shared_inv c s4" using keep(1) runs(3) by blast
  have "numRead (pipe s1) \<le> numWritten (pipe s2)" by (rule counters_ordered [OF runs(1) inv(2) inv2(1) inv(1) small])
  moreover have "readVPtr (pipe s3) = readVPtr (pipe s4) \<or> writeVPtr (pipe s4) = writeVPtr (pipe s3)"
    using still pointers_run [OF runs(3)] by auto
  moreover note pointers_consistent [OF inv3] pointers_consistent [OF inv4]
  moreover have "stomps_intact (pipe s4)" using inv4 by (simp add: shared_inv_def)
  ultimately show "validate_run c s1 s2 s3 s4" by (auto simp: validate_run_def validate_loads_conj)
qed

theorem concurrent_validate_witness:
  "validate_run small_pipe demo_start demo_start demo_start (demo_start\<lparr>pc := W_checked [5]\<rparr>)"
proof -
  have len: "length (buf (raw_storage (replicate 32 0))) = psize small_pipe" by (simp add: raw_storage_def small_pipe_def)
  have "(pipe_step small_pipe)\<^sup>*\<^sup>* demo_start (demo_start\<lparr>pc := W_checked [5]\<rparr>)"
    by (rule r_into_rtranclp, rule demo_checked)
  with concurrent_validate [of small_pipe "raw_storage (replicate 32 0)" demo_start demo_start demo_start "demo_start\<lparr>pc := W_checked [5]\<rparr>"]
    small_pipe_ok len show ?thesis by (simp add: demo_start_def initial_shared_def)
qed

end
