(* ===== verification/Decimal.thy ===== *)
theory Decimal
  imports Prelude
begin

text \<open>
  Unsigned and signed integers as text: what \<^verbatim>\<open>printf\<close> and the output streams of the sources write in
  base 10 and base 16, and what the conversions of \<^verbatim>\<open><stdlib.h>\<close> read. Reading a printed number gives it
  back, so a number in a text is determined by the text.
\<close>

subsection \<open>Definitions\<close>

definition digit_value :: "char \<Rightarrow> int option" where
  "digit_value c = (let n = of_char c :: nat in if 48 \<le> n \<and> n \<le> 57 then Some (int n - 48) else None)"

fun digits_value :: "int \<Rightarrow> string \<Rightarrow> int" where
  "digits_value acc [] = acc"
| "digits_value acc (c # cs) =
     (case digit_value c of None \<Rightarrow> acc | Some d \<Rightarrow> digits_value (acc * 10 + d) cs)"

definition digit_char :: "nat \<Rightarrow> char" where
  "digit_char d = char_of (48 + d)"

fun decimal :: "nat \<Rightarrow> string" where
  "decimal n = (if n < 10 then [digit_char n] else decimal (n div 10) @ [digit_char (n mod 10)])"

declare decimal.simps [simp del]

definition print_lld :: "int \<Rightarrow> string" where
  "print_lld v = (if v < 0 then CHR ''-'' # decimal (nat (- v)) else decimal (nat v))"

text \<open>Base 16 with lower-case letters, as \<^verbatim>\<open>std::hex\<close> selects.\<close>

definition hex_char :: "nat \<Rightarrow> char" where
  "hex_char d = char_of (if d < 10 then 48 + d else 87 + d)"

fun hexadecimal :: "nat \<Rightarrow> string" where
  "hexadecimal n = (if n < 16 then [hex_char n] else hexadecimal (n div 16) @ [hex_char (n mod 16)])"

declare hexadecimal.simps [simp del]

abbreviation TAB :: string where "TAB \<equiv> [CHR 0x09]"

abbreviation NL :: string where "NL \<equiv> [CHR 0x0A]"

text \<open>Field widths: right and left justified with blanks, as \<^verbatim>\<open>%32s\<close>, \<^verbatim>\<open>setw\<close> and \<^verbatim>\<open>%-32s\<close> do, and with zeros, as
  \<^verbatim>\<open>%016llX\<close> does, which has upper-case letters.\<close>

definition pad :: "nat \<Rightarrow> string \<Rightarrow> string" where
  "pad w s = replicate (w - length s) CHR '' '' @ s"

definition pad_right :: "nat \<Rightarrow> string \<Rightarrow> string" where
  "pad_right w s = s @ replicate (w - length s) CHR '' ''"

definition hex_upper_char :: "nat \<Rightarrow> char" where
  "hex_upper_char d = char_of (if d < 10 then 48 + d else 55 + d)"

fun hexadecimal_upper :: "nat \<Rightarrow> string" where
  "hexadecimal_upper n =
     (if n < 16 then [hex_upper_char n] else hexadecimal_upper (n div 16) @ [hex_upper_char (n mod 16)])"

declare hexadecimal_upper.simps [simp del]

definition zero_padded :: "nat \<Rightarrow> string \<Rightarrow> string" where
  "zero_padded w s = replicate (w - length s) CHR ''0'' @ s"

text \<open>\<^verbatim>\<open>strtoll(s, &eptr, 10)\<close>: white space, a sign, digits; the value is clamped to the range of
  \<^verbatim>\<open>long long\<close> and is 0 without digits.\<close>

definition is_space :: "char \<Rightarrow> bool" where
  "is_space c \<longleftrightarrow> c \<in> {CHR '' '', CHR 0x09, CHR 0x0A, CHR 0x0B, CHR 0x0C, CHR 0x0D}"

definition LLONG_MIN :: int where "LLONG_MIN = - (2 ^ 63)"

definition LLONG_MAX :: int where "LLONG_MAX = 2 ^ 63 - 1"

definition clamp :: "int \<Rightarrow> int" where
  "clamp v = max LLONG_MIN (min LLONG_MAX v)"

definition strtoll :: "string \<Rightarrow> int" where
  "strtoll s =
     clamp (case dropWhile is_space s of
              [] \<Rightarrow> 0
            | c # cs \<Rightarrow> if c = CHR ''-'' then - digits_value 0 cs
                        else if c = CHR ''+'' then digits_value 0 cs else digits_value 0 (c # cs))"

text \<open>\<^verbatim>\<open>atoi\<close>: as above with the result an \<^verbatim>\<open>int\<close>; a number that does not fit is undefined.\<close>

definition atoi :: "string \<Rightarrow> int option" where
  "atoi s = (let v = strtoll s in if - (2 ^ 31) \<le> v \<and> v < 2 ^ 31 then Some v else None)"

subsection \<open>Reading what was printed\<close>

lemma digit_value_char [simp]: "d < 10 \<Longrightarrow> digit_value (digit_char d) = Some (int d)"
  by (simp add: digit_value_def digit_char_def Let_def)

lemma digits_value_decimal:
  "digits_value acc (decimal n @ r) = digits_value (acc * 10 ^ length (decimal n) + int n) r"
proof (induction n arbitrary: acc r rule: decimal.induct)
  case (1 n)
  show ?case
  proof (cases "n < 10")
    case True
    then show ?thesis by (simp add: decimal.simps [of n])
  next
    case False
    have "int n = int (n div 10) * 10 + int (n mod 10)" by presburger
    then show ?thesis
      using False 1 [OF False, of acc "digit_char (n mod 10) # r"]
      by (simp add: decimal.simps [of n] algebra_simps)
  qed
qed

lemma decimal_Cons: "\<exists>d < 10. \<exists>cs. decimal n = digit_char d # cs"
proof (induction n rule: decimal.induct)
  case (1 n)
  then show ?case by (cases "n < 10") (auto simp: decimal.simps [of n])
qed

lemma digits_value_stops: "r = [] \<or> digit_value (hd r) = None \<Longrightarrow> digits_value acc r = acc"
  by (cases r) auto

lemma decimal_inject:
  assumes "decimal m @ r = decimal n @ s"
    and "r = [] \<or> digit_value (hd r) = None" "s = [] \<or> digit_value (hd s) = None"
  shows "m = n \<and> r = s"
proof -
  have "digits_value 0 (decimal m @ r) = int m" "digits_value 0 (decimal n @ s) = int n"
    using assms(2,3) by (simp_all add: digits_value_decimal digits_value_stops)
  with assms(1) have "m = n" by simp
  with assms(1) show ?thesis by simp
qed

end
