(* ===== verification/PipeReport.thy ===== *)
theory PipeReport
  imports PipeProperties Decimal
begin

text \<open>
  What the pipe writes about itself: \<^verbatim>\<open>print\<close>, the diagnostics of \<^verbatim>\<open>validate\<close> and the message of
  \<^verbatim>\<open>startWrite\<close> about an element that is too large, on a model of the formatting state of an
  output stream. \<^verbatim>\<open>StreamGuard\<close> is not in the repository; it is the argument \<open>guard\<close>, applied to the
  stream at the start and the stream at the end of the block that declares it. The text of a
  \<^verbatim>\<open>double\<close> is the argument \<open>fmt\<close>.
\<close>

subsection \<open>Output streams\<close>

record ostream =
  stream_text :: string
  hex_flag :: bool
  boolalpha_flag :: bool
  field_width :: nat

datatype stream_item =
    Str string
  | Num nat
  | Bool bool
  | Dbl rat
  | Setw nat
  | Hex
  | Boolalpha

type_synonym guard = "ostream \<Rightarrow> ostream \<Rightarrow> ostream"

text \<open>Every insertion but that of a manipulator is padded to the width and resets it.\<close>

definition put_text :: "string \<Rightarrow> ostream \<Rightarrow> ostream" where
  "put_text s os = os\<lparr>stream_text := stream_text os @ pad (field_width os) s, field_width := 0\<rparr>"

fun put_item :: "(rat \<Rightarrow> string) \<Rightarrow> stream_item \<Rightarrow> ostream \<Rightarrow> ostream" where
  "put_item fmt (Str s) os = put_text s os"
| "put_item fmt (Num n) os = put_text (if hex_flag os then hexadecimal n else decimal n) os"
| "put_item fmt (Bool b) os =
     put_text (if boolalpha_flag os then (if b then ''true'' else ''false'') else (if b then ''1'' else ''0'')) os"
| "put_item fmt (Dbl x) os = put_text (fmt x) os"
| "put_item fmt (Setw n) os = os\<lparr>field_width := n\<rparr>"
| "put_item fmt Hex os = os\<lparr>hex_flag := True\<rparr>"
| "put_item fmt Boolalpha os = os\<lparr>boolalpha_flag := True\<rparr>"

definition put :: "(rat \<Rightarrow> string) \<Rightarrow> stream_item list \<Rightarrow> ostream \<Rightarrow> ostream" where
  "put fmt items os = fold (put_item fmt) items os"

subsection \<open>The report\<close>

text \<open>A location: \<^verbatim>\<open>"(" << setw(8) << version << ", " << setw(8) << pointer << ")\n"\<close>.\<close>

definition location_items :: "u64 \<Rightarrow> stream_item list" where
  "location_items v = [Str ''('', Setw 8, Num (unat (getVersion v)), Str '', '', Setw 8, Num (unat (getPointer v)),
     Str ('')'' @ NL)]"

definition wakeup_policy_items :: "stream_item list" where
  "wakeup_policy_items = [Str ''No Wakeup Policy'']"

definition print_items :: "pipe_params \<Rightarrow> lockless_pipe \<Rightarrow> stream_item list" where
  "print_items c p =
     [Str (TAB @ ''Number of items in pipe     ''), Num (unat (count p)), Str NL,
      Str (TAB @ ''Percent full                ''), Dbl (percentFull c p), Str NL,
      Str (TAB @ ''Pipe size (in bytes)        ''), Num (unat (PIPE_SIZE c)), Str NL,
      Str (TAB @ ''Writing to location         '')] @ location_items (writeVPtr p) @
     [Str (TAB @ ''Reading from location       '')] @ location_items (readVPtr p) @
     [Str (TAB @ ''Next write location         '')] @ location_items (nextWriteVPtr p) @
     [Str (TAB @ ''Num Written                 ''), Num (unat (numWritten p)), Str NL,
      Str (TAB @ ''Num Read                    ''), Num (unat (numRead p)), Str NL,
      Str (TAB @ ''Num Failed Writes           ''), Num (unat (numFailedWrites p)), Str NL,
      Str (TAB @ ''Pipe Writer is running      ''), Boolalpha, Bool (isWriterRunning p), Str NL,
      Str (TAB @ ''Pipe Reader is running      ''), Boolalpha, Bool (isReaderRunning p), Str NL,
      Str (TAB @ ''Wakeup Policy               '')] @ wakeup_policy_items"

definition print :: "(rat \<Rightarrow> string) \<Rightarrow> guard \<Rightarrow> pipe_params \<Rightarrow> lockless_pipe \<Rightarrow> ostream \<Rightarrow> ostream" where
  "print fmt guard c p os = guard os (put fmt (print_items c p) os)"

text \<open>\<^verbatim>\<open>operator<<\<close> on a pipe.\<close>

definition insert_pipe :: "(rat \<Rightarrow> string) \<Rightarrow> guard \<Rightarrow> pipe_params \<Rightarrow> lockless_pipe \<Rightarrow> ostream \<Rightarrow> ostream" where
  "insert_pipe fmt guard c p os = print fmt guard c p os"

text \<open>The branch of \<^verbatim>\<open>startWrite\<close> that refuses an element: the message and the null pointer.\<close>

definition startWrite_too_large ::
  "(rat \<Rightarrow> string) \<Rightarrow> guard \<Rightarrow> pipe_params \<Rightarrow> lockless_pipe \<Rightarrow> u32 \<Rightarrow> ostream \<Rightarrow> u32 option \<times> ostream" where
  "startWrite_too_large fmt guard c p len cerr =
     (None, insert_pipe fmt guard c p
        (put fmt [Str ''LocklessPipe: Data Passed in is too large! Length: '', Num (unat len),
                  Str (NL @ ''Pipe: '' @ NL)] cerr))"

subsection \<open>Diagnostics of validate\<close>

text \<open>One failed check: the message when \<open>pr\<close> is set, and \<^verbatim>\<open>valid = false\<close>.\<close>

definition report_if :: "(rat \<Rightarrow> string) \<Rightarrow> bool \<Rightarrow> bool \<Rightarrow> stream_item list \<Rightarrow> bool \<times> ostream \<Rightarrow> bool \<times> ostream" where
  "report_if fmt pr failed items st =
     (case st of (valid, cerr) \<Rightarrow>
        if failed then (False, if pr then put fmt items cerr else cerr) else (valid, cerr))"

text \<open>The check of the stomp words sets \<^verbatim>\<open>std::hex\<close> inside a guard of its own.\<close>

definition report_stomps :: "(rat \<Rightarrow> string) \<Rightarrow> guard \<Rightarrow> bool \<Rightarrow> lockless_pipe \<Rightarrow> bool \<times> ostream \<Rightarrow> bool \<times> ostream" where
  "report_stomps fmt guard pr p st =
     (case st of (valid, cerr) \<Rightarrow>
        if stomp1 p \<noteq> STOMP \<or> stomp2 p \<noteq> STOMP \<or> stomp3 p \<noteq> STOMP \<or> stomp4 p \<noteq> STOMP
        then (False, if pr then guard cerr
          (put fmt [Str ''LocklessPipe Error: Stomp variables have been corrupted: '', Hex, Num (unat (stomp1 p)),
             Str '' : '', Num (unat (stomp2 p)), Str '' : '', Num (unat (stomp3 p)), Str '' : '',
             Num (unat (stomp4 p)), Str NL] cerr) else cerr)
        else (valid, cerr))"

definition validate_checks ::
  "(rat \<Rightarrow> string) \<Rightarrow> guard \<Rightarrow> pipe_params \<Rightarrow> bool \<Rightarrow> lockless_pipe \<Rightarrow> ostream \<Rightarrow> bool \<times> ostream" where
  "validate_checks fmt guard c pr p cerr =
     (let rv = readVPtr p; wv = writeVPtr p;
          st = (True, cerr);
          st = report_if fmt pr (numRead p > numWritten p)
            [Str ''LocklessPipe Error: NumWritten/NumRead out of synch:'', Str '' Num Read: '', Num (unat (numRead p)),
             Str '' Num Written: '', Num (unat (numWritten p)), Str NL] st;
          st = report_if fmt pr (getVersion wv - getVersion rv > 1)
            [Str ''LocklessPipe Error: Versions out of synch:'', Str '' Write Version: '', Num (unat (getVersion wv)),
             Str '' Read Version: '', Num (unat (getVersion rv)), Str NL] st;
          st = report_if fmt pr (getPointer wv > PIPE_SIZE c)
            [Str ''LocklessPipe Error: WritePtr out of bounds: '', Num (unat wv), Str NL] st;
          st = report_if fmt pr (getPointer rv > PIPE_SIZE c)
            [Str ''LocklessPipe Error: ReadPtr out of bounds: '', Num (unat rv), Str NL] st;
          st = report_if fmt pr (getPointer wv = getPointer rv \<and> getVersion wv \<noteq> getVersion rv)
            [Str ''LocklessPipe Error: Corrupt state:'', Str '' Write Version '', Num (unat (getVersion wv)),
             Str '' Write Pointer '', Num (unat (getPointer wv)), Str '' Read Version '', Num (unat (getVersion rv)),
             Str '' Read Pointer '', Num (unat (getPointer rv)), Str NL] st
      in report_stomps fmt guard pr p st)"

text \<open>The whole function: the checks, and the report on an invalid pipe.\<close>

definition validate_print ::
  "(rat \<Rightarrow> string) \<Rightarrow> guard \<Rightarrow> pipe_params \<Rightarrow> bool \<Rightarrow> lockless_pipe \<Rightarrow> ostream \<Rightarrow> bool \<times> ostream" where
  "validate_print fmt guard c pr p cerr =
     (let (valid, cerr) = validate_checks fmt guard c pr p cerr
      in (valid, if pr \<and> \<not> valid then put fmt [Str NL] (insert_pipe fmt guard c p cerr) else cerr))"

subsection \<open>What a sequence of insertions writes\<close>

lemma put_simps [simp]: "put fmt [] os = os" "put fmt (x # xs) os = put fmt xs (put_item fmt x os)"
  by (simp_all add: put_def)

lemma put_item_extends: "\<exists>t. stream_text (put_item fmt x os) = stream_text os @ t"
  by (cases x) (auto simp: put_text_def)

lemma put_extends: "\<exists>t. stream_text (put fmt xs os) = stream_text os @ t"
proof (induction xs arbitrary: os)
  case (Cons x xs)
  from Cons.IH put_item_extends [of fmt x os] show ?case by (metis append.assoc put_simps(2))
qed simp

text \<open>The text written to a stream in base 10, by structural recursion: \<open>w\<close> is the width, \<open>ba\<close> the
  \<^verbatim>\<open>boolalpha\<close> flag.\<close>

fun render :: "(rat \<Rightarrow> string) \<Rightarrow> nat \<Rightarrow> bool \<Rightarrow> stream_item list \<Rightarrow> string" where
  "render fmt w ba [] = []"
| "render fmt w ba (Str s # xs) = pad w s @ render fmt 0 ba xs"
| "render fmt w ba (Num n # xs) = pad w (decimal n) @ render fmt 0 ba xs"
| "render fmt w ba (Bool b # xs) =
     pad w (if ba then (if b then ''true'' else ''false'') else (if b then ''1'' else ''0'')) @ render fmt 0 ba xs"
| "render fmt w ba (Dbl x # xs) = pad w (fmt x) @ render fmt 0 ba xs"
| "render fmt w ba (Setw n # xs) = render fmt n ba xs"
| "render fmt w ba (Hex # xs) = render fmt w ba xs"
| "render fmt w ba (Boolalpha # xs) = render fmt w True xs"

lemma put_renders:
  "\<not> hex_flag os \<Longrightarrow> Hex \<notin> set xs \<Longrightarrow>
   stream_text (put fmt xs os) = stream_text os @ render fmt (field_width os) (boolalpha_flag os) xs"
proof (induction xs arbitrary: os)
  case (Cons x xs)
  then show ?case by (cases x) (simp_all add: put_text_def)
qed simp

text \<open>Fields that can be told apart: a number ends at a character that is no digit, a \<^verbatim>\<open>double\<close> at the
  end of its line.\<close>

fun field_ends :: "stream_item list \<Rightarrow> bool" where
  "field_ends (Str s # xs) \<longleftrightarrow> s \<noteq> [] \<and> digit_value (hd s) = None"
| "field_ends _ = False"

fun line_ends :: "stream_item list \<Rightarrow> bool" where
  "line_ends (Str s # xs) \<longleftrightarrow> s \<noteq> [] \<and> hd s = CHR 0x0A"
| "line_ends _ = False"

fun parsable :: "nat \<Rightarrow> stream_item list \<Rightarrow> bool" where
  "parsable w [] = True"
| "parsable w (Str s # xs) = parsable 0 xs"
| "parsable w (Num n # xs) = (field_ends xs \<and> parsable 0 xs)"
| "parsable w (Bool b # xs) = (w = 0 \<and> parsable 0 xs)"
| "parsable w (Dbl x # xs) = (w = 0 \<and> line_ends xs \<and> parsable 0 xs)"
| "parsable w (Setw n # xs) = parsable n xs"
| "parsable w (Hex # xs) = False"
| "parsable w (Boolalpha # xs) = parsable w xs"

fun same_item :: "(rat \<Rightarrow> string) \<Rightarrow> stream_item \<Rightarrow> stream_item \<Rightarrow> bool" where
  "same_item fmt (Dbl x) (Dbl y) = (fmt x = fmt y)"
| "same_item fmt a b = (a = b)"

fun same_shape :: "stream_item \<Rightarrow> stream_item \<Rightarrow> bool" where
  "same_shape (Num m) (Num n) = True"
| "same_shape (Bool a) (Bool b) = True"
| "same_shape (Dbl x) (Dbl y) = True"
| "same_shape a b = (a = b)"

lemma pad_decimal_inject:
  assumes "pad w (decimal m) @ r = pad w (decimal n) @ s"
    and "r = [] \<or> digit_value (hd r) = None" "s = [] \<or> digit_value (hd s) = None"
  shows "m = n \<and> r = s"
proof -
  have strip: "dropWhile (\<lambda>ch. ch = CHR '' '') (pad w (decimal k) @ z) = decimal k @ z" for k z
  proof -
    obtain d cs where d: "d < 10" "decimal k = digit_char d # cs" using decimal_Cons by blast
    have "digit_value CHR '' '' = None" by (simp add: digit_value_def)
    with digit_value_char [OF d(1)] have "digit_char d \<noteq> CHR '' ''" by force
    with d(2) show ?thesis by (simp add: pad_def dropWhile_append3)
  qed
  from strip [of m r] strip [of n s] assms(1) have "decimal m @ r = decimal n @ s" by simp
  with assms(2,3) show ?thesis using decimal_inject by blast
qed

lemma field_ends_render: "field_ends xs \<Longrightarrow> render fmt 0 ba xs = [] \<or> digit_value (hd (render fmt 0 ba xs)) = None"
  by (cases xs rule: field_ends.cases) (simp_all add: pad_def)

lemma line_ends_render: "line_ends xs \<Longrightarrow> \<exists>r. render fmt 0 ba xs = CHR 0x0A # r"
  by (cases xs rule: line_ends.cases) (auto simp: pad_def neq_Nil_conv)

lemma same_shape_ends:
  "list_all2 same_shape xs ys \<Longrightarrow> field_ends xs = field_ends ys \<and> line_ends xs = line_ends ys"
  by (cases xs; cases ys) (auto elim!: same_shape.elims)

lemma until_newline:
  assumes "s @ CHR 0x0A # r = s' @ CHR 0x0A # r'" "CHR 0x0A \<notin> set s" "CHR 0x0A \<notin> set s'"
  shows "s = s' \<and> r = r'"
proof -
  have "takeWhile (\<lambda>ch. ch \<noteq> CHR 0x0A) (s @ CHR 0x0A # r) = s" "takeWhile (\<lambda>ch. ch \<noteq> CHR 0x0A) (s' @ CHR 0x0A # r') = s'"
    using assms(2,3) by (subst takeWhile_append2; auto)+
  with assms(1) show ?thesis by simp
qed

lemma render_inject:
  assumes "list_all2 same_shape xs ys" "parsable w xs" "\<And>x. CHR 0x0A \<notin> set (fmt x)"
    and "render fmt w ba xs = render fmt w ba ys"
  shows "list_all2 (same_item fmt) xs ys"
  using assms(1,2,4)
proof (induction xs ys arbitrary: w ba rule: list_all2_induct)
  case (Cons x xs y ys)
  note ends = same_shape_ends [OF Cons.hyps(2)]
  show ?case
  proof (cases x)
    case (Num m)
    then obtain n where y: "y = Num n" using Cons.hyps(1) by (cases y) auto
    from pad_decimal_inject [of w m "render fmt 0 ba xs" n "render fmt 0 ba ys"]
      field_ends_render [of xs fmt ba] field_ends_render [of ys fmt ba] Cons.prems Num y ends
    have "m = n" "render fmt 0 ba xs = render fmt 0 ba ys" by simp_all
    with Cons.IH [of 0 ba] Cons.prems Num y show ?thesis by simp
  next
    case (Dbl u)
    then obtain v where y: "y = Dbl v" using Cons.hyps(1) by (cases y) auto
    obtain r r' where r: "render fmt 0 ba xs = CHR 0x0A # r" "render fmt 0 ba ys = CHR 0x0A # r'"
      using line_ends_render Cons.prems(1) Dbl ends by fastforce
    from until_newline [of "fmt u" r "fmt v" r'] assms(3) Cons.prems Dbl y r
    have "fmt u = fmt v" "render fmt 0 ba xs = render fmt 0 ba ys" by (simp_all add: pad_def)
    with Cons.IH [of 0 ba] Cons.prems Dbl y show ?thesis by simp
  next
    case (Bool b)
    then obtain b' where "y = Bool b'" using Cons.hyps(1) by (cases y) auto
    with Cons.IH [of 0 ba] Cons.prems Bool show ?thesis
      by (cases b; cases b'; cases ba) (simp_all add: pad_def)
  qed (use Cons in \<open>cases y; simp\<close>)+
qed simp

subsection \<open>Properties\<close>

definition keeps_text :: "guard \<Rightarrow> bool" where
  "keeps_text guard \<longleftrightarrow> (\<forall>a b. stream_text (guard a b) = stream_text b)"

lemma report_if_results:
  "fst (report_if fmt pr failed items st) \<longleftrightarrow> fst st \<and> \<not> failed"
  "snd (report_if fmt pr failed items st) = (if failed \<and> pr then put fmt items (snd st) else snd st)"
  by (simp_all add: report_if_def split: prod.split)

lemma report_stomps_results:
  "fst (report_stomps fmt guard pr p st) \<longleftrightarrow> fst st \<and> stomps_intact p"
  "\<not> pr \<or> stomps_intact p \<Longrightarrow> snd (report_stomps fmt guard pr p st) = snd st"
  by (auto simp: report_stomps_def stomps_intact_def split: prod.split)

lemma report_passes:
  "report_if fmt pr False items st = st"
  "stomps_intact p \<Longrightarrow> report_stomps fmt guard pr p st = st"
  by (auto simp: report_if_def report_stomps_def stomps_intact_def split: prod.split)

lemma put_extends_base:
  "\<exists>t. stream_text os = base @ t \<Longrightarrow> \<exists>t. stream_text (put fmt xs os) = base @ t"
  using put_extends [of fmt xs os] by auto

lemma report_extends:
  assumes "\<exists>t. stream_text (snd st) = base @ t"
  shows "\<exists>t. stream_text (snd (report_if fmt pr failed items st)) = base @ t"
  using assms put_extends_base by (simp add: report_if_results)

lemma report_stomps_extends:
  assumes "\<exists>t. stream_text (snd st) = base @ t" "keeps_text guard"
  shows "\<exists>t. stream_text (snd (report_stomps fmt guard pr p st)) = base @ t"
proof (cases st)
  case (Pair valid cerr)
  then have "\<exists>t. stream_text (put fmt xs cerr) = base @ t" for xs using assms(1) put_extends_base by simp
  with assms Pair show ?thesis by (simp add: report_stomps_def keeps_text_def del: put_simps)
qed

lemma validate_checks_valid: "fst (validate_checks fmt guard c pr p cerr) = validate c p"
  by (simp add: validate_checks_def Let_def report_if_results report_stomps_results validate_conj not_less)

lemma validate_checks_silent:
  assumes "\<not> pr \<or> validate c p"
  shows "snd (validate_checks fmt guard c pr p cerr) = cerr"
proof (cases pr)
  case False
  then show ?thesis
    by (simp add: validate_checks_def Let_def report_if_results report_stomps_results del: put_simps)
next
  case True
  with assms have "\<not> numWritten p < numRead p" "\<not> 1 < getVersion (writeVPtr p) - getVersion (readVPtr p)"
    "\<not> PIPE_SIZE c < getPointer (writeVPtr p)" "\<not> PIPE_SIZE c < getPointer (readVPtr p)"
    "\<not> (getPointer (writeVPtr p) = getPointer (readVPtr p) \<and> getVersion (writeVPtr p) \<noteq> getVersion (readVPtr p))"
    "stomps_intact p" by (simp_all add: validate_conj not_less)
  then show ?thesis by (simp only: validate_checks_def Let_def report_passes snd_conv)
qed

lemma validate_checks_extends:
  "keeps_text guard \<Longrightarrow> \<exists>t. stream_text (snd (validate_checks fmt guard c pr p cerr)) = stream_text cerr @ t"
  unfolding validate_checks_def Let_def by (intro report_stomps_extends report_extends) simp_all

text \<open>
  Property C21. \<^verbatim>\<open>validate\<close> gives the same answer with and without its diagnostics; it writes nothing when
  the pipe is valid or the caller asked for silence, and otherwise always writes something, leaving
  what was on the stream before it in place.
\<close>

theorem validate_reports:
  assumes "keeps_text guard"
  shows "fst (validate_print fmt guard c pr p cerr) = validate c p \<and>
    (\<not> pr \<or> validate c p \<longrightarrow> snd (validate_print fmt guard c pr p cerr) = cerr) \<and>
    (pr \<and> \<not> validate c p \<longrightarrow>
      (\<exists>t. t \<noteq> [] \<and> stream_text (snd (validate_print fmt guard c pr p cerr)) = stream_text cerr @ t))"
proof -
  let ?os = "snd (validate_checks fmt guard c pr p cerr)"
  have eq: "validate_print fmt guard c pr p cerr =
      (validate c p, if pr \<and> \<not> validate c p then put fmt [Str NL] (insert_pipe fmt guard c p ?os) else ?os)"
    using validate_checks_valid [of fmt guard c pr p cerr]
    by (simp add: validate_print_def case_prod_beta del: put_simps)
  obtain t where t: "stream_text ?os = stream_text cerr @ t" using validate_checks_extends [OF assms] by blast
  obtain u where "stream_text (insert_pipe fmt guard c p ?os) = stream_text ?os @ u"
    using put_extends [of fmt "print_items c p" ?os] assms by (auto simp: insert_pipe_def print_def keeps_text_def)
  then have "stream_text (put fmt [Str NL] (insert_pipe fmt guard c p ?os)) =
      stream_text cerr @ (t @ u @ pad (field_width (insert_pipe fmt guard c p ?os)) NL)"
    using t by (simp add: put_text_def)
  then show ?thesis using eq validate_checks_silent [of pr c p fmt guard cerr] by (auto simp: pad_def simp del: put_simps)
qed

definition restore_guard :: guard where
  "restore_guard a b = b\<lparr>hex_flag := hex_flag a, boolalpha_flag := boolalpha_flag a, field_width := field_width a\<rparr>"

definition fresh_stream :: ostream where
  "fresh_stream = \<lparr>stream_text = [], hex_flag = False, boolalpha_flag = False, field_width = 0\<rparr>"

lemma restore_guard_keeps: "keeps_text restore_guard"
  by (simp add: keeps_text_def restore_guard_def)

theorem validate_reports_witness:
  "\<not> fst (validate_print (\<lambda>_. ''?'') restore_guard small_pipe True (small_new\<lparr>numRead := 1\<rparr>) fresh_stream) \<and>
   (\<exists>t. t \<noteq> [] \<and> stream_text (snd (validate_print (\<lambda>_. ''?'') restore_guard small_pipe True
      (small_new\<lparr>numRead := 1\<rparr>) fresh_stream)) = stream_text fresh_stream @ t)"
proof -
  have "\<not> validate small_pipe (small_new\<lparr>numRead := 1\<rparr>)"
    by (simp add: validate_conj small_new_def LocklessPipe_def clear_def)
  with validate_reports [OF restore_guard_keeps, of "\<lambda>_. ''?''" small_pipe True "small_new\<lparr>numRead := 1\<rparr>" fresh_stream]
  show ?thesis by simp
qed

text \<open>
  Property C22. The report determines the pipe: on a stream in its default state, two pipes that print the same text
  have the same size, the same three pointers with their versions, the same counters and the same running
  flags.
\<close>

theorem print_determines_state:
  assumes "keeps_text guard" "\<And>x. CHR 0x0A \<notin> set (fmt x)" "\<not> hex_flag os" "field_width os = 0"
    and eq: "stream_text (print fmt guard c p os) = stream_text (print fmt guard c' p' os)"
  shows "PIPE_SIZE c = PIPE_SIZE c' \<and> writeVPtr p = writeVPtr p' \<and> readVPtr p = readVPtr p' \<and>
    nextWriteVPtr p = nextWriteVPtr p' \<and> numWritten p = numWritten p' \<and> numRead p = numRead p' \<and>
    numFailedWrites p = numFailedWrites p' \<and> isWriterRunning p = isWriterRunning p' \<and>
    isReaderRunning p = isReaderRunning p'"
proof -
  note defs = print_items_def location_items_def wakeup_policy_items_def
  have "list_all2 (same_item fmt) (print_items c p) (print_items c' p')"
  proof (rule render_inject [OF _ _ assms(2)])
    show "list_all2 same_shape (print_items c p) (print_items c' p')" by (simp add: defs)
    show "parsable 0 (print_items c p)" by (simp add: defs digit_value_def)
    have "Hex \<notin> set (print_items c p)" "Hex \<notin> set (print_items c' p')" by (simp_all add: defs)
    with eq assms(1,3,4) show "render fmt 0 (boolalpha_flag os) (print_items c p) =
        render fmt 0 (boolalpha_flag os) (print_items c' p')"
      by (simp add: print_def keeps_text_def put_renders)
  qed
  then show ?thesis
    by (simp add: defs vptr_eq_iff [of "writeVPtr p"] vptr_eq_iff [of "readVPtr p"] vptr_eq_iff [of "nextWriteVPtr p"]
        flip: word_unat_eq_iff)
qed

theorem print_determines_state_witness:
  "stream_text (print (\<lambda>_. ''?'') restore_guard small_pipe small_new fresh_stream) \<noteq>
   stream_text (print (\<lambda>_. ''?'') restore_guard small_pipe (startReader (small_new\<lparr>numFailedWrites := 12\<rparr>)) fresh_stream)"
proof
  assume eq: "stream_text (print (\<lambda>_. ''?'') restore_guard small_pipe small_new fresh_stream) =
    stream_text (print (\<lambda>_. ''?'') restore_guard small_pipe (startReader (small_new\<lparr>numFailedWrites := 12\<rparr>)) fresh_stream)"
  have "numFailedWrites small_new = numFailedWrites (startReader (small_new\<lparr>numFailedWrites := 12\<rparr>))"
    using print_determines_state [OF restore_guard_keeps _ _ _ eq] by (simp add: fresh_stream_def)
  then show False by (simp add: startReader_def small_new_def LocklessPipe_def clear_def)
qed

end
