(* ===== verification/PipeWellFormed.thy ===== *)
theory PipeWellFormed
  imports PipeWait
begin

text \<open>
  The type of the pipe's state. A well-formed pipe represents some queue and has its guard words
  intact; every operation keeps it well-formed on every one of its branches, and none of them
  reaches undefined behaviour, whatever the other threads do to the pipe in the meantime as long as
  they keep it well-formed too. The contract with the other threads is a locale.
\<close>

definition pipe_wf :: "pipe_params \<Rightarrow> lockless_pipe \<Rightarrow> bool" where
  "pipe_wf c p \<longleftrightarrow> (\<exists>q. pipe_abs c p q) \<and> stomps_intact p"

subsection \<open>Operations that do not sleep\<close>

lemma pipe_wf_frame [simp]:
  "pipe_wf c (p\<lparr>isWriterRunning := r\<rparr>) = pipe_wf c p" "pipe_wf c (p\<lparr>isReaderRunning := r\<rparr>) = pipe_wf c p"
  "pipe_wf c (p\<lparr>nextWriteVPtr := n\<rparr>) = pipe_wf c p" "pipe_wf c (p\<lparr>numFailedWrites := n\<rparr>) = pipe_wf c p"
  by (simp_all add: pipe_wf_def pipe_abs_def ring_at_def cursor_defs stomps_intact_def)

lemmas running_defs = startWriter_def stopWriter_def startReader_def wakeup_def wakeupReader_def

lemma switches_keep_wf:
  assumes "pipe_wf c p"
  shows "pipe_wf c (startWriter p)" "pipe_wf c (stopWriter p)" "pipe_wf c (startReader p)"
    "pipe_wf c (wakeupReader p)"
  using assms by (simp_all add: running_defs)

lemma constructor_wf: "pipe_size_ok c \<Longrightarrow> length (buf raw) = psize c \<Longrightarrow> pipe_wf c (LocklessPipe raw)"
  using pipe_abs_new by (auto simp: pipe_wf_def stomps_intact_def LocklessPipe_def clear_def)

lemma clear_keeps_wf: "pipe_wf c p \<Longrightarrow> pipe_wf c (clear p)"
proof -
  assume "pipe_wf c p"
  then obtain q where q: "pipe_abs c p q" and st: "stomps_intact (clear p)"
    by (auto simp: pipe_wf_def stomps_intact_def clear_def)
  have "ring_at c (clear p) [] 0 0" by (simp add: ring_at_def clear_def cursor_defs ring_cursors_def)
  with q have "pipe_abs c (clear p) []" by (auto simp: pipe_abs_def clear_def cursor_defs)
  with st show ?thesis by (auto simp: pipe_wf_def)
qed

lemma reader_advance_keeps_wf:
  assumes "pipe_wf c p" "\<not> isEmpty p"
  shows "pipe_wf c (reader_advance c p (oldest c p))"
proof -
  from assms(1) obtain q where q: "pipe_abs c p q" and st: "stomps_intact p" by (auto simp: pipe_wf_def)
  from q assms(2) obtain x r where "q = x # r" using pipe_abs_isEmpty by (cases q) auto
  with q oldest_pipe_abs [of c p x r] pipe_abs_reader_advance(1) [of c p x r] st show ?thesis
    by (auto simp: pipe_wf_def stomps_intact_def reader_advance_def Let_def split: prod.splits)
qed

lemma write_element_keeps_wf:
  assumes "pipe_abs c p q" "stomps_intact p" "admissible c x" "\<not> isFull c p (word_of_nat (length x))"
  shows "pipe_wf c (write_element c p x)"
  using pipe_fifo.abs_enq [OF assms(1,3,4)] assms(2)
  by (auto simp: pipe_wf_def stomps_intact_def write_element_def Let_def split: prod.splits)

subsection \<open>Operations that sleep\<close>

text \<open>The contract of the other threads, and of the callback, with a sleeping operation.\<close>

locale good_neighbours =
  fixes c :: pipe_params and env :: sleep_env and func :: prewait
  assumes env_keeps: "pipe_wf c p \<Longrightarrow> pipe_wf c (env i p)"
    and func_keeps: "func = Some f \<Longrightarrow> pipe_wf c p \<Longrightarrow> pipe_wf c (f p)"
begin

lemma call_prewait_keeps: "pipe_wf c p \<Longrightarrow> pipe_wf c (call_prewait func p)"
  using func_keeps by (cases func) (simp_all add: call_prewait_def)

lemma poll_keeps:
  assumes "startWrite_poll c env len block i p = Some (p', full)" "pipe_wf c p"
  shows "pipe_wf c p' \<and> full = isFull c p' len \<and> \<not> (full \<and> isWriterRunning p' \<and> block)"
proof -
  let ?P = "\<lambda>d e l b i p r. d = c \<longrightarrow> e = env \<longrightarrow> l = len \<longrightarrow> b = block \<longrightarrow> pipe_wf c p \<longrightarrow>
    pipe_wf c (fst r) \<and> snd r = isFull c (fst r) len \<and> \<not> (snd r \<and> isWriterRunning (fst r) \<and> block)"
  have "?P c env len block i p (p', full)"
  proof (rule startWrite_poll.raw_induct [where P = ?P, OF _ assms(1)])
    fix poll d e l b i p r
    assume IH: "\<And>d e l b i p r. poll d e l b i p = Some r \<Longrightarrow> ?P d e l b i p r"
      and body: "(let full = isFull d p l in
        if full \<and> isWriterRunning p \<and> b then poll d e l b (Suc i) (e i (wakeup p)) else Some (p, full)) = Some r"
    show "?P d e l b i p r"
      using body IH [of d e l b "Suc i" "e i (wakeup p)" r] env_keeps
      by (auto simp: Let_def wakeup_def split: if_splits)
  qed
  with assms(2) show ?thesis by simp
qed

lemma push_keeps:
  assumes "push c env p x = Some (r, p')" "pipe_wf c p" "length x < 2 ^ 32"
  shows "r \<noteq> Undefined \<and> pipe_wf c p'"
proof (cases "MAX_PIPE_ELEMENT_SIZE c < word_of_nat (length x)")
  case True
  with assms show ?thesis by (auto simp: push_def startWrite_def)
next
  case False
  let ?len = "word_of_nat (length x) :: u32"
  have adm: "admissible c x"
    using False assms(3) by (simp add: admissible_def word_less_nat_alt unat_of_nat)
  from False assms(1) obtain p1 full where poll: "startWrite_poll c env ?len True 0 p = Some (p1, full)"
    by (auto simp: push_def startWrite_def split: option.splits)
  from poll_keeps [OF this assms(2)] have p1: "pipe_wf c p1" "full = isFull c p1 ?len"
    "full \<longrightarrow> \<not> isWriterRunning p1" by auto
  show ?thesis
  proof (cases "isWriterRunning p1")
    case True
    from p1(1) obtain q where q: "pipe_abs c p1 q" "stomps_intact p1" by (auto simp: pipe_wf_def)
    have room: "\<not> isFull c p1 ?len" using p1 True by simp
    with push_with_room [OF q(1) adm _ True] poll p1(2)
    have "push c env p x = Some (Returns (), write_element c p1 x)" by simp
    with assms(1) write_element_keeps_wf [OF q adm room] show ?thesis by auto
  next
    case False
    with \<open>\<not> MAX_PIPE_ELEMENT_SIZE c < ?len\<close> poll assms(1) p1(1) show ?thesis
      by (auto simp: push_def startWrite_def)
  qed
qed

lemma wait_forever_keeps:
  assumes "wait_forever env func i p = Some p'" "pipe_wf c p"
  shows "pipe_wf c p'"
proof -
  let ?P = "\<lambda>e f i p p'. e = env \<longrightarrow> f = func \<longrightarrow> pipe_wf c p \<longrightarrow> pipe_wf c p'"
  have "?P env func i p p'"
  proof (rule wait_forever.raw_induct [where P = ?P, OF _ assms(1)])
    fix w e f i p p'
    assume IH: "\<And>e f i p p'. w e f i p = Some p' \<Longrightarrow> ?P e f i p p'"
      and body: "(if isEmpty p \<and> isReaderRunning p then w e f (Suc i) (e i (call_prewait f p)) else Some p) = Some p'"
    show "?P e f i p p'"
      using body IH [of e f "Suc i" "e i (call_prewait f p)" p'] env_keeps call_prewait_keeps
      by (auto split: if_splits)
  qed
  with assms(2) show ?thesis by simp
qed

lemma wait_until_keeps:
  assumes "wait_until env func clk timeOut limit timedOut i p = Some (r, p')" "pipe_wf c p"
  shows "r \<noteq> Undefined \<and> pipe_wf c p'"
proof -
  let ?P = "\<lambda>e f k t l d i p res. e = env \<longrightarrow> f = func \<longrightarrow> pipe_wf c p \<longrightarrow> fst res \<noteq> Undefined \<and> pipe_wf c (snd res)"
  have "?P env func clk timeOut limit timedOut i p (r, p')"
  proof (rule wait_until.raw_induct [where P = ?P, OF _ assms(1)])
    fix w e f k t l d i p res
    assume IH: "\<And>e f k t l d i p res. w e f k t l d i p = Some res \<Longrightarrow> ?P e f k t l d i p res"
      and body: "(if isEmpty p \<and> isReaderRunning p \<and> \<not> d
        then (let p = e i (if t \<noteq> 0 then call_prewait f p else p)
              in case k (Suc i) of None \<Rightarrow> Some (Throws ErrnoException, p)
                 | Some tv \<Rightarrow> w e f k t l (nsecs tv \<ge> l) (Suc i) p)
        else Some (Returns (), p)) = Some res"
    let ?q = "e i (if t \<noteq> 0 then call_prewait f p else p)"
    show "?P e f k t l d i p res"
    proof (intro impI)
      assume *: "e = env" "f = func" "pipe_wf c p"
      then have "pipe_wf c ?q" using env_keeps call_prewait_keeps by simp
      with body IH [of e f k t l _ "Suc i" ?q res] * show "fst res \<noteq> Undefined \<and> pipe_wf c (snd res)"
        by (auto simp: Let_def split: if_splits option.splits)
    qed
  qed
  with assms(2) show ?thesis by simp
qed

lemma wait_keeps:
  assumes "wait env func clk timeOut p = Some (r, p')" "pipe_wf c p"
  shows "r \<noteq> Undefined \<and> pipe_wf c p'"
proof (cases "timeOut = NEVER_TIME_OUT")
  case True
  with assms wait_forever_keeps show ?thesis by (auto simp: wait_def)
next
  case False
  have "pipe_wf c (env 0 (if timeOut \<noteq> 0 then call_prewait func p else p))"
    using assms(2) env_keeps call_prewait_keeps by simp
  with False assms wait_until_keeps show ?thesis by (auto simp: wait_def split: if_splits option.splits)
qed

end

subsection \<open>The pipe is type safe\<close>

text \<open>
  Property C19. Well-formedness is an invariant of the operations of the class that have a body and can be
  instantiated: the constructor establishes it on any storage of the right size, and \<^verbatim>\<open>clear\<close>, \<^verbatim>\<open>startWriter\<close>,
  \<^verbatim>\<open>stopWriter\<close>, \<^verbatim>\<open>startReader\<close>, \<^verbatim>\<open>wakeupReader\<close>, \<^verbatim>\<open>wait\<close> with any timeout, and \<^verbatim>\<open>push\<close> of an element
  of less than \<open>2 ^ 32\<close> bytes keep it whenever they return, on every branch, exceptions included, and do not
  reach undefined behaviour, as long as the other threads and the callback keep it while an
  operation sleeps. (\<^verbatim>\<open>pop\<close> and \<^verbatim>\<open>peek\<close> do nothing to the pipe themselves; they call \<^verbatim>\<open>read\<close>,
  which has no body.)
\<close>

theorem pipe_operations_well_typed:
  assumes "good_neighbours c env func" "pipe_wf c p"
  shows "(pipe_size_ok c \<and> length (buf raw) = psize c \<longrightarrow> pipe_wf c (LocklessPipe raw)) \<and>
    pipe_wf c (clear p) \<and> pipe_wf c (startWriter p) \<and> pipe_wf c (stopWriter p) \<and> pipe_wf c (startReader p) \<and>
    pipe_wf c (wakeupReader p) \<and>
    (push c env p x = Some (r, p') \<and> length x < 2 ^ 32 \<longrightarrow> r \<noteq> Undefined \<and> pipe_wf c p') \<and>
    (wait env func clk timeOut p = Some (r', p'') \<longrightarrow> r' \<noteq> Undefined \<and> pipe_wf c p'')"
  using good_neighbours.push_keeps [OF assms(1) _ assms(2)] good_neighbours.wait_keeps [OF assms(1) _ assms(2)]
    switches_keep_wf [OF assms(2)] clear_keeps_wf [OF assms(2)] constructor_wf
  by blast

text \<open>A reader that consumes one element per sleep is such a neighbour.\<close>

interpretation draining_reader: good_neighbours c "drain_one c" None for c
  by unfold_locales (auto simp: drain_one_def intro: reader_advance_keeps_wf)

theorem pipe_operations_well_typed_witness:
  "\<exists>p'. push small_pipe (drain_one small_pipe) small_new [1, 2, 3] = Some (Returns (), p') \<and> pipe_wf small_pipe p'"
proof -
  have wf: "pipe_wf small_pipe small_new"
    using small_new_abs by (auto simp: pipe_wf_def stomps_intact_def small_new_def LocklessPipe_def clear_def)
  have "push small_pipe (drain_one small_pipe) small_new [1, 2, 3] =
      Some (Returns (), write_element small_pipe small_new [1, 2, 3])"
    by (rule push_with_room [OF small_new_abs]) (simp_all add: admissible_def small_MAX startWrite_poll_stop)
  with pipe_operations_well_typed [OF draining_reader.good_neighbours_axioms wf] show ?thesis by fastforce
qed

end
