(* ===== verification/MWait.thy ===== *)
theory MWait
  imports Prelude
begin

text \<open>
  \<^verbatim>\<open>lockless_pipe/mwait.cpp\<close>: waiting for a memory location to change with the SPARC \<^verbatim>\<open>MWAIT\<close>
  instruction. The two assembly sequences for 64-bit values are followed register by register; the answers of
  \<^verbatim>\<open>gethrtime\<close> are a sequence \<open>clk\<close>, what the waiting does to the world is an argument, and the
  reads of the location that another thread updates are observations.
\<close>

subsection \<open>The instruction sequences\<close>

definition AV2_SPARC_MWAIT :: u32 where
  "AV2_SPARC_MWAIT = 0x10"

text \<open>\<open>getisax\<close> is the array after the call of the system function on the array of zeros.\<close>

definition HasMWAIT :: "(u32 list \<Rightarrow> u32 list) \<Rightarrow> u32" where
  "HasMWAIT getisax = (getisax [0, 0] ! 1) AND AV2_SPARC_MWAIT"

text \<open>
  \<open>load w\<close> is the monitored load in the world \<open>w\<close>, \<open>wr_asr28 timo w\<close> the world after waiting.
  \<^verbatim>\<open>lduwa\<close> extends with zeros, the register of \<^verbatim>\<open>V\<close> holds it extended by its sign, and
  \<^verbatim>\<open>bnz\<close> looks at the 32-bit condition codes.
\<close>

definition MWAITWhileEqual32 ::
  "('w \<Rightarrow> u32) \<Rightarrow> (u32 \<Rightarrow> 'w \<Rightarrow> 'w) \<Rightarrow> u32 \<Rightarrow> u32 \<Rightarrow> 'w \<Rightarrow> u32 \<times> 'w" where
  "MWAITWhileEqual32 load wr_asr28 V nsTimo w =
     (let g1 = ucast (load w) :: u64; RV = scast V XOR g1; zero_icc = (ucast RV = (0 :: u32))
      in (ucast RV, if zero_icc then wr_asr28 nsTimo w else w))"

text \<open>The LP64 version.\<close>

definition MWAITWhileEqual64 ::
  "('w \<Rightarrow> u64) \<Rightarrow> (u32 \<Rightarrow> 'w \<Rightarrow> 'w) \<Rightarrow> u64 \<Rightarrow> u32 \<Rightarrow> 'w \<Rightarrow> u64 \<times> 'w" where
  "MWAITWhileEqual64 load wr_asr28 V nsTimo w =
     (let g1 = load w; RV = V XOR g1 in (RV, if RV = 0 then wr_asr28 nsTimo w else w))"

text \<open>The ILP32 version: a 64-bit value is a pair of registers of which only the low halves count.\<close>

definition MWAITWhileEqual64_ILP32 ::
  "('w \<Rightarrow> u64) \<Rightarrow> (u32 \<Rightarrow> 'w \<Rightarrow> 'w) \<Rightarrow> u64 \<times> u64 \<Rightarrow> u32 \<Rightarrow> 'w \<Rightarrow> (u64 \<times> u64) \<times> 'w" where
  "MWAITWhileEqual64_ILP32 load wr_asr28 HL nsTimo w =
     (case HL of (H, L) \<Rightarrow>
        let g2 = push_bit 32 H;
            g1 = ucast (ucast L :: u32);
            g2 = g1 OR g2;
            g1 = load w;
            g2 = g2 XOR g1;
            w' = (if g2 = 0 then wr_asr28 nsTimo w else w)
        in ((drop_bit 32 g2, g2), w'))"

text \<open>The 64-bit value that a pair of registers stands for.\<close>

definition pair_value :: "u64 \<times> u64 \<Rightarrow> u64" where
  "pair_value HL = (case HL of (H, L) \<Rightarrow> push_bit 32 H OR take_bit 32 L)"

lemma take_bit_ucast: "ucast (ucast (L :: u64) :: u32) = take_bit 32 L"
  by (rule bit_word_eqI) (auto simp: bit_simps)

lemma pair_value_split: "pair_value (drop_bit 32 v, v) = v"
  by (rule bit_word_eqI) (auto simp: pair_value_def bit_simps)

text \<open>
  Property C25. The marshalling of the 32-bit build is right: whatever the upper halves of the two registers hold,
  the ILP32 sequence returns the value of the LP64 sequence on the 64-bit value that the registers
  stand for, and waits in the same cases.
\<close>

theorem mwait64_marshalling:
  "(case MWAITWhileEqual64_ILP32 load wr_asr28 HL nsTimo w of (r, w') \<Rightarrow> (pair_value r, w')) =
   MWAITWhileEqual64 load wr_asr28 (pair_value HL) nsTimo w"
proof (cases HL)
  case (Pair H L)
  have "ucast (ucast L :: u32) OR push_bit 32 H = pair_value HL"
    by (simp add: Pair pair_value_def take_bit_ucast or.commute)
  then show ?thesis
    by (simp only: Pair MWAITWhileEqual64_ILP32_def MWAITWhileEqual64_def Let_def prod.case pair_value_split)
qed

lemma MWAITWhileEqual32_value:
  "MWAITWhileEqual32 load wr_asr28 V nsTimo w =
   (V XOR load w, if load w = V then wr_asr28 nsTimo w else w)"
proof -
  have "ucast (scast V XOR (ucast (load w) :: u64)) = V XOR load w"
    by (rule bit_word_eqI) (auto simp: bit_simps)
  moreover have "V XOR load w = 0 \<longleftrightarrow> load w = V" by (metis xor.right_neutral xor.left_commute xor_self_eq)
  ultimately show ?thesis by (simp add: MWAITWhileEqual32_def Let_def)
qed

text \<open>
  What the caller learns: the result is 0 exactly when the first load found the value to wait for, which is when the
  sequence waited; it says nothing about the location at the time of the return.
\<close>

theorem mwait32_result:
  "fst (MWAITWhileEqual32 load wr_asr28 V nsTimo w) = 0 \<longleftrightarrow> load w = V"
  unfolding MWAITWhileEqual32_value fst_conv by (metis xor.right_neutral xor.left_commute xor_self_eq)

subsection \<open>The location that is waited upon\<close>

text \<open>
  \<^verbatim>\<open>Sequester\<close> puts a variable on cache lines of its own. A field is given by its size and alignment; a structure
  places each field at the next multiple of its alignment, and its size is rounded up to the largest alignment.
\<close>

definition round_up :: "nat \<Rightarrow> nat \<Rightarrow> nat" where
  "round_up a n = (n + a - 1) div a * a"

fun place_fields :: "nat \<Rightarrow> (nat \<times> nat) list \<Rightarrow> nat" where
  "place_fields off [] = off"
| "place_fields off ((n, a) # fields) = place_fields (round_up a off + n) fields"

definition struct_align :: "(nat \<times> nat) list \<Rightarrow> nat" where
  "struct_align fields = foldr max (map snd fields) 1"

definition struct_size :: "(nat \<times> nat) list \<Rightarrow> nat" where
  "struct_size fields = round_up (struct_align fields) (place_fields 0 fields)"

definition CALIGNED :: nat where
  "CALIGNED = 128"

definition Aligner :: "(nat \<times> nat) list" where
  "Aligner = [(0 * 4, CALIGNED)]"

text \<open>The attribute can only raise the alignment of the type.\<close>

definition Sequester :: "nat \<Rightarrow> nat \<Rightarrow> (nat \<times> nat) list" where
  "Sequester size_T align_T = [(size_T, max CALIGNED align_T), (struct_size Aligner, struct_align Aligner)]"

definition WaitLocation_fields :: "(nat \<times> nat) list" where
  "WaitLocation_fields = Sequester 4 4"

lemma round_up_multiple: "0 < a \<Longrightarrow> a dvd round_up a n \<and> n \<le> round_up a n \<and> round_up a n < n + a"
proof -
  assume a: "0 < a"
  have "(n + a - 1) div a * a + (n + a - 1) mod a = n + a - 1" by (rule div_mult_mod_eq)
  moreover have "(n + a - 1) mod a < a" using a by simp
  ultimately have "n \<le> (n + a - 1) div a * a \<and> (n + a - 1) div a * a < n + a" using a by linarith
  then show ?thesis by (simp add: round_up_def)
qed

lemma round_up_id: "0 < a \<Longrightarrow> a dvd n \<Longrightarrow> round_up a n = n"
proof -
  assume "0 < a" "a dvd n"
  then obtain q where "n = a * q" by blast
  moreover have "(a * q + a - 1) div a = q" using \<open>0 < a\<close> by (intro div_nat_eqI) (simp_all add: algebra_simps)
  ultimately show ?thesis by (simp add: round_up_def)
qed

lemma Sequester_size: "align_T \<le> CALIGNED \<Longrightarrow> struct_size (Sequester size_T align_T) = round_up CALIGNED size_T"
proof -
  assume "align_T \<le> CALIGNED"
  then have "max CALIGNED align_T = 128" by (simp add: CALIGNED_def)
  moreover have "round_up 128 0 = 0" by (simp add: round_up_def)
  moreover have "round_up 128 (round_up 128 size_T) = round_up 128 size_T"
    using round_up_multiple [of 128 size_T] by (intro round_up_id) simp_all
  ultimately show ?thesis
    by (simp add: Sequester_def Aligner_def struct_size_def struct_align_def) (simp add: CALIGNED_def)
qed

text \<open>
  The isolation that the comment at \<^verbatim>\<open>WaitLocation\<close> asks for: at an aligned address every cache line, of a size that
  divides 128, that holds a byte of the variable lies inside the object. The member \<^verbatim>\<open>Ax\<close> adds nothing to it: the
  alignment of the variable alone rounds the size up.
\<close>

theorem Sequester_isolates:
  assumes "align_T \<le> CALIGNED" "CALIGNED dvd a" "line dvd CALIGNED" "a \<le> b" "b < a + size_T"
  shows "a \<le> b div line * line \<and> b div line * line + line \<le> a + struct_size (Sequester size_T align_T) \<and>
    struct_size (Sequester size_T align_T) = struct_size [(size_T, CALIGNED)]"
proof -
  let ?S = "round_up CALIGNED size_T"
  note size = round_up_multiple [of CALIGNED size_T]
  have pos: "0 < line" using assms(3) by (auto simp: CALIGNED_def intro: Nat.gr0I)
  have "line dvd a" using assms(2,3) by (rule dvd_trans [rotated])
  then have "a div line * line = a" by simp
  then have low: "a \<le> b div line * line" using div_le_mono [OF assms(4), of line] by (metis mult_le_mono1)
  have "line dvd a + ?S" using assms(2,3) size by (simp add: CALIGNED_def dvd_add dvd_trans)
  then obtain q where q: "a + ?S = line * q" by blast
  have "b < line * q" using assms(5) size q by (simp add: CALIGNED_def)
  then have "b div line < q" using pos by (simp add: div_less_iff_less_mult mult.commute)
  then have "(b div line + 1) * line \<le> q * line" by (intro mult_le_mono1) simp
  then have "b div line * line + line \<le> a + ?S" using q by (simp add: mult.commute)
  moreover have "struct_size [(size_T, CALIGNED)] = ?S"
    by (simp add: struct_size_def struct_align_def round_up_def CALIGNED_def)
  ultimately show ?thesis using low Sequester_size [OF assms(1)] by simp
qed

subsection \<open>The program\<close>

datatype mwait_line =
    Not_supported
  | Clock_latency int
  | Single_threaded
  | Trial int "int list"
  | Blank
  | Two_threads
  | Latency int
  | Short_wait u32 u32 u32 u32
  | Finished

definition MaxMWait :: int where
  "MaxMWait = 1024 * 1024 - 64"

text \<open>\<^verbatim>\<open>for (int k = 10; --k >= 0;)\<close>: \<open>j\<close> is the number of answers of the clock used so far.\<close>

fun calibrate :: "(nat \<Rightarrow> int) \<Rightarrow> nat \<Rightarrow> nat \<Rightarrow> int \<Rightarrow> int" where
  "calibrate clk 0 j dx = dx"
| "calibrate clk (Suc k) j dx = calibrate clk k (j + 2) (clk (j + 1) - clk j)"

text \<open>One line of a trial: ten waits of \<open>k\<close> nanoseconds on a location that nobody changes.\<close>

fun trial_samples :: "(nat \<Rightarrow> int) \<Rightarrow> int \<Rightarrow> nat \<Rightarrow> nat \<Rightarrow> int list" where
  "trial_samples clk dx 0 j = []"
| "trial_samples clk dx (Suc s) j = ((clk (j + 1) - clk j) - dx) # trial_samples clk dx s (j + 2)"

text \<open>The timeout \<open>k\<close> starts at 1 and doubles; that it is positive makes the recursion end.\<close>

function trials :: "(nat \<Rightarrow> int) \<Rightarrow> int \<Rightarrow> int \<Rightarrow> nat \<Rightarrow> mwait_line list" where
  "trials clk dx k j =
     (if 0 < k \<and> k < MaxMWait * 8 then Trial k (trial_samples clk dx 10 j) # trials clk dx (k * 2) (j + 20)
      else [])"
  by pat_completeness auto

termination by (relation "measure (\<lambda>(clk, dx, k, j). nat (MaxMWait * 8 - k))") (auto simp: MaxMWait_def)

declare trials.simps [simp del]

text \<open>The updater thread: one update of the two shared variables.\<close>

definition updater_step :: "int \<Rightarrow> int \<times> u32 \<Rightarrow> int \<times> u32" where
  "updater_step now st = (now, snd st + 1)"

text \<open>What one round of the measuring loop observes: the clock before, the location read into \<^verbatim>\<open>cmp\<close>, the
  monitored load, the clock after, the location and \<^verbatim>\<open>UpdateTime\<close> in the test for a change, and
  the location in the last output.\<close>

record observation =
  t_start :: int
  cmp :: u32
  loaded :: u32
  t_done :: int
  checked :: u32
  update_time :: int
  last_read :: u32

definition round_result :: "observation \<Rightarrow> u32" where
  "round_result ob = fst (MWAITWhileEqual32 loaded (\<lambda>timo ob. ob) (cmp ob) (word_of_int MaxMWait) ob)"

definition round_lines :: "observation \<Rightarrow> mwait_line list" where
  "round_lines ob =
     (let rv = round_result ob; t = t_done ob - t_start ob
      in (if cmp ob \<noteq> checked ob then [Latency (t_done ob - update_time ob)] else []) @
         (if rv = 0 \<and> t > MaxMWait div 2 then [] else [Short_wait (word_of_int t) rv (cmp ob) (last_read ob)]))"

partial_function (option) measure_loop :: "int \<Rightarrow> (nat \<Rightarrow> observation) \<Rightarrow> nat \<Rightarrow> mwait_line list \<Rightarrow> mwait_line list option" where
  "measure_loop fini obs i out =
     (if t_start (obs i) \<ge> fini then Some out
      else measure_loop fini obs (Suc i) (out @ round_lines (obs i)))"

definition mwait_main :: "(u32 list \<Rightarrow> u32 list) \<Rightarrow> (nat \<Rightarrow> int) \<Rightarrow> (nat \<Rightarrow> observation) \<Rightarrow> mwait_line list option" where
  "mwait_main getisax clk obs =
     (if HasMWAIT getisax = 0 then Some [Not_supported]
      else let dx = calibrate clk 10 0 0;
               single = [Clock_latency dx, Single_threaded] @ trials clk dx 1 20 @ [Blank, Two_threads];
               fini = clk 480 + 20 * 1000 * 1000 * 1000
           in map_option (\<lambda>out. out @ [Finished]) (measure_loop fini obs 0 single))"

subsection \<open>Properties of the program\<close>

lemma calibrate_last: "calibrate clk (Suc k) j dx = clk (j + 2 * k + 1) - clk (j + 2 * k)"
  by (induction k arbitrary: j dx) auto

lemma trials_doubles:
  "trials clk dx (2 ^ n) j =
     map (\<lambda>i. Trial (2 ^ i) (trial_samples clk dx 10 (j + 20 * (i - n)))) [n..<23]"
proof (induction "23 - n" arbitrary: n j)
  case 0
  then have "(2 :: int) ^ 23 \<le> 2 ^ n" by (intro power_increasing) auto
  with 0 show ?case by (subst trials.simps) (simp add: MaxMWait_def)
next
  case (Suc d)
  then have n: "n < 23" by simp
  then have "(2 :: int) ^ n \<le> 2 ^ 22" by (intro power_increasing) auto
  moreover have "(2 :: int) ^ n * 2 = 2 ^ Suc n" by simp
  moreover have "trials clk dx (2 ^ Suc n) (j + 20) =
      map (\<lambda>i. Trial (2 ^ i) (trial_samples clk dx 10 (j + 20 + 20 * (i - Suc n)))) [Suc n..<23]"
    using Suc by (intro Suc.hyps(1)) simp
  moreover have "map (\<lambda>i. Trial (2 ^ i) (trial_samples clk dx 10 (j + 20 + 20 * (i - Suc n)))) [Suc n..<23] =
      map (\<lambda>i. Trial (2 ^ i) (trial_samples clk dx 10 (j + 20 * (i - n)))) [Suc n..<23]"
    by (rule map_cong [OF refl]) (auto simp: algebra_simps Suc_diff_le dest!: Suc_le_lessD intro!: arg_cong2 [where f = Trial])
  ultimately show ?case
    using n by (subst trials.simps) (simp add: MaxMWait_def upt_conv_Cons mult.commute)
qed

lemma measure_loop_stop: "fini \<le> t_start (obs i) \<Longrightarrow> measure_loop fini obs i out = Some out"
  by (subst measure_loop.simps) simp

lemma measure_loop_step:
  "t_start (obs i) < fini \<Longrightarrow> measure_loop fini obs i out = measure_loop fini obs (Suc i) (out @ round_lines (obs i))"
  by (subst measure_loop.simps) simp

lemma measure_loop_rounds:
  assumes "\<forall>i < n. t_start (obs i) < fini" "fini \<le> t_start (obs n)" "i \<le> n"
  shows "measure_loop fini obs i out = Some (out @ concat (map (\<lambda>i. round_lines (obs i)) [i..<n]))"
  using assms(3)
proof (induction "n - i" arbitrary: i out)
  case 0
  with assms(2) show ?case by (simp add: measure_loop_stop)
next
  case (Suc d)
  then have "i < n" by simp
  with Suc assms(1) show ?case by (simp add: measure_loop_step upt_conv_Cons)
qed

lemma measure_loop_needs_end:
  assumes "measure_loop fini obs i out = Some r"
  shows "\<exists>n \<ge> i. fini \<le> t_start (obs n)"
proof (rule measure_loop.raw_induct [where P = "\<lambda>fini obs i out r. \<exists>n \<ge> i. fini \<le> t_start (obs n)", OF _ assms])
  fix loop fini obs i out r
  assume IH: "\<And>fini obs i out r. loop fini obs i out = Some r \<Longrightarrow> \<exists>n \<ge> i. fini \<le> t_start (obs n)"
    and body: "(if fini \<le> t_start (obs i) then Some out else loop fini obs (Suc i) (out @ round_lines (obs i))) = Some r"
  show "\<exists>n \<ge> i. fini \<le> t_start (obs n)"
    using body IH [of fini obs "Suc i" "out @ round_lines (obs i)" r]
    by (auto split: if_splits intro: Suc_leD)
qed

text \<open>
  Property C26. The demonstration ends exactly when the clock passes the end of its 20 seconds at the top of a
  round, and then its output is fixed by what it observed: the last calibration sample, one line for
  each of the 23 timeouts from 1 to \<open>2 ^ 22\<close> nanoseconds (the loop variable never overflows), and the lines of
  the rounds before the end.
\<close>

theorem mwait_main_output:
  assumes "HasMWAIT getisax \<noteq> 0"
  shows "(mwait_main getisax clk obs \<noteq> None \<longleftrightarrow> (\<exists>n. clk 480 + 20000000000 \<le> t_start (obs n))) \<and>
    ((\<forall>i < n. t_start (obs i) < clk 480 + 20000000000) \<and> clk 480 + 20000000000 \<le> t_start (obs n) \<longrightarrow>
      mwait_main getisax clk obs = Some (
        [Clock_latency (clk 19 - clk 18), Single_threaded] @
        map (\<lambda>i. Trial (2 ^ i) (trial_samples clk (clk 19 - clk 18) 10 (20 + 20 * i))) [0..<23] @
        [Blank, Two_threads] @ concat (map (\<lambda>i. round_lines (obs i)) [0..<n]) @ [Finished]))"
proof -
  let ?fini = "clk 480 + 20000000000"
  have dx: "calibrate clk 10 0 0 = clk 19 - clk 18" using calibrate_last [of clk 9 0 0] by simp
  have tr: "trials clk dx 1 20 = map (\<lambda>i. Trial (2 ^ i) (trial_samples clk dx 10 (20 + 20 * i))) [0..<23]" for dx
    using trials_doubles [of clk dx 0 20] by simp
  have main: "mwait_main getisax clk obs = map_option (\<lambda>out. out @ [Finished]) (measure_loop ?fini obs 0
      ([Clock_latency (clk 19 - clk 18), Single_threaded] @
        map (\<lambda>i. Trial (2 ^ i) (trial_samples clk (clk 19 - clk 18) 10 (20 + 20 * i))) [0..<23] @ [Blank, Two_threads]))"
    using assms by (simp only: mwait_main_def dx tr Let_def) simp
  have "mwait_main getisax clk obs \<noteq> None" if "\<exists>n. ?fini \<le> t_start (obs n)"
  proof -
    from that have "?fini \<le> t_start (obs (LEAST n. ?fini \<le> t_start (obs n)))" by (rule LeastI_ex)
    moreover have "\<forall>i < (LEAST n. ?fini \<le> t_start (obs n)). t_start (obs i) < ?fini"
      using not_less_Least by fastforce
    ultimately show ?thesis using measure_loop_rounds unfolding main by fastforce
  qed
  moreover have "\<exists>n. ?fini \<le> t_start (obs n)" if "mwait_main getisax clk obs \<noteq> None"
    using that measure_loop_needs_end unfolding main by blast
  moreover have "mwait_main getisax clk obs = Some (
        [Clock_latency (clk 19 - clk 18), Single_threaded] @
        map (\<lambda>i. Trial (2 ^ i) (trial_samples clk (clk 19 - clk 18) 10 (20 + 20 * i))) [0..<23] @
        [Blank, Two_threads] @ concat (map (\<lambda>i. round_lines (obs i)) [0..<n]) @ [Finished])"
    if "\<forall>i < n. t_start (obs i) < ?fini" "?fini \<le> t_start (obs n)"
    unfolding main measure_loop_rounds [OF that le0] by simp
  ultimately show ?thesis by blast
qed

definition demo_clock :: "nat \<Rightarrow> int" where
  "demo_clock i = int i"

definition demo_rounds :: "nat \<Rightarrow> observation" where
  "demo_rounds i = \<lparr>t_start = 1000 + int i * 30000000000, cmp = 3, loaded = 3, t_done = 2000, checked = 4,
     update_time = 1900, last_read = 4\<rparr>"

theorem mwait_main_output_witness:
  "mwait_main (\<lambda>_. [0, 0x10]) demo_clock demo_rounds = Some (
     [Clock_latency 1, Single_threaded] @ map (\<lambda>i. Trial (2 ^ i) (trial_samples demo_clock 1 10 (20 + 20 * i))) [0..<23] @
     [Blank, Two_threads, Latency 100, Short_wait 1000 0 3 4, Finished])"
proof -
  have has: "HasMWAIT (\<lambda>_. [0, 0x10]) \<noteq> 0" by (simp add: HasMWAIT_def AV2_SPARC_MWAIT_def)
  have "round_lines (demo_rounds 0) = [Latency 100, Short_wait 1000 0 3 4]"
    by (simp add: round_lines_def round_result_def demo_rounds_def MWAITWhileEqual32_value MaxMWait_def)
  with mwait_main_output [OF has, where clk = demo_clock and obs = demo_rounds and n = 1] show ?thesis
    by (simp add: demo_clock_def demo_rounds_def del: upt_rec_numeral)
qed

text \<open>
  A latency can be negative: the clock is read before the test for a change, so an update that the other thread makes
  in between is counted with a time that is later than the end of the wait.
\<close>

theorem latency_before_update:
  assumes "t_done ob < u" "updater_step u (u0, cmp ob) = (update_time ob, checked ob)"
  shows "\<exists>l < 0. Latency l \<in> set (round_lines ob)"
  using assms by (intro exI [of _ "t_done ob - u"]) (auto simp: round_lines_def updater_step_def Let_def)

end
