(* ===== verification/Utility.thy ===== *)
theory Utility
  imports Prelude
begin

text \<open>
  The inline helpers of \<^verbatim>\<open>lockless_pipe/Utility.h\<close>: bit arrays in network order (bit 0
  is the most significant bit of byte 0), the round-robin increment, alignment and the
  one-letter renderings of booleans. Memory that the bit functions are given is a byte list;
  an access past its end is \<open>None\<close>.
\<close>

subsection \<open>Definitions\<close>

definition bool2YN :: "bool \<Rightarrow> char" where
  "bool2YN b = (if b then CHR ''Y'' else CHR ''N'')"

definition bool2yn :: "bool \<Rightarrow> char" where
  "bool2yn b = (if b then CHR ''y'' else CHR ''n'')"

definition bool2TF :: "bool \<Rightarrow> char" where
  "bool2TF b = (if b then CHR ''T'' else CHR ''F'')"

definition bool2tf :: "bool \<Rightarrow> char" where
  "bool2tf b = (if b then CHR ''t'' else CHR ''f'')"

definition bool210 :: "bool \<Rightarrow> char" where
  "bool210 b = (if b then CHR ''1'' else CHR ''0'')"

text \<open>The overload of \<^verbatim>\<open>strip_and_replace\<close> with the default characters. The function that it calls is only declared in the
  header and is the argument \<open>strip\<close>.\<close>

definition strip_and_replace_default ::
  "(nat \<Rightarrow> string \<Rightarrow> char \<Rightarrow> char \<Rightarrow> char \<Rightarrow> bool \<Rightarrow> 'e \<Rightarrow> ('e, string) outcome) \<Rightarrow>
    nat \<Rightarrow> string \<Rightarrow> 'e \<Rightarrow> ('e, string) outcome" where
  "strip_and_replace_default strip size_of_to from_str e =
     strip size_of_to from_str (CHR 0x5C) (CHR ''*'') (CHR 0xFF) False e"

text \<open>The shifts are done in \<^verbatim>\<open>int\<close> and the result stored in \<^verbatim>\<open>uint8_t\<close>.\<close>

definition bit_mask :: "u32 \<Rightarrow> u8" where
  "bit_mask nr = ucast (drop_bit (unat (nr AND 7)) (push_bit 7 (1 :: u32)))"

definition bit_byte :: "u32 \<Rightarrow> nat" where
  "bit_byte nr = unat (drop_bit 3 nr)"

definition modify_byte :: "(u8 \<Rightarrow> u8) \<Rightarrow> bytes \<Rightarrow> nat \<Rightarrow> bytes option" where
  "modify_byte f addr i = (if i < length addr then Some (addr[i := f (addr ! i)]) else None)"

definition set_bit_at :: "bytes \<Rightarrow> u32 \<Rightarrow> bytes option" where
  "set_bit_at addr nr = modify_byte (\<lambda>b. b OR bit_mask nr) addr (bit_byte nr)"

text \<open>\<^verbatim>\<open>-set\<close> is the integer \<open>-1\<close> or \<open>0\<close>.\<close>

definition assign_bit_at :: "bytes \<Rightarrow> u32 \<Rightarrow> bool \<Rightarrow> bytes option" where
  "assign_bit_at addr nr b =
     modify_byte (\<lambda>x. (x AND NOT (bit_mask nr)) OR ((if b then - 1 else 0) AND bit_mask nr))
       addr (bit_byte nr)"

definition clr_bit_at :: "bytes \<Rightarrow> u32 \<Rightarrow> bytes option" where
  "clr_bit_at addr nr = modify_byte (\<lambda>b. b AND NOT (bit_mask nr)) addr (bit_byte nr)"

definition test_bit_at :: "bytes \<Rightarrow> u32 \<Rightarrow> bool option" where
  "test_bit_at addr nr =
     (if bit_byte nr < length addr then Some (addr ! bit_byte nr AND bit_mask nr \<noteq> 0) else None)"

text \<open>\<open>'a\<close> is the \<^verbatim>\<open>DataType\<close> of the template and \<open>'b\<close> its \<^verbatim>\<open>MaxValueType\<close>, both
  unsigned.\<close>

definition round_robin :: "'a::len word \<Rightarrow> 'b::len word \<Rightarrow> 'a word" where
  "round_robin d maxValue = (let d = d + 1 in if d \<ge> ucast maxValue then 0 else d)"

text \<open>\<^verbatim>\<open>CT_ASSERT(PowerOfTwo, ...)\<close> is checked when the template is instantiated.\<close>

definition PowerOfTwo :: "u64 \<Rightarrow> bool" where
  "PowerOfTwo Size \<longleftrightarrow> Size AND (Size - 1) = 0"

definition align_up :: "u64 \<Rightarrow> u64 \<Rightarrow> u64" where
  "align_up Size v = (v + (Size - 1)) AND NOT (Size - 1)"

subsection \<open>Bit arrays\<close>

text \<open>The contract of an array of bits with a fixed domain.\<close>

locale bit_array =
  fixes get :: "'m \<Rightarrow> 'i \<Rightarrow> bool option" and put :: "'m \<Rightarrow> 'i \<Rightarrow> bool \<Rightarrow> 'm option"
  assumes put_defined: "put m i b \<noteq> None \<longleftrightarrow> get m i \<noteq> None"
    and get_put: "put m i b = Some m' \<Longrightarrow> get m' j = (if j = i then Some b else get m j)"
begin

lemma put_put: "put m i b = Some m' \<Longrightarrow> put m' i b' = Some m'' \<Longrightarrow>
    get m'' j = (if j = i then Some b' else get m j)"
  using get_put [of m i b m' j] get_put [of m' i b' m'' j] by simp

lemma put_commute:
  assumes "i \<noteq> j" "put m i b = Some m1" "put m1 j b' = Some m2" "put m j b' = Some n1" "put n1 i b = Some n2"
  shows "get m2 k = get n2 k"
  using assms(1) get_put [OF assms(2)] get_put [OF assms(3)] get_put [OF assms(4)] get_put [OF assms(5)]
  by auto

end

lemma unat_and_7: "unat (nr AND 7 :: u32) = unat nr mod 8"
proof -
  have "(7 :: u32) = mask 3" by (simp add: mask_eq_exp_minus_1)
  then have "nr AND 7 = take_bit 3 nr" by (simp add: take_bit_eq_mask)
  then show ?thesis by (simp add: unsigned_take_bit_eq take_bit_eq_mod unat_mod)
qed

lemma bit_byte_div: "bit_byte nr = unat nr div 8"
  by (simp add: bit_byte_def unsigned_drop_bit_eq drop_bit_eq_div unat_div)

lemma bit_bit_mask: "bit (bit_mask nr) n \<longleftrightarrow> n = 7 - unat nr mod 8"
proof -
  have "unat nr mod 8 < 8" by simp
  then have le: "unat nr mod 8 \<le> 7" by linarith
  have p: "bit (push_bit 7 (1 :: u32)) k \<longleftrightarrow> k = 7" for k
    unfolding push_bit_of_1 bit_exp_iff by auto
  have "bit (bit_mask nr) n \<longleftrightarrow> n < 8 \<and> unat nr mod 8 + n = 7"
    unfolding bit_mask_def unat_and_7 bit_ucast_iff bit_drop_bit_eq comp_def p by auto
  also have "\<dots> \<longleftrightarrow> n = 7 - unat nr mod 8" using le by auto
  finally show ?thesis .
qed

lemma and_mask_nonzero: "b AND bit_mask nr \<noteq> 0 \<longleftrightarrow> bit b (7 - unat nr mod 8)"
proof
  assume "b AND bit_mask nr \<noteq> 0"
  then obtain n where "bit (b AND bit_mask nr) n" using bit_eq_iff [of "b AND bit_mask nr" 0] by auto
  then show "bit b (7 - unat nr mod 8)" by (auto simp: bit_and_iff bit_bit_mask)
next
  assume "bit b (7 - unat nr mod 8)"
  then have "bit (b AND bit_mask nr) (7 - unat nr mod 8)" by (simp add: bit_and_iff bit_bit_mask)
  then show "b AND bit_mask nr \<noteq> 0" by auto
qed

lemma test_bit_at_bit:
  "test_bit_at addr nr =
     (if bit_byte nr < length addr then Some (bit (addr ! bit_byte nr) (7 - unat nr mod 8)) else None)"
  by (simp add: test_bit_at_def and_mask_nonzero)

lemma same_position: "bit_byte i = bit_byte j \<Longrightarrow> 7 - unat i mod 8 = 7 - unat j mod 8 \<Longrightarrow> i = j"
proof -
  assume "bit_byte i = bit_byte j" "7 - unat i mod 8 = 7 - unat j mod 8"
  moreover have "unat i mod 8 < 8" "unat j mod 8 < 8" by simp_all
  ultimately have "unat i div 8 = unat j div 8" "unat i mod 8 = unat j mod 8"
    by (auto simp: bit_byte_div)
  then have "unat i = unat j" by (metis div_mult_mod_eq)
  then show "i = j" by (rule unsigned_word_eqI)
qed

lemma bit_position_less [simp]: "7 - unat nr mod 8 < LENGTH(8)"
  by simp

lemma bit_assigned_byte:
  "bit ((x AND NOT (bit_mask i)) OR ((if b then - 1 else 0) AND bit_mask i)) n =
     (if n = 7 - unat i mod 8 then b else bit x n)" for x :: u8
  by (cases "n < 8") (auto simp: bit_and_iff bit_or_iff bit_not_iff bit_bit_mask dest: bit_imp_le_length)

lemma test_assigned:
  assumes "assign_bit_at m i b = Some m'"
  shows "test_bit_at m' j = (if j = i then Some b else test_bit_at m j)"
proof -
  let ?x = "m ! bit_byte i"
  let ?y = "(?x AND NOT (bit_mask i)) OR ((if b then - 1 else 0) AND bit_mask i)"
  have m': "bit_byte i < length m" "m' = m[bit_byte i := ?y]"
    using assms by (simp_all add: assign_bit_at_def modify_byte_def split: if_splits)
  have y: "bit ?y (7 - unat j mod 8) = (if j = i then b else bit ?x (7 - unat j mod 8))"
    if "bit_byte j = bit_byte i"
    unfolding bit_assigned_byte using same_position [of j i] that by auto
  show ?thesis
  proof (cases "bit_byte j = bit_byte i")
    case True
    with m' have "test_bit_at m' j = Some (bit ?y (7 - unat j mod 8))"
      by (simp add: test_bit_at_bit del: bit_or_iff bit_and_iff)
    also have "\<dots> = (if j = i then Some b else test_bit_at m j)"
      using True m'(1) by (simp only: y [OF True]) (simp add: test_bit_at_bit)
    finally show ?thesis .
  next
    case False
    with m' show ?thesis by (auto simp: test_bit_at_bit)
  qed
qed

interpretation bit_memory: bit_array test_bit_at assign_bit_at
  by unfold_locales
    (simp_all add: assign_bit_at_def modify_byte_def test_bit_at_def test_assigned [unfolded assign_bit_at_def modify_byte_def test_bit_at_def])

lemma set_bit_is_assign: "set_bit_at m i = assign_bit_at m i True"
proof -
  have "b OR bit_mask i = (b AND NOT (bit_mask i)) OR (- 1 AND bit_mask i)" for b
    by (rule bit_word_eqI) (auto simp: bit_simps)
  then show ?thesis by (simp add: set_bit_at_def assign_bit_at_def)
qed

lemma clr_bit_is_assign: "clr_bit_at m i = assign_bit_at m i False"
  by (simp add: clr_bit_at_def assign_bit_at_def)

text \<open>
  Property C29. The bit functions implement an array of bits in network order: setting, clearing or
  assigning bit \<open>i\<close> succeeds exactly when the bit lies in the memory, changes what the test
  function reports at \<open>i\<close> and at no other position, and the tested bit is bit
  \<open>7 - i mod 8\<close> of byte \<open>i div 8\<close>.
\<close>

theorem bit_array_laws:
  "(set_bit_at m i = Some m' \<longrightarrow> test_bit_at m' j = (if j = i then Some True else test_bit_at m j)) \<and>
   (clr_bit_at m i = Some m' \<longrightarrow> test_bit_at m' j = (if j = i then Some False else test_bit_at m j)) \<and>
   (assign_bit_at m i b = Some m' \<longrightarrow> test_bit_at m' j = (if j = i then Some b else test_bit_at m j)) \<and>
   (assign_bit_at m i b \<noteq> None \<longleftrightarrow> unat i div 8 < length m) \<and>
   (unat i div 8 < length m \<longrightarrow> test_bit_at m i = Some (bit (m ! (unat i div 8)) (7 - unat i mod 8)))"
  using bit_memory.get_put [of m i True m' j] bit_memory.get_put [of m i False m' j]
    bit_memory.get_put [of m i b m' j] bit_memory.put_defined [of m i b]
  by (simp add: set_bit_is_assign clr_bit_is_assign test_bit_at_bit bit_byte_div)

theorem bit_array_laws_witness:
  "set_bit_at [0, 0] 9 = Some [0, 64] \<and> test_bit_at [0, 64] 9 = Some True \<and>
   test_bit_at [0, 64] 3 = test_bit_at [0, 0] 3"
proof -
  have "set_bit_at [0, 0] 9 = Some [0, 64]" by code_simp
  with bit_array_laws [of "[0, 0]" 9 "[0, 64]" 9] bit_array_laws [of "[0, 0]" 9 "[0, 64]" 3]
  show ?thesis by simp
qed

subsection \<open>Round robin\<close>

lemma unat_round_robin:
  fixes d m :: "'a::len word"
  assumes "d < m"
  shows "unat (round_robin d m) = (unat d + 1) mod unat m"
proof -
  from assms have less: "unat d + 1 \<le> unat m" by (simp add: word_less_nat_alt)
  then have "unat d + unat (1 :: 'a word) < 2 ^ LENGTH('a)"
    using unsigned_less [of m, where 'a = nat] by (simp only: unsigned_1)
  then have "unat (d + 1) = unat d + 1" by (simp add: unat_add_no_overflow)
  with less show ?thesis
    by (auto simp: round_robin_def Let_def word_le_nat_alt mod_if)
qed

text \<open>
  Calling \<^verbatim>\<open>round_robin\<close> repeatedly walks the indices below the bound cyclically:
  \<open>n\<close> calls from an index \<open>d\<close> below \<open>m\<close> give \<open>(d + n) mod m\<close>, at the full width of
  the data type, so \<open>m\<close> calls return to the start and every index is always below the bound.
\<close>

theorem round_robin_cycles:
  fixes d m :: "'a::len word"
  assumes "d < m"
  shows "unat (((\<lambda>x. round_robin x m) ^^ n) d) = (unat d + n) mod unat m \<and>
         ((\<lambda>x. round_robin x m) ^^ n) d < m"
proof (induction n)
  case 0
  from assms show ?case by (simp add: word_less_nat_alt)
next
  case (Suc n)
  let ?x = "((\<lambda>x. round_robin x m) ^^ n) d"
  from Suc have "unat (round_robin ?x m) = ((unat d + n) mod unat m + 1) mod unat m"
    by (simp add: unat_round_robin)
  then have "unat (round_robin ?x m) = (unat d + Suc n) mod unat m"
    by (simp add: mod_simps)
  moreover from assms have "0 < unat m" by (simp add: word_less_nat_alt)
  ultimately show ?case by (simp add: word_less_nat_alt)
qed

theorem round_robin_cycles_witness:
  "(2 :: u8) < 5 \<and> unat (((\<lambda>x. round_robin x (5 :: u8)) ^^ 9) (2 :: u8)) = 1"
  using round_robin_cycles [of "2 :: u8" 5 9] by simp

subsection \<open>Alignment\<close>

lemma and_pred_zero_power:
  "0 < n \<Longrightarrow> n AND (n - 1) = 0 \<Longrightarrow> \<exists>k. n = 2 ^ k" for n :: nat
proof (induction n rule: less_induct)
  case (less n)
  show ?case
  proof (cases "even n")
    case True
    then obtain m where m: "n = 2 * m" by blast
    with less.prems(1) have "0 < m" "(n - 1) div 2 = m - 1" by auto
    moreover have "n AND (n - 1) = 2 * (m AND (m - 1))"
      using m calculation by (subst and_rec) simp
    moreover have "m < n" using m \<open>0 < m\<close> by simp
    ultimately obtain k where "m = 2 ^ k"
      using less.IH [of m] less.prems(2) by (auto simp del: One_nat_def)
    with m have "n = 2 ^ Suc k" by simp
    then show ?thesis by blast
  next
    case False
    then obtain m where m: "n = 2 * m + 1" by (rule oddE)
    then have "n AND (n - 1) = 2 * m" by (subst and_rec) simp
    with less.prems(2) m have "n = 2 ^ 0" by simp
    then show ?thesis by blast
  qed
qed

lemma unat_two_power: "k < 64 \<Longrightarrow> unat (2 ^ k :: u64) = 2 ^ k"
  using unsigned_of_nat [of "2 ^ k", where 'b = 64 and 'a = nat] by (simp add: take_bit_nat_eq_self)

lemma power_of_two_cases:
  assumes "PowerOfTwo Size" "Size \<noteq> 0"
  obtains k where "k < 64" "Size = 2 ^ k"
proof -
  have "unat Size AND (unat Size - 1) = 0"
    using assms by (metis PowerOfTwo_def unat_minus_one unsigned_0 unsigned_and_eq)
  with assms(2) obtain k where k: "unat Size = 2 ^ k"
    using and_pred_zero_power [of "unat Size"] by (auto simp: unat_gt_0)
  then have "(2 :: nat) ^ k < 2 ^ 64" using unat_u64_less [of Size] by simp
  then have "k < 64" by (simp only: power_strict_increasing_iff)
  moreover have "Size = 2 ^ k"
    using k unat_two_power [OF \<open>k < 64\<close>] by (metis unsigned_word_eqI)
  ultimately show thesis by (rule that)
qed

lemma and_not_mask_div:
  "unat (x AND NOT (2 ^ k - 1)) = (unat x div 2 ^ k) * 2 ^ k" if "k < 64" for x :: u64
proof -
  have "x AND NOT (mask k) = push_bit k (drop_bit k x)"
    by (rule bit_word_eqI) (auto simp: bit_simps)
  then have "unat (x AND NOT (2 ^ k - 1)) = take_bit 64 (push_bit k (drop_bit k (unat x)))"
    by (simp add: mask_eq_exp_minus_1 unsigned_push_bit_eq unsigned_drop_bit_eq take_bit_nat_eq_self
        unat_u64_less)
  also have "push_bit k (drop_bit k (unat x)) = (unat x div 2 ^ k) * 2 ^ k"
    by (simp add: push_bit_eq_mult drop_bit_eq_div)
  also have "take_bit 64 \<dots> = \<dots>"
  proof (rule take_bit_nat_eq_self)
    have "unat x div 2 ^ k * 2 ^ k \<le> unat x" by (rule div_times_less_eq_dividend)
    also have "unat x < 2 ^ 64" using unat_u64_less [of x] by simp
    finally show "unat x div 2 ^ k * 2 ^ k < 2 ^ 64" .
  qed
  finally show ?thesis .
qed

text \<open>
  For every alignment that passes the compile-time assertion \<^verbatim>\<open>PowerOfTwo\<close> (and is
  not 0, which passes it too), \<^verbatim>\<open>align_up\<close> returns the least multiple of the alignment that is
  not below the value, as long as that multiple fits in 64 bits.
\<close>

theorem align_up_least:
  assumes "PowerOfTwo Size" "Size \<noteq> 0" "unat v + (unat Size - 1) < 2 ^ 64"
  shows "unat Size dvd unat (align_up Size v) \<and> unat v \<le> unat (align_up Size v) \<and>
         unat (align_up Size v) < unat v + unat Size"
proof -
  from assms(1,2) obtain k where k: "k < 64" "Size = 2 ^ k" by (rule power_of_two_cases)
  then have S: "unat Size = 2 ^ k" by (simp add: unat_two_power)
  have "unat (v + (Size - 1)) = unat v + (unat Size - 1)"
    using assms(2,3) by (simp add: unat_add_no_overflow unat_minus_one)
  then have "unat (align_up Size v) = ((unat v + (2 ^ k - 1)) div 2 ^ k) * 2 ^ k"
    unfolding align_up_def using and_not_mask_div [OF k(1), of "v + (Size - 1)"] k(2) S by simp
  moreover have "(unat v + (2 ^ k - 1)) div 2 ^ k * 2 ^ k + (unat v + (2 ^ k - 1)) mod 2 ^ k = unat v + (2 ^ k - 1)"
    by (rule div_mult_mod_eq)
  moreover have "(unat v + (2 ^ k - 1)) mod 2 ^ k < 2 ^ k" "(0 :: nat) < 2 ^ k" by simp_all
  ultimately show ?thesis unfolding S by (intro conjI) (simp, linarith+)
qed

theorem align_up_least_witness:
  "PowerOfTwo 8 \<and> unat (8 :: u64) dvd unat (align_up 8 13) \<and> unat (13 :: u64) \<le> unat (align_up 8 13)"
proof -
  have "PowerOfTwo 8" by code_simp
  with align_up_least [of 8 13] show ?thesis by simp
qed

end
