(* ===== verification/CString.thy ===== *)
theory CString
  imports Prelude
begin

text \<open>
  The functions of \<^verbatim>\<open><string.h>\<close> that the sources apply to character buffers. A buffer is
  the list of the characters of one object; a read or a write that leaves the object is
  \<open>None\<close>. A C string is the text before the first NUL of its buffer.
\<close>

definition NUL :: char where
  "NUL = CHR 0x00"

subsection \<open>Definitions\<close>

text \<open>The text that a buffer holds, and its length; \<open>None\<close> when no NUL ends it.\<close>

definition c_str :: "char list \<Rightarrow> string option" where
  "c_str b = (if NUL \<in> set b then Some (takeWhile (\<lambda>c. c \<noteq> NUL) b) else None)"

definition strlen :: "char list \<Rightarrow> nat option" where
  "strlen b = map_option length (c_str b)"

definition strcpy :: "char list \<Rightarrow> string \<Rightarrow> char list option" where
  "strcpy b s = memcpy_at 0 (s @ [NUL]) b"

text \<open>\<^verbatim>\<open>strncpy (b + i, s, n)\<close>: the first \<open>n\<close> characters, padded with NULs up to \<open>n\<close>.\<close>

definition strncpy_at :: "nat \<Rightarrow> char list \<Rightarrow> string \<Rightarrow> nat \<Rightarrow> char list option" where
  "strncpy_at i b s n = memcpy_at i (take n s @ replicate (n - length s) NUL) b"

text \<open>\<^verbatim>\<open>strcat\<close> appends at the NUL of the destination, so the destination has to hold a string.\<close>

definition strcat :: "char list \<Rightarrow> string \<Rightarrow> char list option" where
  "strcat b s = (case strlen b of None \<Rightarrow> None | Some n \<Rightarrow> memcpy_at n (s @ [NUL]) b)"

subsection \<open>Lemmas\<close>

named_theorems c_str_simps \<open>the text held by a buffer after a string operation\<close>

lemma c_str_append_NUL [c_str_simps]:
  "NUL \<notin> set s \<Longrightarrow> c_str (s @ NUL # r) = Some s"
  by (simp add: c_str_def) (metis (mono_tags, lifting) append_Nil2 takeWhile.simps(2) takeWhile_append2)

lemma c_str_Some_iff:
  "c_str b = Some s \<longleftrightarrow> NUL \<notin> set s \<and> (\<exists>r. b = s @ NUL # r)"
proof
  assume "c_str b = Some s"
  then have b: "NUL \<in> set b" and s: "s = takeWhile (\<lambda>c. c \<noteq> NUL) b"
    by (auto simp: c_str_def split: if_splits)
  from b have "dropWhile (\<lambda>c. c \<noteq> NUL) b \<noteq> []" by auto
  then obtain c r where cr: "dropWhile (\<lambda>c. c \<noteq> NUL) b = c # r" by (cases "dropWhile (\<lambda>c. c \<noteq> NUL) b") auto
  then have "c = NUL" using hd_dropWhile [of "\<lambda>c. c \<noteq> NUL" b] by simp
  with cr s have "b = s @ NUL # r" by (metis takeWhile_dropWhile_id)
  moreover have "NUL \<notin> set s" unfolding s by (auto dest: set_takeWhileD)
  ultimately show "NUL \<notin> set s \<and> (\<exists>r. b = s @ NUL # r)" by blast
qed (auto simp: c_str_append_NUL)

lemma strlen_Some_iff: "strlen b = Some n \<longleftrightarrow> (\<exists>s. c_str b = Some s \<and> length s = n)"
  by (auto simp: strlen_def)

lemma c_str_length_less: "c_str b = Some s \<Longrightarrow> length s < length b"
  by (auto simp: c_str_Some_iff)

lemma length_strcpy: "strcpy b s = Some b' \<Longrightarrow> length b' = length b"
  by (auto simp: strcpy_def memcpy_at_def blit_def split: if_splits)

lemma c_str_strcpy [c_str_simps]:
  "NUL \<notin> set s \<Longrightarrow> strcpy b s = Some b' \<Longrightarrow> c_str b' = Some s"
  by (auto simp: strcpy_def memcpy_at_def blit_def c_str_append_NUL split: if_splits)

lemma strcpy_defined: "strcpy b s \<noteq> None \<longleftrightarrow> length s < length b"
  by (simp add: strcpy_def memcpy_at_def)

lemma strcat_defined:
  "c_str b = Some t \<Longrightarrow> strcat b s \<noteq> None \<longleftrightarrow> length t + length s < length b"
  by (simp add: strcat_def strlen_def memcpy_at_def)

lemma c_str_strcat [c_str_simps]:
  assumes "c_str b = Some t" "NUL \<notin> set s" "strcat b s = Some b'"
  shows "c_str b' = Some (t @ s)"
proof -
  from assms(1) obtain r where b: "b = t @ NUL # r" "NUL \<notin> set t" by (auto simp: c_str_Some_iff)
  with assms have "b' = blit (length t) (s @ [NUL]) b"
    by (simp add: strcat_def strlen_def memcpy_at_def split: if_splits)
  with b have "b' = (t @ s) @ NUL # drop (length t + length (s @ [NUL])) b" by (simp add: blit_def)
  with b assms(2) c_str_append_NUL [of "t @ s"] show ?thesis by simp
qed

lemma length_strcat: "strcat b s = Some b' \<Longrightarrow> length b' = length b"
  by (auto simp: strcat_def memcpy_at_def blit_def split: if_splits option.splits)

end
