(* ===== verification/StreamingException.thy ===== *)
theory StreamingException
  imports CString
begin

text \<open>
  \<^verbatim>\<open>lockless_pipe/StreamingException.h\<close> and \<^verbatim>\<open>lockless_pipe/Errno.hh\<close>: exceptions with a
  message buffer of 256 characters that stream insertions extend. What an argument of
  \<^verbatim>\<open>operator<<\<close> prints is a \<open>string option\<close>: \<open>None\<close> when its own insertion into the string
  stream throws. A string may contain NULs, where \<^verbatim>\<open>c_str()\<close> cuts it. The text of
  \<^verbatim>\<open>strerror\<close> is a parameter.
\<close>

subsection \<open>StreamingException\<close>

text \<open>The state of the base class is the buffer \<^verbatim>\<open>message_\<close>; the constructors are given the
  uninitialised storage.\<close>

definition MESSAGE_SIZE :: nat where
  "MESSAGE_SIZE = 256"

definition unexpected_text :: string where
  "unexpected_text = ''unexpected exception in StreamingException::operator<<''"

definition stream_append :: "char list \<Rightarrow> string option \<Rightarrow> char list option" where
  "stream_append message v =
     (case strlen message of
        None \<Rightarrow> None
      | Some currMessageSize \<Rightarrow>
          map_option (\<lambda>m. m[MESSAGE_SIZE - 1 := NUL])
            (case v of
               Some text \<Rightarrow> strncpy_at currMessageSize message (takeWhile (\<lambda>c. c \<noteq> NUL) text)
                              (MESSAGE_SIZE - currMessageSize)
             | None \<Rightarrow> strncpy_at currMessageSize message unexpected_text
                              (MESSAGE_SIZE - currMessageSize)))"

definition StreamingException_blank :: "char list \<Rightarrow> char list" where
  "StreamingException_blank storage = storage[0 := NUL]"

definition StreamingException_of :: "char list \<Rightarrow> string option \<Rightarrow> char list option" where
  "StreamingException_of storage v = stream_append (StreamingException_blank storage) v"

definition what :: "char list \<Rightarrow> string option" where
  "what message = c_str message"

text \<open>A chain of insertions \<^verbatim>\<open>e << v1 << v2 << ...\<close>.\<close>

fun stream_all :: "char list \<Rightarrow> string option list \<Rightarrow> char list option" where
  "stream_all m [] = Some m"
| "stream_all m (v # vs) = Option.bind (stream_append m v) (\<lambda>m. stream_all m vs)"

subsection \<open>Errno\<close>

record errno_exception =
  message :: "char list"
  errno_value :: int
  has_extra :: bool

definition errno_base_append :: "errno_exception \<Rightarrow> string option \<Rightarrow> errno_exception option" where
  "errno_base_append e v = map_option (\<lambda>m. e\<lparr>message := m\<rparr>) (stream_append (message e) v)"

text \<open>The insertion of \<^verbatim>\<open>" when "\<close> is a call of the same operator with the flag set.\<close>

function errno_append :: "errno_exception \<Rightarrow> string option \<Rightarrow> errno_exception option" where
  "errno_append e v =
     Option.bind
       (if has_extra e then Some e else errno_append (e\<lparr>has_extra := True\<rparr>) (Some '' when ''))
       (\<lambda>e. errno_base_append e v)"
  by pat_completeness auto

termination
  by (relation "measure (\<lambda>(e, v). if has_extra e then 0 else 1)") auto

declare errno_append.simps [simp del]

definition Errno_default :: "(int \<Rightarrow> string) \<Rightarrow> char list \<Rightarrow> int \<Rightarrow> errno_exception option" where
  "Errno_default strerror storage errno =
     errno_base_append
       \<lparr>message = StreamingException_blank storage, errno_value = errno, has_extra = False\<rparr>
       (Some (strerror errno))"

definition Errno_of :: "(int \<Rightarrow> string) \<Rightarrow> char list \<Rightarrow> int \<Rightarrow> string option \<Rightarrow> errno_exception option" where
  "Errno_of strerror storage err v =
     Option.bind (Errno_default strerror storage err) (\<lambda>e. errno_append e v)"

definition getErrno :: "errno_exception \<Rightarrow> int" where
  "getErrno e = errno_value e"

fun errno_all :: "errno_exception \<Rightarrow> string option list \<Rightarrow> errno_exception option" where
  "errno_all e [] = Some e"
| "errno_all e (v # vs) = Option.bind (errno_append e v) (\<lambda>e. errno_all e vs)"

text \<open>The text of \<^verbatim>\<open>InterruptedInterface\<close>, the base class of the exceptions for interruptions.\<close>

definition InterruptedInterface_what :: string where
  "InterruptedInterface_what = ''InterruptedInterface''"

subsection \<open>The message is the truncated concatenation\<close>

definition rendered :: "string option \<Rightarrow> string" where
  "rendered v = (case v of Some text \<Rightarrow> takeWhile (\<lambda>c. c \<noteq> NUL) text | None \<Rightarrow> unexpected_text)"

text \<open>The buffer has its size and holds the string \<open>t\<close>.\<close>

definition holds :: "char list \<Rightarrow> string \<Rightarrow> bool" where
  "holds m t \<longleftrightarrow> length m = MESSAGE_SIZE \<and> c_str m = Some t"

lemma NUL_not_rendered [simp]: "NUL \<notin> set (rendered v)"
  by (auto simp: rendered_def unexpected_text_def NUL_def dest: set_takeWhileD split: option.split)

lemma holds_length: "holds m t \<Longrightarrow> length t < 256"
  by (auto simp: holds_def MESSAGE_SIZE_def dest: c_str_length_less)

lemma stream_append_rendered:
  "stream_append m v =
     (case strlen m of None \<Rightarrow> None
      | Some n \<Rightarrow> map_option (\<lambda>m. m[255 := NUL]) (strncpy_at n m (rendered v) (256 - n)))"
  by (simp add: stream_append_def rendered_def MESSAGE_SIZE_def split: option.split)

lemma buffer_after_copy:
  assumes "length t < 256" "NUL \<notin> set t" "NUL \<notin> set s" "length b = 256" "take (length t) b = t"
  shows "holds ((blit (length t) (take (256 - length t) s @ replicate (256 - length t - length s) NUL) b)
                [255 := NUL]) (take 255 (t @ s))"
proof -
  let ?s = "take (256 - length t) s @ replicate (256 - length t - length s) NUL"
  let ?b = "t @ ?s"
  have len: "length ?b = 256" using assms(1) by simp
  have "blit (length t) ?s b = ?b" using assms len by (simp add: blit_def)
  moreover have "?b[255 := NUL] = take 255 ?b @ [NUL]"
    using len upd_conv_take_nth_drop [of 255 ?b NUL] by (simp del: append_assoc take_append drop_append)
  moreover have "c_str (take 255 ?b @ [NUL]) = Some (take 255 (t @ s))"
  proof (cases "length (t @ s) < 255")
    case True
    then have "take 255 ?b @ [NUL] = (t @ s) @ NUL # replicate (255 - length (t @ s)) NUL"
      by (simp add: replicate_append_same min_def)
    moreover have "take 255 (t @ s) = t @ s" using True by simp
    moreover have "NUL \<notin> set (t @ s)" using assms(2,3) by simp
    ultimately show ?thesis by (metis c_str_append_NUL)
  next
    case False
    then have "take 255 ?b = take 255 (t @ s)" using assms(1) by (simp add: min_def)
    moreover have "NUL \<notin> set (take 255 (t @ s))"
      using assms(2,3) in_set_takeD [of NUL 255 "t @ s"] by auto
    ultimately show ?thesis by (metis c_str_append_NUL)
  qed
  ultimately show ?thesis using len by (simp add: holds_def MESSAGE_SIZE_def)
qed

lemma stream_append_holds:
  assumes "holds m t"
  obtains m' where "stream_append m v = Some m'" "holds m' (take 255 (t @ rendered v))"
proof -
  from assms have t: "length t < 256" "NUL \<notin> set t" "length m = 256" "take (length t) m = t"
    using holds_length [OF assms] by (auto simp: holds_def MESSAGE_SIZE_def c_str_Some_iff)
  from assms have "strlen m = Some (length t)" by (simp add: holds_def strlen_def)
  moreover have "length t + length (take (256 - length t) (rendered v) @
      replicate (256 - length t - length (rendered v)) NUL) \<le> length m"
    using t by simp
  ultimately show thesis
    using that buffer_after_copy [OF t(1,2) NUL_not_rendered t(3,4), of v]
    by (simp add: stream_append_rendered strncpy_at_def del: length_append)
qed

lemma blank_holds: "length storage = MESSAGE_SIZE \<Longrightarrow> holds (StreamingException_blank storage) []"
  by (cases storage) (auto simp: holds_def StreamingException_blank_def MESSAGE_SIZE_def c_str_def)

lemma stream_all_holds:
  "holds m (take 255 t) \<Longrightarrow>
     \<exists>m'. stream_all m vs = Some m' \<and> holds m' (take 255 (t @ concat (map rendered vs)))"
proof (induction vs arbitrary: m t)
  case (Cons v vs)
  from stream_append_holds [OF Cons.prems, of v] obtain m' where
    m': "stream_append m v = Some m'" "holds m' (take 255 (take 255 t @ rendered v))" by blast
  moreover have "take 255 (take 255 t @ rendered v) = take 255 (t @ rendered v)"
    by (simp add: min_def)
  ultimately show ?case using Cons.IH [of m' "t @ rendered v"] by simp
qed simp

text \<open>
  Property C27. A streaming exception never overruns its buffer and never loses its terminator:
  whatever is streamed into it, in however many insertions (also ones whose own insertion
  throws), every insertion is defined and \<^verbatim>\<open>what()\<close> is the first 255 characters of the
  concatenation of all the texts.
\<close>

theorem streaming_exception_message:
  assumes "length storage = MESSAGE_SIZE"
  shows "Option.bind (StreamingException_of storage v) (\<lambda>m. Option.bind (stream_all m vs) what) =
           Some (take 255 (rendered v @ concat (map rendered vs)))"
proof -
  from stream_append_holds [OF blank_holds [OF assms], of v] obtain m where
    "stream_append (StreamingException_blank storage) v = Some m" "holds m (take 255 (rendered v))"
    by auto
  moreover from stream_all_holds [OF this(2), of vs] obtain m' where
    "stream_all m vs = Some m'" "holds m' (take 255 (rendered v @ concat (map rendered vs)))"
    by auto
  ultimately show ?thesis by (simp add: StreamingException_of_def what_def holds_def)
qed

theorem streaming_exception_message_witness:
  "Option.bind (StreamingException_of (replicate 256 CHR ''x'') (Some ''disk''))
     (\<lambda>m. Option.bind (stream_all m [Some '' full'', None]) what) =
   Some ''disk fullunexpected exception in StreamingException::operator<<''"
  using streaming_exception_message [of "replicate 256 CHR ''x''" "Some ''disk''" "[Some '' full'', None]"]
  by (simp add: MESSAGE_SIZE_def rendered_def unexpected_text_def NUL_def)

lemma errno_base_append_holds:
  assumes "holds (message e) (take 255 t)"
  obtains m where "errno_base_append e v = Some (e\<lparr>message := m\<rparr>)" "holds m (take 255 (t @ rendered v))"
proof -
  from stream_append_holds [OF assms, of v] obtain m where
    "stream_append (message e) v = Some m" "holds m (take 255 (take 255 t @ rendered v))" by blast
  moreover have "take 255 (take 255 t @ rendered v) = take 255 (t @ rendered v)" by (simp add: min_def)
  ultimately show thesis using that by (simp add: errno_base_append_def)
qed

definition errno_prefix :: "errno_exception \<Rightarrow> string" where
  "errno_prefix e = (if has_extra e then [] else '' when '')"

lemma errno_append_extra: "has_extra e \<Longrightarrow> errno_append e v = errno_base_append e v"
  by (subst errno_append.simps) simp

lemma errno_append_first:
  assumes "\<not> has_extra e"
  shows "errno_append e v =
     Option.bind (errno_base_append (e\<lparr>has_extra := True\<rparr>) (Some '' when '')) (\<lambda>e. errno_base_append e v)"
  using assms by (subst errno_append.simps) (simp add: errno_append_extra)

lemma errno_append_holds:
  assumes "holds (message e) (take 255 t)"
  obtains e' where "errno_append e v = Some e'" "has_extra e'" "errno_value e' = errno_value e"
    "holds (message e') (take 255 (t @ errno_prefix e @ rendered v))"
proof (cases "has_extra e")
  case True
  obtain m where m: "errno_base_append e v = Some (e\<lparr>message := m\<rparr>)" "holds m (take 255 (t @ rendered v))"
    by (rule errno_base_append_holds [OF assms])
  show thesis
    by (rule that [of "e\<lparr>message := m\<rparr>"])
      (use True m in \<open>simp_all add: errno_append_extra errno_prefix_def\<close>)
next
  case False
  let ?e = "e\<lparr>has_extra := True\<rparr>"
  have w: "rendered (Some '' when '') = '' when ''" by (simp add: rendered_def NUL_def)
  obtain m where m: "errno_base_append ?e (Some '' when '') = Some (?e\<lparr>message := m\<rparr>)"
    "holds m (take 255 (t @ '' when ''))"
    by (rule errno_base_append_holds [of ?e t "Some '' when ''"]) (use assms w in simp_all)
  obtain m' where m': "errno_base_append (?e\<lparr>message := m\<rparr>) v = Some (?e\<lparr>message := m'\<rparr>)"
    "holds m' (take 255 ((t @ '' when '') @ rendered v))"
    by (rule errno_base_append_holds [of "?e\<lparr>message := m\<rparr>" "t @ '' when ''" v]) (use m(2) in simp_all)
  show thesis
    by (rule that [of "?e\<lparr>message := m'\<rparr>"])
      (use False m m' in \<open>simp_all add: errno_append_first errno_prefix_def\<close>)
qed

lemma errno_all_holds:
  "holds (message e) (take 255 t) \<Longrightarrow> has_extra e \<Longrightarrow>
     \<exists>e'. errno_all e vs = Some e' \<and> errno_value e' = errno_value e \<and>
          holds (message e') (take 255 (t @ concat (map rendered vs)))"
proof (induction vs arbitrary: e t)
  case (Cons v vs)
  from errno_append_holds [OF Cons.prems(1), of v] obtain e' where
    "errno_append e v = Some e'" "has_extra e'" "errno_value e' = errno_value e"
    "holds (message e') (take 255 (t @ errno_prefix e @ rendered v))" by blast
  with Cons.IH [of e' "t @ rendered v"] Cons.prems(2) show ?case by (auto simp: errno_prefix_def)
qed simp

text \<open>
  Property C28. \<^verbatim>\<open>throw Errno(err, a1) << a2 << ...\<close> carries the text of \<^verbatim>\<open>strerror(err)\<close>, then
  \<^verbatim>\<open>" when "\<close> exactly once, then the arguments in order, cut at 255 characters, and
  \<^verbatim>\<open>getErrno()\<close> is the error number it was built with.
\<close>

theorem errno_exception_message:
  assumes "length storage = MESSAGE_SIZE"
  shows "\<exists>e. Option.bind (Errno_of strerror storage err v) (\<lambda>e. errno_all e vs) = Some e \<and>
           getErrno e = err \<and>
           what (message e) = Some (take 255 (rendered (Some (strerror err)) @ '' when '' @
             rendered v @ concat (map rendered vs)))"
proof -
  let ?s = "rendered (Some (strerror err))"
  let ?e0 = "\<lparr>message = StreamingException_blank storage, errno_value = err, has_extra = False\<rparr>"
  obtain m where m: "Errno_default strerror storage err = Some (?e0\<lparr>message := m\<rparr>)" "holds m (take 255 ?s)"
    by (rule errno_base_append_holds [of ?e0 "[]" "Some (strerror err)"])
      (use blank_holds [OF assms] in \<open>simp_all add: Errno_default_def\<close>)
  obtain e1 where e1: "errno_append (?e0\<lparr>message := m\<rparr>) v = Some e1" "has_extra e1"
    "errno_value e1 = err" "holds (message e1) (take 255 (?s @ '' when '' @ rendered v))"
    by (rule errno_append_holds [of "?e0\<lparr>message := m\<rparr>" ?s v]) (use m(2) in \<open>simp_all add: errno_prefix_def\<close>)
  from errno_all_holds [OF this(4,2), of vs] e1 m show ?thesis
    by (auto simp: Errno_of_def getErrno_def what_def holds_def)
qed

theorem errno_exception_message_witness:
  "\<exists>e. Option.bind (Errno_of (\<lambda>_. ''No space'') (replicate 256 CHR ''x'') 28 (Some ''writing ''))
         (\<lambda>e. errno_all e [Some ''f'']) = Some e \<and> getErrno e = 28 \<and>
       what (message e) = Some ''No space when writing f''"
  using errno_exception_message [of "replicate 256 CHR ''x''" "\<lambda>_. ''No space''" 28 "Some ''writing ''" "[Some ''f'']"]
  by (simp add: MESSAGE_SIZE_def rendered_def NUL_def)

end
