(* ===== verification/AioWrite.thy ===== *)
theory AioWrite
  imports Prelude
begin

text \<open>
  The two threads of \<^verbatim>\<open>async_to_sync_writes/aio_write_test.c\<close>: the main thread submits batches
  of asynchronous writes and waits on a condition variable, \<^verbatim>\<open>sig_thread\<close> takes one
  completion signal per write, counts it under the mutex and signals the condition variable. The
  program is a step relation, one rule per access to the shared data and per branch; the kernel
  completes writes in flight at any moment. Every failing call is a rule as well, guarded by
  \<open>faults\<close>, so that a statement about runs without failures sets it to \<open>False\<close>; likewise
  \<open>spurious\<close> allows \<^verbatim>\<open>pthread_cond_wait\<close> to return without a signal.
\<close>

subsection \<open>State\<close>

record aio_config =
  iterations :: nat
  max_aios :: int
  faults :: bool
  spurious :: bool

datatype thread = Main_thread | Sig_thread

text \<open>The positions of the main thread: the two loop heads, the lock, the wait loop, the unlock and
  the join.\<close>

datatype main_pc = M_outer | M_submit | M_lock | M_check | M_waiting | M_relock | M_unlock | M_join | M_done

text \<open>The positions of \<^verbatim>\<open>sig_thread\<close>; \<open>S_final_lock\<close> is the code after the loop.\<close>

datatype sig_pc = S_wait | S_complete | S_lock | S_inc | S_unlock | S_batch | S_needed
  | S_final_lock | S_final_signal | S_final_unlock | S_done

text \<open>
  \<open>ios_completed_per_batch\<close> and \<open>total_ios_completed\<close> are the shared counters,
  \<open>in_flight\<close> counts the writes the kernel still works on, \<open>queued\<close> the completion signals
  not yet taken by \<^verbatim>\<open>sigwaitinfo\<close> and \<open>stops\<close> the pending \<^verbatim>\<open>MYSIG_STOP\<close> signals.
  \<open>submitted\<close> counts the successful calls of \<^verbatim>\<open>aio_write\<close>. \<open>exit_code\<close> is set once the
  process has called \<^verbatim>\<open>exit\<close>.
\<close>

record aio_state =
  main_at :: main_pc
  sig_at :: sig_pc
  outer_i :: int
  inner_j :: int
  mutex :: "thread option"
  ios_completed_per_batch :: int
  total_ios_completed :: int
  submitted :: nat
  in_flight :: nat
  queued :: nat
  stops :: nat
  exit_code :: "int option"

definition aio_start :: aio_state where
  "aio_start = \<lparr>main_at = M_outer, sig_at = S_wait, outer_i = 0, inner_j = 0, mutex = None,
     ios_completed_per_batch = 0, total_ios_completed = 0, submitted = 0, in_flight = 0,
     queued = 0, stops = 0, exit_code = None\<rparr>"

text \<open>\<^verbatim>\<open>sysconf(_SC_AIO_MAX)\<close>, or 512 where it is undefined.\<close>

definition aio_limit :: "int \<Rightarrow> int" where
  "aio_limit sysconf_result = (if sysconf_result = -1 then 512 else sysconf_result)"

text \<open>\<^verbatim>\<open>i < iterations\<close> compares the \<^verbatim>\<open>int\<close> as an \<^verbatim>\<open>unsigned long\<close>; \<^verbatim>\<open>i += max_aios\<close> is
  computed in \<^verbatim>\<open>long\<close> and stored in the \<^verbatim>\<open>int\<close>.\<close>

definition outer_continues :: "aio_config \<Rightarrow> aio_state \<Rightarrow> bool" where
  "outer_continues c s \<longleftrightarrow> outer_i s mod 2 ^ 64 < int (iterations c)"

definition next_i :: "aio_config \<Rightarrow> int \<Rightarrow> int" where
  "next_i c i = signed_take_bit 31 (i + max_aios c)"

text \<open>\<^verbatim>\<open>pthread_cond_signal\<close> wakes the main thread if it waits; it then has to lock again.\<close>

definition cond_signal :: "aio_state \<Rightarrow> aio_state" where
  "cond_signal s = (if main_at s = M_waiting then s\<lparr>main_at := M_relock\<rparr> else s)"

definition batch_pending :: "aio_config \<Rightarrow> aio_state \<Rightarrow> bool" where
  "batch_pending c s \<longleftrightarrow> total_ios_completed s mod max_aios c = 0"

subsection \<open>Steps of the main thread\<close>

inductive main_step :: "aio_config \<Rightarrow> aio_state \<Rightarrow> aio_state \<Rightarrow> bool" for c where
  outer_enter: "main_at s = M_outer \<Longrightarrow> outer_continues c s \<Longrightarrow>
    main_step c s (s\<lparr>main_at := M_submit, inner_j := 0\<rparr>)"
| outer_leave: "main_at s = M_outer \<Longrightarrow> \<not> outer_continues c s \<Longrightarrow> main_step c s (s\<lparr>main_at := M_join\<rparr>)"
| submit: "main_at s = M_submit \<Longrightarrow> inner_j s < max_aios c \<Longrightarrow>
    main_step c s (s\<lparr>inner_j := inner_j s + 1, submitted := submitted s + 1, in_flight := in_flight s + 1\<rparr>)"
| submit_fails: "main_at s = M_submit \<Longrightarrow> inner_j s < max_aios c \<Longrightarrow> faults c \<Longrightarrow>
    main_step c s (s\<lparr>inner_j := inner_j s + 1\<rparr>)"
| submitted_all: "main_at s = M_submit \<Longrightarrow> \<not> inner_j s < max_aios c \<Longrightarrow> main_step c s (s\<lparr>main_at := M_lock\<rparr>)"
| lock: "main_at s = M_lock \<Longrightarrow> mutex s = None \<Longrightarrow>
    main_step c s (s\<lparr>main_at := M_check, mutex := Some Main_thread\<rparr>)"
| lock_fails: "main_at s = M_lock \<Longrightarrow> faults c \<Longrightarrow> main_step c s (s\<lparr>exit_code := Some 1\<rparr>)"
| check_waits: "main_at s = M_check \<Longrightarrow> batch_pending c s \<Longrightarrow>
    main_step c s (s\<lparr>main_at := M_waiting, mutex := None\<rparr>)"
| wait_fails: "main_at s = M_check \<Longrightarrow> batch_pending c s \<Longrightarrow> faults c \<Longrightarrow>
    main_step c s (s\<lparr>exit_code := Some 2\<rparr>)"
| spurious_wakeup: "main_at s = M_waiting \<Longrightarrow> spurious c \<Longrightarrow> main_step c s (s\<lparr>main_at := M_relock\<rparr>)"
| relock: "main_at s = M_relock \<Longrightarrow> mutex s = None \<Longrightarrow>
    main_step c s (s\<lparr>main_at := M_check, mutex := Some Main_thread\<rparr>)"
| check_proceeds: "main_at s = M_check \<Longrightarrow> \<not> batch_pending c s \<Longrightarrow> main_step c s (s\<lparr>main_at := M_unlock\<rparr>)"
| unlock: "main_at s = M_unlock \<Longrightarrow>
    main_step c s (s\<lparr>main_at := M_outer, mutex := None, outer_i := next_i c (outer_i s)\<rparr>)"
| unlock_fails: "main_at s = M_unlock \<Longrightarrow> faults c \<Longrightarrow> main_step c s (s\<lparr>exit_code := Some 1\<rparr>)"
| join: "main_at s = M_join \<Longrightarrow> sig_at s = S_done \<Longrightarrow> main_step c s (s\<lparr>main_at := M_done\<rparr>)"

subsection \<open>Steps of the completion thread\<close>

inductive sig_step :: "aio_config \<Rightarrow> aio_state \<Rightarrow> aio_state \<Rightarrow> bool" for c where
  take_completion: "sig_at s = S_wait \<Longrightarrow> 0 < queued s \<Longrightarrow>
    sig_step c s (s\<lparr>sig_at := S_complete, queued := queued s - 1\<rparr>)"
| take_stop: "sig_at s = S_wait \<Longrightarrow> 0 < stops s \<Longrightarrow>
    sig_step c s (s\<lparr>sig_at := S_done, stops := stops s - 1\<rparr>)"
| sigwait_fails: "sig_at s = S_wait \<Longrightarrow> faults c \<Longrightarrow> sig_step c s (s\<lparr>sig_at := S_final_lock\<rparr>)"
| io_ok: "sig_at s = S_complete \<Longrightarrow>
    sig_step c s (s\<lparr>sig_at := S_lock, ios_completed_per_batch := ios_completed_per_batch s + 1\<rparr>)"
| io_failed: "sig_at s = S_complete \<Longrightarrow> faults c \<Longrightarrow> sig_step c s (s\<lparr>exit_code := Some 9\<rparr>)"
| sig_lock: "sig_at s = S_lock \<Longrightarrow> mutex s = None \<Longrightarrow>
    sig_step c s (s\<lparr>sig_at := S_inc, mutex := Some Sig_thread\<rparr>)"
| sig_lock_fails: "sig_at s = S_lock \<Longrightarrow> faults c \<Longrightarrow> sig_step c s (s\<lparr>exit_code := Some 3\<rparr>)"
| sig_inc: "sig_at s = S_inc \<Longrightarrow>
    sig_step c s (s\<lparr>sig_at := S_unlock, total_ios_completed := total_ios_completed s + 1\<rparr>)"
| sig_unlock: "sig_at s = S_unlock \<Longrightarrow> sig_step c s (s\<lparr>sig_at := S_batch, mutex := None\<rparr>)"
| sig_unlock_fails: "sig_at s = S_unlock \<Longrightarrow> faults c \<Longrightarrow> sig_step c s (s\<lparr>exit_code := Some 4\<rparr>)"
| batch_done: "sig_at s = S_batch \<Longrightarrow> max_aios c \<le> ios_completed_per_batch s \<Longrightarrow>
    sig_step c s (cond_signal (s\<lparr>sig_at := S_needed, ios_completed_per_batch := 0\<rparr>))"
| batch_signal_fails: "sig_at s = S_batch \<Longrightarrow> max_aios c \<le> ios_completed_per_batch s \<Longrightarrow> faults c \<Longrightarrow>
    sig_step c s (s\<lparr>exit_code := Some 8\<rparr>)"
| batch_open: "sig_at s = S_batch \<Longrightarrow> \<not> max_aios c \<le> ios_completed_per_batch s \<Longrightarrow>
    sig_step c s (s\<lparr>sig_at := S_needed\<rparr>)"
| needed_done: "sig_at s = S_needed \<Longrightarrow> int (iterations c) \<le> total_ios_completed s \<Longrightarrow>
    sig_step c s (s\<lparr>sig_at := S_final_lock\<rparr>)"
| needed_more: "sig_at s = S_needed \<Longrightarrow> \<not> int (iterations c) \<le> total_ios_completed s \<Longrightarrow>
    sig_step c s (s\<lparr>sig_at := S_wait\<rparr>)"
| final_lock: "sig_at s = S_final_lock \<Longrightarrow> mutex s = None \<Longrightarrow>
    sig_step c s (s\<lparr>sig_at := S_final_signal, mutex := Some Sig_thread\<rparr>)"
| final_lock_fails: "sig_at s = S_final_lock \<Longrightarrow> faults c \<Longrightarrow> sig_step c s (s\<lparr>exit_code := Some 5\<rparr>)"
| final_signal: "sig_at s = S_final_signal \<Longrightarrow> sig_step c s (cond_signal (s\<lparr>sig_at := S_final_unlock\<rparr>))"
| final_signal_fails: "sig_at s = S_final_signal \<Longrightarrow> faults c \<Longrightarrow> sig_step c s (s\<lparr>exit_code := Some 7\<rparr>)"
| final_unlock: "sig_at s = S_final_unlock \<Longrightarrow> sig_step c s (s\<lparr>sig_at := S_done, mutex := None\<rparr>)"
| final_unlock_fails: "sig_at s = S_final_unlock \<Longrightarrow> faults c \<Longrightarrow> sig_step c s (s\<lparr>exit_code := Some 6\<rparr>)"

subsection \<open>The program\<close>

inductive aio_step :: "aio_config \<Rightarrow> aio_state \<Rightarrow> aio_state \<Rightarrow> bool" for c where
  main: "exit_code s = None \<Longrightarrow> main_at s \<noteq> M_done \<Longrightarrow> main_step c s t \<Longrightarrow> aio_step c s t"
| sig: "exit_code s = None \<Longrightarrow> main_at s \<noteq> M_done \<Longrightarrow> sig_step c s t \<Longrightarrow> aio_step c s t"
| kernel: "exit_code s = None \<Longrightarrow> main_at s \<noteq> M_done \<Longrightarrow> 0 < in_flight s \<Longrightarrow>
    aio_step c s (s\<lparr>in_flight := in_flight s - 1, queued := queued s + 1\<rparr>)"

definition aio_reachable :: "aio_config \<Rightarrow> aio_state \<Rightarrow> bool" where
  "aio_reachable c s \<longleftrightarrow> (aio_step c)\<^sup>*\<^sup>* aio_start s"

subsection \<open>The invariant of every run\<close>

definition main_holding :: "main_pc \<Rightarrow> bool" where
  "main_holding pc \<longleftrightarrow> pc = M_check \<or> pc = M_unlock"

definition sig_holding :: "sig_pc \<Rightarrow> bool" where
  "sig_holding pc \<longleftrightarrow> pc = S_inc \<or> pc = S_unlock \<or> pc = S_final_signal \<or> pc = S_final_unlock"

definition in_hand :: "sig_pc \<Rightarrow> int" where
  "in_hand pc = (if pc = S_complete \<or> pc = S_lock \<or> pc = S_inc then 1 else 0)"

definition mutex_inv :: "aio_state \<Rightarrow> bool" where
  "mutex_inv s \<longleftrightarrow> (mutex s = Some Main_thread) = main_holding (main_at s) \<and>
     (mutex s = Some Sig_thread) = sig_holding (sig_at s)"

definition count_inv :: "aio_state \<Rightarrow> bool" where
  "count_inv s \<longleftrightarrow> 0 \<le> total_ios_completed s \<and> stops s = 0 \<and>
     int (submitted s) = int (in_flight s) + int (queued s) + in_hand (sig_at s) + total_ios_completed s"

definition batch_count :: "int \<Rightarrow> sig_pc \<Rightarrow> int \<Rightarrow> int" where
  "batch_count m pc n =
     (if pc = S_lock \<or> pc = S_inc then n mod m + 1
      else if pc = S_unlock \<or> pc = S_batch then (n - 1) mod m + 1
      else n mod m)"

definition batch_inv :: "aio_config \<Rightarrow> aio_state \<Rightarrow> bool" where
  "batch_inv c s \<longleftrightarrow> ios_completed_per_batch s = batch_count (max_aios c) (sig_at s) (total_ios_completed s) \<and>
     ((sig_at s = S_unlock \<or> sig_at s = S_batch) \<longrightarrow> 0 < total_ios_completed s) \<and>
     (main_at s = M_unlock \<longrightarrow> \<not> batch_pending c s)"

definition aio_inv :: "aio_config \<Rightarrow> aio_state \<Rightarrow> bool" where
  "aio_inv c s \<longleftrightarrow> mutex_inv s \<and> count_inv s \<and> batch_inv c s"

lemmas aio_inv_defs = mutex_inv_def count_inv_def batch_inv_def main_holding_def sig_holding_def
  in_hand_def batch_count_def cond_signal_def batch_pending_def

lemma next_mod:
  fixes t m :: int
  assumes "0 < m"
  shows "t mod m = (if m \<le> (t - 1) mod m + 1 then 0 else (t - 1) mod m + 1)"
proof -
  have step: "t mod m = ((t - 1) mod m + 1) mod m" by (simp add: mod_simps)
  have "(t - 1) mod m < m" "0 \<le> (t - 1) mod m" using assms by simp_all
  then consider "(t - 1) mod m + 1 = m" | "(t - 1) mod m + 1 < m" by linarith
  then show ?thesis
  proof cases
    case 1
    then show ?thesis using step by (simp only: mod_self) simp
  next
    case 2
    then show ?thesis using step \<open>0 \<le> (t - 1) mod m\<close> by simp
  qed
qed

lemma main_step_mutex: "main_step c s t \<Longrightarrow> mutex_inv s \<Longrightarrow> mutex_inv t"
  by (induction rule: main_step.induct) (auto simp: aio_inv_defs)

lemma sig_step_mutex: "sig_step c s t \<Longrightarrow> mutex_inv s \<Longrightarrow> mutex_inv t"
  by (induction rule: sig_step.induct) (auto simp: aio_inv_defs)

lemma main_step_count: "main_step c s t \<Longrightarrow> count_inv s \<Longrightarrow> count_inv t"
  by (induction rule: main_step.induct) (auto simp: aio_inv_defs)

lemma sig_step_count: "sig_step c s t \<Longrightarrow> count_inv s \<Longrightarrow> count_inv t"
  by (induction rule: sig_step.induct) (auto simp: aio_inv_defs)

lemma main_step_batch: "main_step c s t \<Longrightarrow> batch_inv c s \<Longrightarrow> batch_inv c t"
  by (induction rule: main_step.induct) (auto simp: aio_inv_defs)

lemma sig_step_batch:
  assumes "sig_step c s t" "0 < max_aios c" "mutex_inv s" "count_inv s" "batch_inv c s"
  shows "batch_inv c t"
  using assms next_mod [OF assms(2), of "total_ios_completed s"]
  by (induction rule: sig_step.induct) (auto simp: aio_inv_defs split: if_splits)

lemma aio_step_inv:
  assumes "aio_step c s t" "0 < max_aios c" "aio_inv c s"
  shows "aio_inv c t"
  using assms
proof (induction rule: aio_step.induct)
  case (kernel s)
  then show ?case by (auto simp: aio_inv_def aio_inv_defs)
qed (auto simp: aio_inv_def main_step_mutex sig_step_mutex main_step_count sig_step_count
      main_step_batch sig_step_batch)

interpretation aio_system: invariant_system "aio_step c" "\<lambda>s. 0 < max_aios c \<longrightarrow> aio_inv c s" for c
  by unfold_locales (auto intro: aio_step_inv)

lemma aio_start_inv: "aio_inv c aio_start"
  by (simp add: aio_inv_def aio_start_def aio_inv_defs)

lemma aio_reachable_inv: "aio_reachable c s \<Longrightarrow> 0 < max_aios c \<Longrightarrow> aio_inv c s"
  using aio_system.run_keeps [of c aio_start s] aio_start_inv by (simp add: aio_reachable_def)

lemma batch_bounds:
  assumes "aio_inv c s" "0 < max_aios c"
  shows "0 \<le> ios_completed_per_batch s" "ios_completed_per_batch s \<le> max_aios c"
proof -
  have bound: "0 \<le> x mod max_aios c" "x mod max_aios c < max_aios c" for x :: int
    using assms(2) by simp_all
  have "0 \<le> batch_count (max_aios c) (sig_at s) x \<and> batch_count (max_aios c) (sig_at s) x \<le> max_aios c" for x
    using bound(1) [of x] bound(2) [of x] bound(1) [of "x - 1"] bound(2) [of "x - 1"]
    unfolding batch_count_def by (auto simp only: split: if_splits)
  with assms(1) show "0 \<le> ios_completed_per_batch s" "ios_completed_per_batch s \<le> max_aios c"
    by (simp_all add: aio_inv_def batch_inv_def)
qed

text \<open>
  Property C11. In every reachable state of the asynchronous write test, for every interleaving,
  also with failing calls and spurious wakeups: the two threads never hold the mutex together,
  every submitted write is exactly once in flight, queued, in the hands of the completion
  thread or counted, and the per-batch counter is the number of completions since the last
  full batch.
\<close>

theorem aio_counts_every_completion:
  assumes "aio_reachable c s" "0 < max_aios c"
  shows "\<not> (main_holding (main_at s) \<and> sig_holding (sig_at s)) \<and>
     int (submitted s) = int (in_flight s) + int (queued s) + in_hand (sig_at s) + total_ios_completed s \<and>
     (sig_at s = S_wait \<longrightarrow> ios_completed_per_batch s = total_ios_completed s mod max_aios c) \<and>
     0 \<le> ios_completed_per_batch s \<and> ios_completed_per_batch s \<le> max_aios c"
proof -
  from assms have inv: "mutex_inv s" "count_inv s" "batch_inv c s"
    using aio_reachable_inv by (auto simp: aio_inv_def)
  with batch_bounds [OF aio_reachable_inv [OF assms] assms(2)] show ?thesis by (auto simp: mutex_inv_def count_inv_def batch_inv_def batch_count_def)
qed

text \<open>
  The wait condition of the main thread is the negation of the one it needs: it
  leaves the wait loop only while the number of completions is not a multiple of the batch
  size, that is, never at the moment a batch is complete. In particular the message
  \<^verbatim>\<open>I/O batch condition signaled\<close>, which is printed between the loop and the unlock when the
  number is a multiple, is never printed.
\<close>

theorem main_proceeds_inside_a_batch:
  assumes "aio_reachable c s" "0 < max_aios c" "main_at s = M_unlock"
  shows "total_ios_completed s mod max_aios c \<noteq> 0"
  using aio_reachable_inv [OF assms(1,2)] assms(3) by (simp add: aio_inv_def batch_inv_def batch_pending_def)

subsection \<open>Waiting for ever\<close>

text \<open>
  All batches before the current one are complete: at most one batch is outstanding, and a batch
  that is being reported is the current one.
\<close>

definition last_batch_only :: "aio_config \<Rightarrow> aio_state \<Rightarrow> bool" where
  "last_batch_only c s \<longleftrightarrow> max_aios c dvd int (submitted s) \<and> submitted s \<le> iterations c \<and>
     int (submitted s) \<le> total_ios_completed s + max_aios c \<and>
     ((sig_at s = S_unlock \<or> sig_at s = S_batch) \<longrightarrow> int (submitted s) < total_ios_completed s + max_aios c)"

definition stuck_waiting :: "aio_config \<Rightarrow> aio_state \<Rightarrow> bool" where
  "stuck_waiting c s \<longleftrightarrow> last_batch_only c s \<and> exit_code s = None \<and>
     (main_at s = M_waiting \<or>
      (main_at s = M_relock \<or> main_at s = M_check) \<and> total_ios_completed s = int (submitted s))"

definition final_inv :: "aio_config \<Rightarrow> aio_state \<Rightarrow> bool" where
  "final_inv c s \<longleftrightarrow> exit_code s = None \<and> stops s = 0 \<and>
     (sig_at s \<in> {S_final_lock, S_final_signal, S_final_unlock, S_done} \<longrightarrow>
        int (iterations c) \<le> total_ios_completed s)"

lemma main_step_final: "main_step c s t \<Longrightarrow> \<not> faults c \<Longrightarrow> final_inv c s \<Longrightarrow> final_inv c t"
  by (induction rule: main_step.induct) (auto simp: final_inv_def)

lemma sig_step_final: "sig_step c s t \<Longrightarrow> \<not> faults c \<Longrightarrow> final_inv c s \<Longrightarrow> final_inv c t"
  by (induction rule: sig_step.induct) (auto simp: final_inv_def cond_signal_def)

lemma final_inv_step: "aio_step c s t \<Longrightarrow> \<not> faults c \<Longrightarrow> final_inv c s \<Longrightarrow> final_inv c t"
  by (induction rule: aio_step.induct) (auto simp: main_step_final sig_step_final, simp add: final_inv_def)

lemma full_batch_position:
  fixes t u m :: int
  assumes "0 < m" "m dvd u" "u < t + m" "t \<le> u" "m \<le> (t - 1) mod m + 1"
  shows "t = u"
proof -
  from assms(1,5) next_mod [of m t] have "m dvd t" by (simp add: dvd_eq_mod_eq_0)
  with assms(2) have "m dvd u - t" by (simp add: dvd_diff)
  with assms(1,3,4) show ?thesis using zdvd_not_zless [of "u - t" m] by linarith
qed

lemma main_step_stuck:
  "main_step c s t \<Longrightarrow> \<not> faults c \<Longrightarrow> \<not> spurious c \<Longrightarrow> stuck_waiting c s \<Longrightarrow> stuck_waiting c t"
  by (induction rule: main_step.induct)
    (auto simp: stuck_waiting_def last_batch_only_def batch_pending_def)

lemma completed_le_submitted: "count_inv s \<Longrightarrow> total_ios_completed s + in_hand (sig_at s) \<le> int (submitted s)"
  by (simp add: count_inv_def)

lemma batch_signal_position:
  assumes "0 < max_aios c" "count_inv s" "batch_inv c s" "last_batch_only c s" "sig_at s = S_batch"
    "max_aios c \<le> ios_completed_per_batch s"
  shows "total_ios_completed s = int (submitted s)"
proof (rule full_batch_position [OF assms(1)])
  show "max_aios c \<le> (total_ios_completed s - 1) mod max_aios c + 1"
    using assms(3,5,6) by (simp add: batch_inv_def batch_count_def)
  show "total_ios_completed s \<le> int (submitted s)"
    using completed_le_submitted [OF assms(2)] assms(5) by (simp add: in_hand_def)
qed (use assms(4,5) in \<open>auto simp: last_batch_only_def\<close>)

lemma final_signal_position:
  assumes "count_inv s" "final_inv c s" "last_batch_only c s" "sig_at s = S_final_signal"
  shows "total_ios_completed s = int (submitted s)"
  using assms completed_le_submitted [OF assms(1)]
  by (auto simp: final_inv_def last_batch_only_def in_hand_def)

lemma sig_step_stuck:
  assumes "sig_step c s t" "0 < max_aios c" "\<not> faults c" "stuck_waiting c s" "count_inv s" "batch_inv c s"
    "final_inv c s" "mutex_inv s"
  shows "stuck_waiting c t"
  using assms
proof (induction rule: sig_step.induct)
  case (batch_done s)
  then have "total_ios_completed s = int (submitted s)"
    using batch_signal_position by (simp add: stuck_waiting_def)
  with batch_done show ?case by (auto simp: stuck_waiting_def last_batch_only_def cond_signal_def)
next
  case (final_signal s)
  then have "total_ios_completed s = int (submitted s)"
    using final_signal_position by (simp add: stuck_waiting_def)
  with final_signal show ?case by (auto simp: stuck_waiting_def last_batch_only_def cond_signal_def)
next
  case (sig_inc s)
  then have "total_ios_completed s + 1 \<le> int (submitted s)"
    using completed_le_submitted [of s] by (simp add: in_hand_def)
  with sig_inc show ?case by (auto simp: stuck_waiting_def last_batch_only_def)
qed (auto simp: stuck_waiting_def last_batch_only_def final_inv_def)

definition stuck_inv :: "aio_config \<Rightarrow> aio_state \<Rightarrow> bool" where
  "stuck_inv c s \<longleftrightarrow> aio_inv c s \<and> final_inv c s \<and> stuck_waiting c s"

lemma stuck_inv_step:
  assumes "aio_step c s t" "0 < max_aios c" "\<not> faults c" "\<not> spurious c" "stuck_inv c s"
  shows "stuck_inv c t"
proof -
  from assms(5) have inv: "aio_inv c s" "final_inv c s" "stuck_waiting c s" by (simp_all add: stuck_inv_def)
  have "stuck_waiting c t"
    using assms(1)
  proof cases
    case kernel
    with inv(3) show ?thesis by (simp add: stuck_waiting_def last_batch_only_def)
  qed (use assms inv in \<open>auto simp: aio_inv_def intro: main_step_stuck sig_step_stuck\<close>)
  with assms inv show ?thesis by (simp add: stuck_inv_def aio_step_inv final_inv_step)
qed

interpretation stuck_system: invariant_system "aio_step c"
    "\<lambda>s. 0 < max_aios c \<and> \<not> faults c \<and> \<not> spurious c \<and> stuck_inv c s" for c
  by unfold_locales (auto intro: stuck_inv_step)

interpretation final_system: invariant_system "aio_step c" "\<lambda>s. \<not> faults c \<and> final_inv c s" for c
  by unfold_locales (auto intro: final_inv_step)

lemma reachable_final: "aio_reachable c s \<Longrightarrow> \<not> faults c \<Longrightarrow> final_inv c s"
  using final_system.run_keeps [of c aio_start s]
  by (simp add: aio_reachable_def final_inv_def aio_start_def)

text \<open>
  Property C13. The main thread waits for ever, when the file needs at least all the writes submitted so far: suppose it waits on the
  condition variable, has submitted whole batches and no more writes than the file needs (\<open>submitted \<le> iterations\<close>), and all
  batches before the current one are counted and reported (as in the first batch of a file of at least one batch). Then in a run without
  failing calls and without spurious wakeups it never leaves the wait loop again, although
  every write of the batch completes and is counted. The signals it gets are sent when the
  batch is complete, where its condition sends it back to waiting. (When the current batch has more
  writes than the file still needs, the completion thread sends its last signal inside the batch and the main
  thread goes on; that is the case of the short runs.)
\<close>

theorem waits_for_ever:
  assumes "aio_reachable c s" "0 < max_aios c" "\<not> faults c" "\<not> spurious c"
    and "main_at s = M_waiting" "max_aios c dvd int (submitted s)" "submitted s \<le> iterations c"
    and "int (submitted s) \<le> total_ios_completed s + max_aios c"
    and "sig_at s = S_unlock \<or> sig_at s = S_batch \<Longrightarrow> int (submitted s) < total_ios_completed s + max_aios c"
    and "(aio_step c)\<^sup>*\<^sup>* s t"
  shows "main_at t \<in> {M_waiting, M_relock, M_check} \<and> exit_code t = None"
proof -
  from assms(6-9) have "last_batch_only c s" by (simp add: last_batch_only_def)
  with assms(1-5) have "stuck_inv c s"
    using aio_reachable_inv reachable_final
    by (simp add: stuck_inv_def stuck_waiting_def final_inv_def)
  with stuck_system.run_keeps [OF assms(10)] assms(2-4) have "stuck_inv c t" by simp
  then show ?thesis by (auto simp: stuck_inv_def stuck_waiting_def)
qed

text \<open>The run in which the main thread submits its first batch before any write completes.\<close>

definition submitting :: "nat \<Rightarrow> aio_state" where
  "submitting k = aio_start\<lparr>main_at := M_submit, inner_j := int k, submitted := k, in_flight := k\<rparr>"

definition first_wait :: "aio_config \<Rightarrow> aio_state" where
  "first_wait c = (submitting (nat (max_aios c)))\<lparr>main_at := M_waiting\<rparr>"

lemma enter_first_batch:
  assumes "0 < iterations c"
  shows "aio_step c aio_start (submitting 0)"
proof -
  have "main_step c aio_start (aio_start\<lparr>main_at := M_submit, inner_j := 0\<rparr>)"
    by (rule main_step.outer_enter) (use assms in \<open>simp_all add: aio_start_def outer_continues_def\<close>)
  moreover have "aio_start\<lparr>main_at := M_submit, inner_j := 0\<rparr> = submitting 0"
    by (simp add: submitting_def aio_start_def)
  ultimately show ?thesis by (intro aio_step.main) (simp_all add: aio_start_def)
qed

lemma submit_one:
  assumes "int k < max_aios c"
  shows "aio_step c (submitting k) (submitting (Suc k))"
proof -
  let ?s = "submitting k"
  have "main_step c ?s (?s\<lparr>inner_j := inner_j ?s + 1, submitted := submitted ?s + 1, in_flight := in_flight ?s + 1\<rparr>)"
    by (rule main_step.submit) (use assms in \<open>simp_all add: submitting_def\<close>)
  moreover have "?s\<lparr>inner_j := inner_j ?s + 1, submitted := submitted ?s + 1, in_flight := in_flight ?s + 1\<rparr> =
      submitting (Suc k)"
    by (simp add: submitting_def aio_start_def)
  ultimately have "main_step c ?s (submitting (Suc k))" by (simp only:)
  then show ?thesis by (rule aio_step.main [rotated 2]) (simp_all add: submitting_def aio_start_def)
qed

lemma submit_many: "int k \<le> max_aios c \<Longrightarrow> (aio_step c)\<^sup>*\<^sup>* (submitting 0) (submitting k)"
proof (induction k)
  case (Suc k)
  then have "(aio_step c)\<^sup>*\<^sup>* (submitting 0) (submitting k)" "aio_step c (submitting k) (submitting (Suc k))"
    by (simp_all add: submit_one)
  then show ?case by (rule rtranclp.rtrancl_into_rtrancl)
qed simp

lemma all_submitted:
  assumes "max_aios c \<le> int k"
  shows "aio_step c (submitting k) ((submitting k)\<lparr>main_at := M_lock\<rparr>)"
  by (intro aio_step.main main_step.submitted_all) (use assms in \<open>simp_all add: submitting_def aio_start_def\<close>)

lemma lock_and_wait:
  assumes "max_aios c \<le> int k"
  shows "(aio_step c)\<^sup>*\<^sup>* (submitting k) ((submitting k)\<lparr>main_at := M_waiting\<rparr>)"
proof -
  let ?s = "submitting k"
  let ?l = "?s\<lparr>main_at := M_lock\<rparr>"
  let ?c = "?l\<lparr>main_at := M_check, mutex := Some Main_thread\<rparr>"
  let ?w = "?c\<lparr>main_at := M_waiting, mutex := None\<rparr>"
  have "aio_step c ?s ?l" by (rule all_submitted [OF assms])
  moreover have "aio_step c ?l ?c"
    by (intro aio_step.main main_step.lock) (simp_all add: submitting_def aio_start_def)
  moreover have "aio_step c ?c ?w"
    by (intro aio_step.main main_step.check_waits) (simp_all add: submitting_def aio_start_def batch_pending_def)
  moreover have "?w = ?s\<lparr>main_at := M_waiting\<rparr>" by (simp add: submitting_def aio_start_def)
  ultimately show ?thesis by (metis converse_rtranclp_into_rtranclp rtranclp.rtrancl_refl)
qed

lemma first_wait_reachable:
  assumes "0 < iterations c" "0 < max_aios c"
  shows "aio_reachable c (first_wait c)"
proof -
  let ?n = "nat (max_aios c)"
  have "(aio_step c)\<^sup>*\<^sup>* (submitting 0) (submitting ?n)" using assms(2) by (simp add: submit_many)
  moreover have "(aio_step c)\<^sup>*\<^sup>* (submitting ?n) (first_wait c)"
    unfolding first_wait_def using assms(2) by (intro lock_and_wait) simp
  ultimately have "(aio_step c)\<^sup>*\<^sup>* (submitting 0) (first_wait c)" by (rule rtranclp_trans)
  with enter_first_batch [OF assms(1)] show ?thesis
    unfolding aio_reachable_def by (rule converse_rtranclp_into_rtranclp)
qed

text \<open>The main thread waits, and one of its two writes has completed.\<close>

theorem aio_counts_every_completion_witness:
  "\<exists>s. aio_reachable \<lparr>iterations = 4, max_aios = 2, faults = True, spurious = True\<rparr> s \<and> main_at s = M_waiting \<and>
     in_flight s = 1 \<and> queued s = 1 \<and> int (submitted s) = 2 + total_ios_completed s \<and>
     ios_completed_per_batch s = total_ios_completed s mod 2"
proof -
  let ?c = "\<lparr>iterations = 4, max_aios = 2, faults = True, spurious = True\<rparr>"
  let ?s = "(first_wait ?c)\<lparr>in_flight := 1, queued := 1\<rparr>"
  have state: "main_at (first_wait ?c) = M_waiting" "in_flight (first_wait ?c) = 2" "queued (first_wait ?c) = 0"
    "exit_code (first_wait ?c) = None" "sig_at (first_wait ?c) = S_wait"
    by (simp_all add: first_wait_def submitting_def aio_start_def)
  then have "aio_step ?c (first_wait ?c) ?s" using aio_step.kernel [of "first_wait ?c" ?c] by simp
  moreover have "aio_reachable ?c (first_wait ?c)" by (rule first_wait_reachable) simp_all
  ultimately have r: "aio_reachable ?c ?s" unfolding aio_reachable_def by (rule rtranclp.rtrancl_into_rtrancl [rotated])
  from aio_counts_every_completion [OF this] state
  have "int (submitted ?s) = 2 + total_ios_completed ?s" "ios_completed_per_batch ?s = total_ios_completed ?s mod 2"
    by (simp_all add: in_hand_def)
  with r state show ?thesis by (intro exI [of _ ?s]) simp
qed

lemma first_wait_batch:
  "0 < max_aios c \<Longrightarrow> max_aios c \<le> int (iterations c) \<Longrightarrow>
     main_at (first_wait c) = M_waiting \<and> last_batch_only c (first_wait c)"
  by (simp add: first_wait_def last_batch_only_def submitting_def aio_start_def)

text \<open>One of the two writes of the batch completes while the main thread waits.\<close>

theorem waits_for_ever_witness:
  "main_at ((first_wait \<lparr>iterations = 4, max_aios = 2, faults = False, spurious = False\<rparr>)\<lparr>in_flight := 1, queued := 1\<rparr>)
     \<in> {M_waiting, M_relock, M_check}"
proof -
  let ?c = "\<lparr>iterations = 4, max_aios = 2, faults = False, spurious = False\<rparr>"
  let ?s = "first_wait ?c"
  have "aio_reachable ?c ?s" by (rule first_wait_reachable) simp_all
  moreover have state: "main_at ?s = M_waiting" "submitted ?s = 2" "total_ios_completed ?s = 0" "sig_at ?s = S_wait"
    "in_flight ?s = 2" "queued ?s = 0" "exit_code ?s = None"
    by (simp_all add: first_wait_def submitting_def aio_start_def)
  moreover have "(aio_step ?c)\<^sup>*\<^sup>* ?s (?s\<lparr>in_flight := 1, queued := 1\<rparr>)"
    using aio_step.kernel [of ?s ?c] state by (simp add: r_into_rtranclp)
  ultimately show ?thesis
    using waits_for_ever [of ?c ?s "?s\<lparr>in_flight := 1, queued := 1\<rparr>"] by simp
qed

text \<open>
  Whenever the file takes at least one full batch, the test can hang: there is a run,
  with no failing call, in which the main thread submits its first batch, locks the mutex before
  a completion is counted and waits, and no continuation of that run without spurious wakeups
  ever returns from the test.
\<close>

theorem full_batch_can_hang:
  assumes "0 < max_aios c" "max_aios c \<le> int (iterations c)" "\<not> faults c" "\<not> spurious c"
  shows "\<exists>s. aio_reachable c s \<and> (\<forall>t. (aio_step c)\<^sup>*\<^sup>* s t \<longrightarrow> main_at t \<noteq> M_done \<and> exit_code t = None)"
proof (intro exI conjI allI impI)
  show r: "aio_reachable c (first_wait c)" using assms by (intro first_wait_reachable) auto
  fix t assume "(aio_step c)\<^sup>*\<^sup>* (first_wait c) t"
  with r assms first_wait_batch [OF assms(1,2)] have "stuck_inv c (first_wait c)"
    using aio_reachable_inv reachable_final
    by (simp add: stuck_inv_def stuck_waiting_def final_inv_def)
  with stuck_system.run_keeps [of c "first_wait c" t] \<open>(aio_step c)\<^sup>*\<^sup>* (first_wait c) t\<close> assms
  have "stuck_inv c t" by simp
  then show "main_at t \<noteq> M_done" "exit_code t = None" by (auto simp: stuck_inv_def stuck_waiting_def)
qed

theorem full_batch_can_hang_witness:
  "\<exists>s. aio_reachable \<lparr>iterations = 4, max_aios = 2, faults = False, spurious = False\<rparr> s"
  using full_batch_can_hang [of "\<lparr>iterations = 4, max_aios = 2, faults = False, spurious = False\<rparr>"] by auto

text \<open>The run in which one write of the first batch is counted before the main thread looks.\<close>

definition one_counted :: "nat \<Rightarrow> aio_state" where
  "one_counted k = (submitting k)\<lparr>main_at := M_lock, sig_at := S_batch, in_flight := k - 1,
     ios_completed_per_batch := 1, total_ios_completed := 1\<rparr>"

lemma count_run:
  assumes "exit_code s = None" "main_at s \<noteq> M_done" "mutex s = None" "sig_at s = S_wait" "queued s = 0" "0 < in_flight s"
  shows "(aio_step c)\<^sup>*\<^sup>* s (s\<lparr>sig_at := S_batch, in_flight := in_flight s - 1,
    ios_completed_per_batch := ios_completed_per_batch s + 1, total_ios_completed := total_ios_completed s + 1\<rparr>)"
proof -
  let ?b = "s\<lparr>in_flight := in_flight s - 1\<rparr>"
  let ?e = "?b\<lparr>ios_completed_per_batch := ios_completed_per_batch s + 1\<rparr>"
  let ?g = "?e\<lparr>total_ios_completed := total_ios_completed s + 1\<rparr>"
  have "aio_step c s (?b\<lparr>queued := 1\<rparr>)" using aio_step.kernel [of s c] assms by simp
  moreover have "aio_step c (?b\<lparr>queued := 1\<rparr>) (?b\<lparr>sig_at := S_complete\<rparr>)"
    using aio_step.sig [OF _ _ sig_step.take_completion, of "?b\<lparr>queued := 1\<rparr>" c] assms by (cases s) simp
  moreover have "aio_step c (?b\<lparr>sig_at := S_complete\<rparr>) (?e\<lparr>sig_at := S_lock\<rparr>)"
    using aio_step.sig [OF _ _ sig_step.io_ok, of "?b\<lparr>sig_at := S_complete\<rparr>" c] assms by (cases s) simp
  moreover have "aio_step c (?e\<lparr>sig_at := S_lock\<rparr>) (?e\<lparr>sig_at := S_inc, mutex := Some Sig_thread\<rparr>)"
    using aio_step.sig [OF _ _ sig_step.sig_lock, of "?e\<lparr>sig_at := S_lock\<rparr>" c] assms by (cases s) simp
  moreover have "aio_step c (?e\<lparr>sig_at := S_inc, mutex := Some Sig_thread\<rparr>)
      (?g\<lparr>sig_at := S_unlock, mutex := Some Sig_thread\<rparr>)"
    using aio_step.sig [OF _ _ sig_step.sig_inc, of "?e\<lparr>sig_at := S_inc, mutex := Some Sig_thread\<rparr>" c] assms by (cases s) simp
  moreover have "aio_step c (?g\<lparr>sig_at := S_unlock, mutex := Some Sig_thread\<rparr>) (s\<lparr>sig_at := S_batch, in_flight := in_flight s - 1,
    ios_completed_per_batch := ios_completed_per_batch s + 1, total_ios_completed := total_ios_completed s + 1\<rparr>)"
    using aio_step.sig [OF _ _ sig_step.sig_unlock, of "?g\<lparr>sig_at := S_unlock, mutex := Some Sig_thread\<rparr>" c] assms by (cases s) simp
  ultimately show ?thesis by (meson converse_rtranclp_into_rtranclp rtranclp.rtrancl_refl)
qed

lemma count_one_run:
  assumes "max_aios c \<le> int k" "0 < k"
  shows "(aio_step c)\<^sup>*\<^sup>* (submitting k) (one_counted k)"
proof -
  let ?a = "(submitting k)\<lparr>main_at := M_lock\<rparr>"
  have "(aio_step c)\<^sup>*\<^sup>* ?a (one_counted k)"
    using count_run [of ?a c] assms(2) by (simp add: submitting_def aio_start_def one_counted_def)
  with all_submitted [OF assms(1)] show ?thesis by (rule converse_rtranclp_into_rtranclp)
qed

lemma proceed_after_one:
  assumes "1 < max_aios c"
  shows "(aio_step c)\<^sup>*\<^sup>* (one_counted k) ((one_counted k)\<lparr>main_at := M_unlock, mutex := Some Main_thread\<rparr>)"
proof -
  let ?s = "one_counted k"
  let ?c = "?s\<lparr>main_at := M_check, mutex := Some Main_thread\<rparr>"
  note state = one_counted_def submitting_def aio_start_def
  have "aio_step c ?s ?c" by (intro aio_step.main main_step.lock) (simp_all add: state)
  moreover have "aio_step c ?c (?c\<lparr>main_at := M_unlock\<rparr>)"
    by (intro aio_step.main main_step.check_proceeds) (use assms in \<open>simp_all add: state batch_pending_def\<close>)
  moreover have "?c\<lparr>main_at := M_unlock\<rparr> = ?s\<lparr>main_at := M_unlock, mutex := Some Main_thread\<rparr>" by simp
  ultimately show ?thesis by (metis converse_rtranclp_into_rtranclp rtranclp.rtrancl_refl)
qed

lemma unlock_reachable:
  assumes "0 < iterations c" "1 < max_aios c"
  shows "aio_reachable c ((one_counted (nat (max_aios c)))\<lparr>main_at := M_unlock, mutex := Some Main_thread\<rparr>)"
proof -
  let ?n = "nat (max_aios c)"
  have "(aio_step c)\<^sup>*\<^sup>* (submitting 0) (submitting ?n)" using assms(2) by (simp add: submit_many)
  moreover have "(aio_step c)\<^sup>*\<^sup>* (submitting ?n) (one_counted ?n)" using assms(2) by (simp add: count_one_run)
  ultimately have "(aio_step c)\<^sup>*\<^sup>* aio_start (one_counted ?n)"
    using enter_first_batch [OF assms(1)] by (meson converse_rtranclp_into_rtranclp rtranclp_trans)
  with proceed_after_one [OF assms(2)] show ?thesis unfolding aio_reachable_def by (rule rtranclp_trans [rotated])
qed

theorem main_proceeds_inside_a_batch_witness:
  "\<exists>s :: aio_state. main_at s = M_unlock \<and> in_flight s = 2 \<and> total_ios_completed s mod 3 \<noteq> 0"
proof -
  let ?c = "\<lparr>iterations = 6, max_aios = 3, faults = False, spurious = False\<rparr>"
  let ?s = "(one_counted 3)\<lparr>main_at := M_unlock, mutex := Some Main_thread\<rparr>"
  have "aio_reachable ?c ?s" using unlock_reachable [of ?c] by simp
  with main_proceeds_inside_a_batch [of ?c ?s] have "total_ios_completed ?s mod 3 \<noteq> 0" by simp
  moreover have "in_flight ?s = 2" by (simp add: one_counted_def)
  moreover have "main_at ?s = M_unlock" by simp
  ultimately show ?thesis by blast
qed

end
