(* ===== verification/AioShortRuns.thy ===== *)
theory AioShortRuns
  imports AioWrite
begin

text \<open>
  The asynchronous write test on files that need fewer writes than one batch submits: here the
  two threads cannot miss each other, and every run ends. The step count is bounded by a rank
  that each step lowers.
\<close>

definition small_config :: "aio_config \<Rightarrow> bool" where
  "small_config c \<longleftrightarrow> 0 < iterations c \<and> int (iterations c) < max_aios c \<and> max_aios c < 2 ^ 31 \<and>
     \<not> faults c \<and> \<not> spurious c"

subsection \<open>The invariant of a short run\<close>

definition submit_inv :: "aio_config \<Rightarrow> aio_state \<Rightarrow> bool" where
  "submit_inv c s \<longleftrightarrow>
     (case main_at s of
        M_outer \<Rightarrow> outer_i s = 0 \<and> submitted s = 0 \<or> outer_i s = max_aios c \<and> int (submitted s) = max_aios c
      | M_submit \<Rightarrow> outer_i s = 0 \<and> inner_j s = int (submitted s) \<and> inner_j s \<le> max_aios c
      | M_join \<Rightarrow> int (submitted s) = max_aios c
      | M_done \<Rightarrow> int (submitted s) = max_aios c
      | _ \<Rightarrow> outer_i s = 0 \<and> int (submitted s) = max_aios c)"

definition needed_inv :: "aio_config \<Rightarrow> aio_state \<Rightarrow> bool" where
  "needed_inv c s \<longleftrightarrow> total_ios_completed s \<le> int (iterations c) \<and>
     (sig_at s \<in> {S_wait, S_complete, S_lock, S_inc} \<longrightarrow> total_ios_completed s < int (iterations c))"

definition wakeup_inv :: "aio_state \<Rightarrow> bool" where
  "wakeup_inv s \<longleftrightarrow> (main_at s = M_waiting \<longrightarrow> sig_at s \<noteq> S_final_unlock \<and> sig_at s \<noteq> S_done) \<and>
     (main_at s = M_done \<longrightarrow> sig_at s = S_done)"

lemma main_step_submit:
  assumes "main_step c s t" "small_config c" "submit_inv c s"
  shows "submit_inv c t"
  using assms
proof (induction rule: main_step.induct)
  case (unlock s)
  then have "next_i c (outer_i s) = max_aios c"
    by (simp add: submit_inv_def next_i_def small_config_def signed_take_bit_int_eq_self)
  with unlock show ?case by (simp add: submit_inv_def)
qed (auto simp: submit_inv_def small_config_def outer_continues_def split: main_pc.splits)

lemma sig_step_submit: "sig_step c s t \<Longrightarrow> submit_inv c s \<Longrightarrow> submit_inv c t"
  by (induction rule: sig_step.induct) (auto simp: submit_inv_def cond_signal_def split: main_pc.splits)

lemma main_step_needed: "main_step c s t \<Longrightarrow> needed_inv c s \<Longrightarrow> needed_inv c t"
  by (induction rule: main_step.induct) (auto simp: needed_inv_def)

lemma sig_step_needed:
  "sig_step c s t \<Longrightarrow> stops s = 0 \<Longrightarrow> needed_inv c s \<Longrightarrow> needed_inv c t"
  by (induction rule: sig_step.induct) (auto simp: needed_inv_def cond_signal_def)

lemma main_step_wakeup:
  assumes "main_step c s t" "small_config c" "count_inv s" "needed_inv c s" "final_inv c s" "wakeup_inv s"
  shows "wakeup_inv t"
  using assms
proof (induction rule: main_step.induct)
  case (check_waits s)
  then have "total_ios_completed s = 0"
    by (auto simp: batch_pending_def count_inv_def needed_inv_def small_config_def)
  with check_waits show ?case by (auto simp: wakeup_inv_def final_inv_def small_config_def)
qed (auto simp: wakeup_inv_def small_config_def)

lemma sig_step_wakeup: "sig_step c s t \<Longrightarrow> stops s = 0 \<Longrightarrow> wakeup_inv s \<Longrightarrow> wakeup_inv t"
  by (induction rule: sig_step.induct) (auto simp: wakeup_inv_def cond_signal_def)

definition small_inv :: "aio_config \<Rightarrow> aio_state \<Rightarrow> bool" where
  "small_inv c s \<longleftrightarrow> small_config c \<and> aio_inv c s \<and> final_inv c s \<and> submit_inv c s \<and> needed_inv c s \<and> wakeup_inv s"

lemma small_inv_step:
  assumes "aio_step c s t" "small_inv c s"
  shows "small_inv c t"
proof -
  from assms(2) have inv: "small_config c" "aio_inv c s" "final_inv c s" "submit_inv c s" "needed_inv c s"
    "wakeup_inv s" "count_inv s" "stops s = 0"
    by (auto simp: small_inv_def aio_inv_def count_inv_def)
  from assms(1) have "submit_inv c t \<and> needed_inv c t \<and> wakeup_inv t"
  proof cases
    case main
    with inv show ?thesis using main_step_submit main_step_needed main_step_wakeup by blast
  next
    case sig
    with inv show ?thesis using sig_step_submit sig_step_needed sig_step_wakeup by blast
  next
    case kernel
    with inv show ?thesis by (simp add: submit_inv_def needed_inv_def wakeup_inv_def split: main_pc.splits)
  qed
  moreover have "aio_inv c t" "final_inv c t"
    using assms(1) inv by (auto simp: small_config_def intro: aio_step_inv final_inv_step)
  ultimately show ?thesis using inv(1) by (simp add: small_inv_def)
qed

interpretation small_system: invariant_system "aio_step c" "small_inv c" for c
  by unfold_locales (rule small_inv_step)

lemma small_inv_start: "small_config c \<Longrightarrow> small_inv c aio_start"
  using aio_start_inv [of c]
  by (simp add: small_inv_def submit_inv_def needed_inv_def wakeup_inv_def final_inv_def small_config_def aio_start_def)

subsection \<open>No deadlock\<close>

lemma main_enabled:
  assumes "exit_code s = None" "mutex s = None \<or> mutex s = Some Main_thread" "mutex_inv s"
    "main_at s \<notin> {M_waiting, M_join, M_done}"
  shows "\<exists>t. aio_step c s t"
proof -
  have "\<exists>t. main_step c s t"
  proof (cases "main_at s")
    case M_outer
    then show ?thesis using main_step.outer_enter main_step.outer_leave by blast
  next
    case M_submit
    then show ?thesis using main_step.submit main_step.submitted_all by blast
  next
    case M_lock
    with assms(2,3) show ?thesis using main_step.lock by (auto simp: mutex_inv_def main_holding_def)
  next
    case M_relock
    with assms(2,3) show ?thesis using main_step.relock by (auto simp: mutex_inv_def main_holding_def)
  next
    case M_check
    then show ?thesis using main_step.check_waits main_step.check_proceeds by blast
  next
    case M_unlock
    then show ?thesis using main_step.unlock by blast
  qed (use assms(4) in auto)
  with assms(1,4) show ?thesis by (auto intro: aio_step.main)
qed

lemma sig_enabled:
  assumes "exit_code s = None" "main_at s \<noteq> M_done" "mutex s = None \<or> mutex s = Some Sig_thread" "mutex_inv s"
    "sig_at s \<noteq> S_done" "sig_at s = S_wait \<longrightarrow> 0 < queued s"
  shows "\<exists>t. aio_step c s t"
proof -
  have "\<exists>t. sig_step c s t"
  proof (cases "sig_at s")
    case S_wait
    with assms(6) show ?thesis using sig_step.take_completion by blast
  next
    case S_lock
    with assms(3,4) show ?thesis using sig_step.sig_lock by (auto simp: mutex_inv_def sig_holding_def)
  next
    case S_batch
    then show ?thesis using sig_step.batch_done sig_step.batch_open by blast
  next
    case S_needed
    then show ?thesis using sig_step.needed_done sig_step.needed_more by blast
  next
    case S_final_lock
    with assms(3,4) show ?thesis using sig_step.final_lock by (auto simp: mutex_inv_def sig_holding_def)
  qed (use assms(5) in \<open>blast intro: sig_step.intros\<close>)+
  with assms(1,2) show ?thesis by (auto intro: aio_step.sig)
qed

lemma small_not_stuck:
  assumes "small_inv c s" "main_at s \<noteq> M_done"
  shows "\<exists>t. aio_step c s t"
proof (rule ccontr)
  assume stuck: "\<nexists>t. aio_step c s t"
  from assms(1) have inv: "small_config c" "mutex_inv s" "count_inv s" "final_inv c s" "submit_inv c s"
    "needed_inv c s" "wakeup_inv s" "exit_code s = None"
    by (auto simp: small_inv_def aio_inv_def final_inv_def)
  have "in_flight s = 0" using stuck inv(8) assms(2) aio_step.kernel by blast
  have sig: "mutex s \<noteq> Some Sig_thread"
    using sig_enabled [of s c] stuck inv(2,8) assms(2) by (auto simp: mutex_inv_def sig_holding_def)
  then have main: "main_at s = M_waiting \<or> main_at s = M_join"
    using main_enabled [of s c] stuck inv(2,8) assms(2) by (metis insert_iff singletonD thread.exhaust option.exhaust)
  then have "mutex s \<noteq> Some Main_thread" using inv(2) by (auto simp: mutex_inv_def main_holding_def)
  with sig have "mutex s = None" by (metis option.exhaust thread.exhaust)
  then have at_rest: "sig_at s = S_done \<or> sig_at s = S_wait \<and> queued s = 0"
    using sig_enabled [of s c] stuck inv(2,8) assms(2) by fastforce
  then show False
  proof
    assume "sig_at s = S_done"
    with main inv(7) have "main_at s = M_join" by (auto simp: wakeup_inv_def)
    with \<open>sig_at s = S_done\<close> show False
      using stuck aio_step.main [OF inv(8) assms(2) main_step.join, of c] by blast
  next
    assume "sig_at s = S_wait \<and> queued s = 0"
    with \<open>in_flight s = 0\<close> main inv show False
      by (auto simp: count_inv_def in_hand_def submit_inv_def needed_inv_def small_config_def)
  qed
qed

subsection \<open>Every step lowers a rank\<close>

definition main_rank :: "aio_config \<Rightarrow> aio_state \<Rightarrow> nat" where
  "main_rank c s = (case main_at s of
      M_outer \<Rightarrow> if outer_i s = 0 then 17 * nat (max_aios c) + 9 else 3
    | M_submit \<Rightarrow> 17 * nat (max_aios c - inner_j s) + 8
    | M_lock \<Rightarrow> 7 | M_relock \<Rightarrow> 6 | M_check \<Rightarrow> 5 | M_waiting \<Rightarrow> 4 | M_unlock \<Rightarrow> 4 | M_join \<Rightarrow> 2 | M_done \<Rightarrow> 0)"

definition sig_rank :: "sig_pc \<Rightarrow> nat" where
  "sig_rank pc = (case pc of S_complete \<Rightarrow> 22 | S_lock \<Rightarrow> 21 | S_inc \<Rightarrow> 20 | S_unlock \<Rightarrow> 19 | S_batch \<Rightarrow> 18
    | S_needed \<Rightarrow> 14 | S_wait \<Rightarrow> 10 | S_final_lock \<Rightarrow> 9 | S_final_signal \<Rightarrow> 8 | S_final_unlock \<Rightarrow> 5 | S_done \<Rightarrow> 4)"

definition aio_rank :: "aio_config \<Rightarrow> aio_state \<Rightarrow> nat" where
  "aio_rank c s = main_rank c s + sig_rank (sig_at s) + 15 * in_flight s + 14 * queued s"

lemmas aio_rank_defs = aio_rank_def main_rank_def sig_rank_def

lemma main_step_rank:
  assumes "main_step c s t" "small_inv c s"
  shows "aio_rank c t < aio_rank c s"
  using assms
proof (induction rule: main_step.induct)
  case (unlock s)
  then have "next_i c (outer_i s) = max_aios c" "max_aios c \<noteq> 0"
    by (simp_all add: small_inv_def submit_inv_def next_i_def small_config_def signed_take_bit_int_eq_self)
  with unlock show ?case by (simp add: aio_rank_defs)
next
  case (submit s)
  then have "nat (max_aios c - inner_j s) = Suc (nat (max_aios c - (inner_j s + 1)))" by simp
  with submit show ?case by (simp add: aio_rank_defs)
qed (auto simp: aio_rank_defs small_inv_def small_config_def submit_inv_def outer_continues_def)

lemma sig_step_rank: "sig_step c s t \<Longrightarrow> small_inv c s \<Longrightarrow> aio_rank c t < aio_rank c s"
  by (induction rule: sig_step.induct)
    (auto simp: aio_rank_defs cond_signal_def small_inv_def small_config_def final_inv_def split: main_pc.splits)

lemma aio_step_rank: "aio_step c s t \<Longrightarrow> small_inv c s \<Longrightarrow> aio_rank c t < aio_rank c s"
  by (induction rule: aio_step.induct)
    (auto simp: main_step_rank sig_step_rank, auto simp: aio_rank_defs split: main_pc.splits)

lemma small_run:
  assumes "small_config c" "(aio_step c ^^ n) aio_start s"
  shows "small_inv c s \<and> n + aio_rank c s \<le> aio_rank c aio_start"
  using assms(2)
proof (induction n arbitrary: s)
  case 0
  with assms(1) show ?case by (simp add: small_inv_start)
next
  case (Suc n)
  then obtain r where r: "(aio_step c ^^ n) aio_start r" "aio_step c r s" by auto
  with Suc.IH [OF r(1)] aio_step_rank [OF r(2)] show ?case by (auto intro: small_inv_step)
qed

text \<open>
  Property C14. When the file needs at least one write and fewer writes than one batch submits, the test always
  terminates: without failing calls and spurious wakeups no run takes more than
  \<open>17 * max_aios + 19\<close> steps, and a run that can go no further has returned from the test with
  exactly the needed number of completions counted. (Without a block to write it never returns.)
\<close>

theorem short_test_terminates:
  assumes "0 < iterations c" "int (iterations c) < max_aios c" "max_aios c < 2 ^ 31" "\<not> faults c" "\<not> spurious c"
    and "(aio_step c ^^ n) aio_start s"
  shows "n \<le> 17 * nat (max_aios c) + 19 \<and>
     ((\<nexists>t. aio_step c s t) \<longrightarrow> main_at s = M_done \<and> exit_code s = None) \<and>
     (main_at s = M_done \<or> sig_at s = S_done \<longrightarrow> total_ios_completed s = int (iterations c))"
proof -
  have "small_config c" using assms(1-5) by (simp add: small_config_def)
  from small_run [OF this assms(6)] have inv: "small_inv c s" and "n \<le> aio_rank c aio_start" by simp_all
  moreover have "aio_rank c aio_start = 17 * nat (max_aios c) + 19" by (simp add: aio_rank_defs aio_start_def)
  moreover have "total_ios_completed s = int (iterations c)" if "main_at s = M_done \<or> sig_at s = S_done"
    using inv that by (auto simp: small_inv_def needed_inv_def final_inv_def wakeup_inv_def)
  ultimately show ?thesis using small_not_stuck [OF inv] by (auto simp: small_inv_def final_inv_def)
qed

theorem short_test_terminates_witness:
  "\<exists>s. aio_step \<lparr>iterations = 1, max_aios = 2, faults = False, spurious = False\<rparr> aio_start s"
proof -
  let ?c = "\<lparr>iterations = 1, max_aios = 2, faults = False, spurious = False\<rparr>"
  have "(aio_step ?c ^^ 0) aio_start aio_start" by simp
  then show ?thesis using short_test_terminates [of ?c 0 aio_start] by (auto simp: aio_start_def)
qed

end
