(* ===== verification/AioReturn.thy ===== *)
theory AioReturn
  imports AioShortRuns
begin

text \<open>
  What is true when the asynchronous write test returns: how many writes it has submitted, how many have completed, and
  how many the system still works on. The test submits whole batches and returns when the writes that the
  file needs have completed, so the tool goes on to rename and remove the file while the rest may be in flight.
\<close>

subsection \<open>Whole batches\<close>

text \<open>Without failing calls, and as long as the \<^verbatim>\<open>int\<close> counter does not wrap, the counter of the outer loop is the number of writes
  submitted in the batches before.\<close>

definition fits_int :: "aio_config \<Rightarrow> bool" where
  "fits_int c \<longleftrightarrow> 0 < max_aios c \<and> int (iterations c) + max_aios c < 2 ^ 31 \<and> \<not> faults c"

definition in_batch :: "aio_config \<Rightarrow> aio_state \<Rightarrow> bool" where
  "in_batch c s \<longleftrightarrow> 0 \<le> outer_i s \<and> outer_i s < int (iterations c) \<and> max_aios c dvd outer_i s"

definition whole_batches :: "aio_config \<Rightarrow> int \<Rightarrow> bool" where
  "whole_batches c n \<longleftrightarrow> max_aios c dvd n \<and> int (iterations c) \<le> n \<and> n < int (iterations c) + max_aios c"

definition batches_inv :: "aio_config \<Rightarrow> aio_state \<Rightarrow> bool" where
  "batches_inv c s \<longleftrightarrow>
     (case main_at s of
        M_outer \<Rightarrow> int (submitted s) = outer_i s \<and> (in_batch c s \<or> whole_batches c (outer_i s))
      | M_submit \<Rightarrow> in_batch c s \<and> int (submitted s) = outer_i s + inner_j s \<and> inner_j s \<le> max_aios c
      | M_join \<Rightarrow> whole_batches c (int (submitted s))
      | M_done \<Rightarrow> whole_batches c (int (submitted s))
      | _ \<Rightarrow> in_batch c s \<and> int (submitted s) = outer_i s + max_aios c)"

lemma next_i_fits: "fits_int c \<Longrightarrow> in_batch c s \<Longrightarrow> next_i c (outer_i s) = outer_i s + max_aios c"
  unfolding next_i_def fits_int_def in_batch_def by (intro signed_take_bit_int_eq_self) simp_all

lemma outer_continues_fits:
  "fits_int c \<Longrightarrow> 0 \<le> outer_i s \<Longrightarrow> outer_i s < int (iterations c) + max_aios c \<Longrightarrow>
     outer_continues c s \<longleftrightarrow> outer_i s < int (iterations c)"
  by (simp add: outer_continues_def fits_int_def)

lemma main_step_batches_inv:
  assumes "main_step c s t" "fits_int c" "batches_inv c s"
  shows "batches_inv c t"
  using assms
proof (induction rule: main_step.induct)
  case (unlock s)
  then have b: "in_batch c s" "int (submitted s) = outer_i s + max_aios c" by (simp_all add: batches_inv_def)
  then have "next_i c (outer_i s) = outer_i s + max_aios c" using next_i_fits [OF unlock(2)] by simp
  with b unlock(2) show ?case by (auto simp: batches_inv_def in_batch_def whole_batches_def fits_int_def)
next
  case (outer_enter s)
  then show ?case
    using outer_continues_fits [of c s] by (auto simp: batches_inv_def in_batch_def whole_batches_def fits_int_def)
next
  case (outer_leave s)
  then show ?case
    using outer_continues_fits [of c s] by (auto simp: batches_inv_def in_batch_def whole_batches_def fits_int_def)
qed (auto simp: batches_inv_def in_batch_def fits_int_def)

lemma sig_step_batches_inv: "sig_step c s t \<Longrightarrow> batches_inv c s \<Longrightarrow> batches_inv c t"
  by (induction rule: sig_step.induct) (auto simp: batches_inv_def in_batch_def cond_signal_def split: main_pc.splits)

lemma aio_step_batches_inv:
  assumes "aio_step c s t" "fits_int c \<and> batches_inv c s"
  shows "fits_int c \<and> batches_inv c t"
  using assms
proof (induction rule: aio_step.induct)
  case (kernel s)
  then show ?case by (auto simp: batches_inv_def in_batch_def split: main_pc.splits)
qed (auto intro: main_step_batches_inv sig_step_batches_inv)

interpretation batch_system: invariant_system "aio_step c" "\<lambda>s. fits_int c \<and> batches_inv c s" for c
  by unfold_locales (rule aio_step_batches_inv)

lemma batches_inv_start: "fits_int c \<Longrightarrow> batches_inv c aio_start"
  by (auto simp: batches_inv_def aio_start_def in_batch_def whole_batches_def fits_int_def)

lemma batches_at_return:
  assumes "aio_reachable c s" "fits_int c" "main_at s = M_done"
  shows "whole_batches c (int (submitted s))"
  using batch_system.run_keeps [of c aio_start s] batches_inv_start [OF assms(2)] assms
  by (simp add: aio_reachable_def batches_inv_def)

text \<open>The test returns only after the completion thread has.\<close>

definition joined_inv :: "aio_state \<Rightarrow> bool" where
  "joined_inv s \<longleftrightarrow> (main_at s = M_done \<longrightarrow> sig_at s = S_done)"

lemma aio_step_joined: "aio_step c s t \<Longrightarrow> joined_inv s \<Longrightarrow> joined_inv t"
proof (induction rule: aio_step.induct)
  case (main s t)
  from main(3,1,2,4) show ?case by (induction rule: main_step.induct) (auto simp: joined_inv_def)
next
  case (sig s t)
  from sig(3,1,2,4) show ?case by (induction rule: sig_step.induct) (auto simp: joined_inv_def cond_signal_def)
qed (simp add: joined_inv_def)

interpretation joined_system: invariant_system "aio_step c" joined_inv for c
  by unfold_locales (rule aio_step_joined)

lemma return_state:
  assumes "aio_reachable c s" "fits_int c" "main_at s = M_done"
  shows "sig_at s = S_done" "int (iterations c) \<le> total_ios_completed s"
    "int (in_flight s) + int (queued s) = int (submitted s) - total_ios_completed s"
proof -
  have "joined_inv s" using joined_system.run_keeps [of c aio_start s] assms(1) by (simp add: aio_reachable_def joined_inv_def aio_start_def)
  with assms(3) show d: "sig_at s = S_done" by (simp add: joined_inv_def)
  from reachable_final [OF assms(1)] assms(2) d show "int (iterations c) \<le> total_ios_completed s"
    by (simp add: fits_int_def final_inv_def)
  from aio_reachable_inv [OF assms(1)] assms(2) d
  show "int (in_flight s) + int (queued s) = int (submitted s) - total_ios_completed s"
    by (simp add: fits_int_def aio_inv_def count_inv_def in_hand_def)
qed

subsection \<open>Returning early\<close>

text \<open>The run of a short test in which the completion thread counts the first writes one by one as they complete and the others are
  never completed: the state after \<open>k\<close> of \<open>n\<close>.\<close>

definition some_counted :: "nat \<Rightarrow> nat \<Rightarrow> aio_state" where
  "some_counted n k = (submitting n)\<lparr>main_at := M_lock, in_flight := n - k, ios_completed_per_batch := int k, total_ios_completed := int k\<rparr>"

lemma some_counted_state:
  "some_counted n k = \<lparr>main_at = M_lock, sig_at = S_wait, outer_i = 0, inner_j = int n, mutex = None,
     ios_completed_per_batch = int k, total_ios_completed = int k, submitted = n, in_flight = n - k,
     queued = 0, stops = 0, exit_code = None\<rparr>"
  by (simp add: some_counted_def submitting_def aio_start_def)

lemma count_next:
  assumes "Suc k < n" "int n \<le> max_aios c"
  shows "(aio_step c)\<^sup>*\<^sup>* (some_counted n k) ((some_counted n (Suc k))\<lparr>sig_at := S_needed\<rparr>)"
proof -
  have "(aio_step c)\<^sup>*\<^sup>* (some_counted n k) ((some_counted n (Suc k))\<lparr>sig_at := S_batch\<rparr>)"
    using count_run [of "some_counted n k" c] assms(1) by (simp add: some_counted_state add.commute)
  moreover have "aio_step c ((some_counted n (Suc k))\<lparr>sig_at := S_batch\<rparr>) ((some_counted n (Suc k))\<lparr>sig_at := S_needed\<rparr>)"
    using aio_step.sig [OF _ _ sig_step.batch_open, of "(some_counted n (Suc k))\<lparr>sig_at := S_batch\<rparr>" c] assms
    by (simp add: some_counted_state)
  ultimately show ?thesis by (rule rtranclp.rtrancl_into_rtrancl)
qed

lemma count_needed:
  assumes "iterations c < n" "int n \<le> max_aios c"
  shows "Suc k \<le> iterations c \<Longrightarrow> (aio_step c)\<^sup>*\<^sup>* (some_counted n 0) ((some_counted n (Suc k))\<lparr>sig_at := S_needed\<rparr>)"
proof (induction k)
  case 0
  with assms show ?case by (intro count_next) simp_all
next
  case (Suc k)
  have "aio_step c ((some_counted n (Suc k))\<lparr>sig_at := S_needed\<rparr>) (some_counted n (Suc k))"
    using aio_step.sig [OF _ _ sig_step.needed_more, of "(some_counted n (Suc k))\<lparr>sig_at := S_needed\<rparr>" c] Suc.prems
    by (simp add: some_counted_state)
  moreover have "(aio_step c)\<^sup>*\<^sup>* (some_counted n (Suc k)) ((some_counted n (Suc (Suc k)))\<lparr>sig_at := S_needed\<rparr>)"
    using Suc.prems assms by (intro count_next) simp_all
  moreover note Suc.IH [OF Suc_leD [OF Suc.prems]]
  ultimately show ?case by (meson rtranclp.rtrancl_into_rtrancl rtranclp_trans)
qed

text \<open>The end of the completion thread, and then the way of the main thread through the lock to the join.\<close>

lemma sig_thread_ends:
  assumes "iterations c \<le> k"
  shows "(aio_step c)\<^sup>*\<^sup>* ((some_counted n k)\<lparr>sig_at := S_needed\<rparr>) ((some_counted n k)\<lparr>sig_at := S_done\<rparr>)"
proof -
  let ?s = "\<lambda>pc m. (some_counted n k)\<lparr>sig_at := pc, mutex := m\<rparr>"
  note sig = aio_step.sig [of "?s pc m" c for pc m]
  have "aio_step c (?s S_needed None) (?s S_final_lock None)"
    by (rule sig) (use sig_step.needed_done [of "?s S_needed None" c] assms in \<open>simp_all add: some_counted_state\<close>)
  moreover have "aio_step c (?s S_final_lock None) (?s S_final_signal (Some Sig_thread))"
    by (rule sig) (use sig_step.final_lock [of "?s S_final_lock None" c] in \<open>simp_all add: some_counted_state\<close>)
  moreover have "aio_step c (?s S_final_signal (Some Sig_thread)) (?s S_final_unlock (Some Sig_thread))"
    by (rule sig) (use sig_step.final_signal [of "?s S_final_signal (Some Sig_thread)" c] in \<open>simp_all add: some_counted_state cond_signal_def\<close>)
  moreover have "aio_step c (?s S_final_unlock (Some Sig_thread)) (?s S_done None)"
    by (rule sig) (use sig_step.final_unlock [of "?s S_final_unlock (Some Sig_thread)" c] in \<open>simp_all add: some_counted_state\<close>)
  ultimately have "(aio_step c)\<^sup>*\<^sup>* (?s S_needed None) (?s S_done None)"
    by (meson converse_rtranclp_into_rtranclp rtranclp.rtrancl_refl)
  then show ?thesis by (simp add: some_counted_state)
qed

lemma main_thread_ends:
  assumes "small_config c" "0 < k" "int k < max_aios c"
  shows "(aio_step c)\<^sup>*\<^sup>* ((some_counted n k)\<lparr>sig_at := S_done\<rparr>)
    ((some_counted n k)\<lparr>sig_at := S_done, main_at := M_done, outer_i := max_aios c\<rparr>)"
proof -
  let ?s = "\<lambda>pc m i. (some_counted n k)\<lparr>sig_at := S_done, main_at := pc, mutex := m, outer_i := i\<rparr>"
  let ?m = "Some Main_thread"
  note main = aio_step.main [of "?s pc m i" c for pc m i]
  have wrap: "next_i c 0 = max_aios c"
    using assms(1) by (simp add: next_i_def small_config_def signed_take_bit_int_eq_self)
  have end_loop: "\<not> outer_continues c (?s M_outer None (max_aios c))"
    using assms(1) by (simp add: outer_continues_def small_config_def)
  have "aio_step c (?s M_lock None 0) (?s M_check ?m 0)"
    by (rule main) (use main_step.lock [of "?s M_lock None 0" c] in \<open>simp_all add: some_counted_state\<close>)
  moreover have "aio_step c (?s M_check ?m 0) (?s M_unlock ?m 0)"
    by (rule main) (use main_step.check_proceeds [of "?s M_check ?m 0" c] assms(2,3) in \<open>simp_all add: some_counted_state batch_pending_def\<close>)
  moreover have "aio_step c (?s M_unlock ?m 0) (?s M_outer None (max_aios c))"
    by (rule main) (use main_step.unlock [of "?s M_unlock ?m 0" c] wrap in \<open>simp_all add: some_counted_state\<close>)
  moreover have "aio_step c (?s M_outer None (max_aios c)) (?s M_join None (max_aios c))"
    by (rule main) (use main_step.outer_leave [OF _ end_loop] in \<open>simp_all add: some_counted_state\<close>)
  moreover have "aio_step c (?s M_join None (max_aios c)) (?s M_done None (max_aios c))"
    by (rule main) (use main_step.join [of "?s M_join None (max_aios c)" c] in \<open>simp_all add: some_counted_state\<close>)
  ultimately have "(aio_step c)\<^sup>*\<^sup>* (?s M_lock None 0) (?s M_done None (max_aios c))"
    by (meson converse_rtranclp_into_rtranclp rtranclp.rtrancl_refl)
  then show ?thesis by (simp add: some_counted_state)
qed

lemma returns_early:
  assumes "small_config c"
  shows "\<exists>s. aio_reachable c s \<and> main_at s = M_done \<and> int (in_flight s) = max_aios c - int (iterations c)"
proof -
  let ?n = "nat (max_aios c)"
  let ?s = "(some_counted ?n (iterations c))\<lparr>sig_at := S_done, main_at := M_done, outer_i := max_aios c\<rparr>"
  have c: "0 < iterations c" "iterations c < ?n" "int ?n = max_aios c" using assms by (auto simp: small_config_def)
  have "(aio_step c)\<^sup>*\<^sup>* (submitting 0) (submitting ?n)" using c(3) by (simp add: submit_many)
  moreover have "aio_step c (submitting ?n) (some_counted ?n 0)"
    using all_submitted [of c ?n] c(3) by (simp add: some_counted_def submitting_def aio_start_def)
  moreover have "(aio_step c)\<^sup>*\<^sup>* (some_counted ?n 0) ((some_counted ?n (iterations c))\<lparr>sig_at := S_needed\<rparr>)"
    using count_needed [of c ?n "iterations c - 1"] c by simp
  moreover note sig_thread_ends [of c "iterations c" ?n, OF order_refl]
  moreover note main_thread_ends [OF assms c(1), of ?n]
  ultimately have "(aio_step c)\<^sup>*\<^sup>* (submitting 0) ?s"
    using c(2,3) by (meson rtranclp_trans rtranclp.rtrancl_into_rtrancl zless_nat_eq_int_zless)
  with enter_first_batch [OF c(1)] have "aio_reachable c ?s"
    unfolding aio_reachable_def by (rule converse_rtranclp_into_rtranclp)
  moreover have "int (in_flight ?s) = max_aios c - int (iterations c)" using c by (simp add: some_counted_state)
  moreover have "main_at ?s = M_done" by simp
  ultimately show ?thesis by blast
qed

end
