(* ===== verification/AioOutput.thy ===== *)
theory AioOutput
  imports AioWrite Decimal
begin

text \<open>
  What the two threads of \<^verbatim>\<open>aio_write_test.c\<close> print. A step of \<open>AioWrite\<close> prints the lines of the code that it stands for, and a
  run prints those of its steps in order. \<open>aio_first_lines\<close> are the line before the threads run and the one
  with which the completion thread starts. The lines about complete
  batches count the completions exactly, whatever the interleaving.
\<close>

datatype aio_line = Line string | Perror string

definition aio_first_lines :: "int \<Rightarrow> aio_line list" where
  "aio_first_lines limit =
     [Line (''Max outstanding AIO I/Os: ['' @ print_lld limit @ '']'' @ NL), Line (''Entered sig_thread'' @ NL)]"

definition handled_line :: "int \<Rightarrow> aio_line" where
  "handled_line n = Line (print_lld n @ '' aio_write completions handled'' @ NL)"

definition batch_line :: aio_line where
  "batch_line = Line (''One batch of aio_write() activities completed'' @ NL)"

definition batch_signaled :: aio_line where
  "batch_signaled = Line (''I/O batch condition signaled'' @ NL)"

definition batch_lines :: "aio_state \<Rightarrow> aio_line list" where
  "batch_lines s = [batch_line, handled_line (total_ios_completed s)]"

text \<open>The message before an \<^verbatim>\<open>exit\<close>, by its status and by where the main thread is.\<close>

definition exit_message :: "main_pc \<Rightarrow> int \<Rightarrow> string" where
  "exit_message pc e =
     (if e = 1 then (if pc = M_lock then ''Unable to do initial mutex lock'' else ''Unable to do final mutex unlock'')
      else if e = 2 then ''Condition wait failed''
      else if e = 3 \<or> e = 5 then ''Unable to lock total_ios_completed''
      else if e = 4 \<or> e = 6 then ''Unable to UNLOCK total_ios_completed''
      else if e = 7 then ''Unable to signal FINAL condition''
      else if e = 8 then ''Unable to signal an INTERIM condition''
      else ''aio failed'')"

text \<open>The two lines of a complete batch are printed before the condition variable is signalled, also when that fails.\<close>

definition completes_batch :: "aio_config \<Rightarrow> aio_state \<Rightarrow> aio_state \<Rightarrow> bool" where
  "completes_batch c s t \<longleftrightarrow> sig_at s = S_batch \<and> max_aios c \<le> ios_completed_per_batch s \<and>
     (sig_at t \<noteq> S_batch \<or> exit_code t = Some 8)"

definition aio_printed :: "aio_config \<Rightarrow> aio_state \<Rightarrow> aio_state \<Rightarrow> aio_line list" where
  "aio_printed c s t =
     (if main_at s = M_submit \<and> inner_j t \<noteq> inner_j s \<and> submitted t = submitted s
      then [Perror ''aio_write() initiation FAILED''] else []) @
     (if main_at s = M_check \<and> main_at t = M_unlock \<and> batch_pending c t
      then [batch_signaled] else []) @
     (if completes_batch c s t then batch_lines s else []) @
     (case exit_code t of None \<Rightarrow> [] | Some e \<Rightarrow> [Perror (exit_message (main_at s) e)])"

inductive aio_output :: "aio_config \<Rightarrow> aio_line list \<Rightarrow> aio_state \<Rightarrow> bool" for c where
  output_start: "aio_output c [] aio_start"
| output_step: "aio_output c out s \<Longrightarrow> aio_step c s t \<Longrightarrow> aio_output c (out @ aio_printed c s t) t"

subsection \<open>Runs and their output\<close>

lemma output_reachable: "aio_output c out s \<Longrightarrow> aio_reachable c s"
  unfolding aio_reachable_def by (induction rule: aio_output.induct) (auto intro: rtranclp.rtrancl_into_rtrancl)

lemma reachable_output: "aio_reachable c s \<Longrightarrow> \<exists>out. aio_output c out s"
  unfolding aio_reachable_def by (induction rule: rtranclp_induct) (blast intro: aio_output.intros)+

text \<open>A completion is counted in the batch before it is counted in the total.\<close>

definition ahead_by :: "sig_pc \<Rightarrow> int" where
  "ahead_by pc = (if pc = S_lock \<or> pc = S_inc then 1 else 0)"

definition batches_counted :: "aio_config \<Rightarrow> int \<Rightarrow> aio_state \<Rightarrow> bool" where
  "batches_counted c k s \<longleftrightarrow> (if exit_code s = Some 8 then total_ios_completed s = k * max_aios c
     else k * max_aios c + ios_completed_per_batch s = total_ios_completed s + ahead_by (sig_at s))"

lemmas batch_counting_defs = batches_counted_def ahead_by_def completes_batch_def cond_signal_def

lemma main_step_batches:
  "main_step c s t \<Longrightarrow> exit_code s = None \<Longrightarrow> batches_counted c k s \<Longrightarrow> batches_counted c k t \<and> \<not> completes_batch c s t"
  by (induction rule: main_step.induct) (auto simp: batch_counting_defs)

lemma sig_step_batches:
  assumes "sig_step c s t" "exit_code s = None" "batches_counted c k s" "ios_completed_per_batch s \<le> max_aios c"
  shows "batches_counted c (if completes_batch c s t then k + 1 else k) t"
  using assms by (induction rule: sig_step.induct) (auto simp: batch_counting_defs algebra_simps)

lemma aio_step_batches:
  assumes "aio_step c s t" "batches_counted c k s" "ios_completed_per_batch s \<le> max_aios c"
  shows "batches_counted c (if completes_batch c s t then k + 1 else k) t"
  using assms
proof (induction rule: aio_step.induct)
  case (main s t)
  then show ?case using main_step_batches by fastforce
next
  case (sig s t)
  then show ?case using sig_step_batches by blast
next
  case (kernel s)
  then show ?case by (auto simp: batch_counting_defs)
qed

lemma batch_total:
  assumes "aio_step c s t" "completes_batch c s t" "batches_counted c k s" "ios_completed_per_batch s \<le> max_aios c"
  shows "total_ios_completed s = (k + 1) * max_aios c"
proof -
  have "exit_code s = None" using assms(1) by (cases rule: aio_step.cases) simp_all
  with assms(2-4) show ?thesis by (auto simp: batch_counting_defs algebra_simps)
qed

text \<open>The lines that report completions end like \<^verbatim>\<open>handled\<close> lines and no other line does.\<close>

definition is_handled :: "aio_line \<Rightarrow> bool" where
  "is_handled l \<longleftrightarrow> (\<exists>n. l = handled_line n)"

lemma other_lines:
  "\<not> is_handled (Perror m)" "\<not> is_handled batch_line" "\<not> is_handled batch_signaled" "is_handled (handled_line n)"
    "handled_line n \<noteq> batch_signaled" "batch_line \<noteq> batch_signaled"
proof -
  have eq: "''One batch of aio_write() activities completed'' @ NL \<noteq> x @ '' aio_write completions handled'' @ NL" for x
  proof
    assume "''One batch of aio_write() activities completed'' @ NL = x @ '' aio_write completions handled'' @ NL"
    from arg_cong [OF this, of "\<lambda>s. take 4 (rev s)"] show False by simp
  qed
  have eq': "''I/O batch condition signaled'' @ NL \<noteq> x @ '' aio_write completions handled'' @ NL" for x
  proof
    assume "''I/O batch condition signaled'' @ NL = x @ '' aio_write completions handled'' @ NL"
    from arg_cong [OF this, of "\<lambda>s. take 6 (rev s)"] show False by simp
  qed
  show "\<not> is_handled (Perror m)" "\<not> is_handled batch_line" "\<not> is_handled batch_signaled" "is_handled (handled_line n)"
    "handled_line n \<noteq> batch_signaled" "batch_line \<noteq> batch_signaled"
    using eq eq' [of "print_lld n"] eq' by (auto simp: is_handled_def handled_line_def batch_signaled_def batch_line_def)
qed


lemma perror_not_signaled: "batch_signaled \<noteq> Perror m"
  by (simp add: batch_signaled_def)

lemma printed_handled:
  "filter is_handled (aio_printed c s t) = (if completes_batch c s t then [handled_line (total_ios_completed s)] else [])"
  by (simp add: aio_printed_def batch_lines_def other_lines split: option.split)

lemma printed_signaled:
  assumes "aio_step c s t"
  shows "batch_signaled \<notin> set (aio_printed c s t)"
proof -
  have "\<not> (main_at s = M_check \<and> main_at t = M_unlock \<and> batch_pending c t)"
    using assms
  proof (cases rule: aio_step.cases)
    case main
    from main(3) show ?thesis by (cases rule: main_step.cases) (auto simp: batch_pending_def)
  next
    case sig
    from sig(3) show ?thesis by (cases rule: sig_step.cases) (auto simp: cond_signal_def)
  qed auto
  then show ?thesis
    using other_lines(5) [symmetric] other_lines(6) [symmetric]
    by (auto simp: aio_printed_def batch_lines_def perror_not_signaled split: option.splits)
qed

text \<open>
  Property C12. The output of every run, also with failing calls and spurious wakeups: the lines about handled completions report one, two, three and more full
  batches, without a gap, and the last one is the last full batch that the completion thread has counted; the message that
  the batch condition was signaled is never printed.
\<close>

theorem aio_output_counts:
  assumes "aio_output c out s" "0 < max_aios c"
  shows "\<exists>k. filter is_handled out = map (\<lambda>j. handled_line (int j * max_aios c)) [1..<Suc k] \<and>
     batches_counted c (int k) s \<and> batch_signaled \<notin> set out"
  using assms(1)
proof (induction rule: aio_output.induct)
  case output_start
  show ?case by (intro exI [of _ 0]) (simp add: batch_counting_defs aio_start_def)
next
  case (output_step out s t)
  then obtain k where k: "filter is_handled out = map (\<lambda>j. handled_line (int j * max_aios c)) [1..<Suc k]"
    "batches_counted c (int k) s" "batch_signaled \<notin> set out" by blast
  have le: "ios_completed_per_batch s \<le> max_aios c"
    using batch_bounds(2) [OF aio_reachable_inv [OF output_reachable [OF output_step(1)] assms(2)] assms(2)] .
  note next_step = aio_step_batches [OF output_step(2) k(2) le]
  show ?case
  proof (cases "completes_batch c s t")
    case True
    from batch_total [OF output_step(2) True k(2) le] k(1) True next_step k(3) printed_signaled [OF output_step(2)]
    show ?thesis by (intro exI [of _ "Suc k"]) (simp add: printed_handled add.commute)
  next
    case False
    with k next_step printed_signaled [OF output_step(2)] show ?thesis
      by (intro exI [of _ k]) (simp add: printed_handled)
  qed
qed


theorem aio_output_counts_witness:
  "\<exists>out s. aio_output \<lparr>iterations = 4, max_aios = 1, faults = False, spurious = False\<rparr> out s \<and> filter is_handled out = [handled_line 1]"
proof -
  let ?c = "\<lparr>iterations = 4, max_aios = 1, faults = False, spurious = False\<rparr>"
  let ?s = "one_counted 1" and ?t = "cond_signal ((one_counted 1)\<lparr>sig_at := S_needed, ios_completed_per_batch := 0\<rparr>)"
  have "aio_step ?c aio_start (submitting 0)" by (rule enter_first_batch) simp
  moreover have "(aio_step ?c)\<^sup>*\<^sup>* (submitting 0) (submitting 1)" by (rule submit_many) simp
  moreover have "(aio_step ?c)\<^sup>*\<^sup>* (submitting 1) ?s" by (rule count_one_run) simp_all
  ultimately have "aio_reachable ?c ?s"
    unfolding aio_reachable_def by (meson converse_rtranclp_into_rtranclp rtranclp_trans)
  from reachable_output [OF this] obtain out where "aio_output ?c out ?s" by blast
  moreover have "aio_step ?c ?s ?t"
    by (intro aio_step.sig sig_step.batch_done) (simp_all add: one_counted_def submitting_def aio_start_def)
  ultimately have run: "aio_output ?c (out @ aio_printed ?c ?s ?t) ?t" by (rule output_step)
  from aio_output_counts [OF this] obtain k where
    k: "filter is_handled (out @ aio_printed ?c ?s ?t) = map (\<lambda>j. handled_line (int j * max_aios ?c)) [1..<Suc k]"
      "batches_counted ?c (int k) ?t" by auto
  from k(2) have "k = 1"
    by (simp add: batch_counting_defs one_counted_def submitting_def aio_start_def)
  with k(1) run show ?thesis by (intro exI [of _ "out @ aio_printed ?c ?s ?t"] exI [of _ ?t]) simp
qed

end
