(* ===== verification/Options.thy ===== *)
theory Options
  imports CString Decimal
begin

text \<open>
  The command line of the write tool, \<^verbatim>\<open>async_to_sync_writes/options.c\<close>. The option parser of the
  C library is a parameter: its results are the list of the pairs that successive calls of
  \<^verbatim>\<open>getopt_long\<close> deliver in the return value and \<^verbatim>\<open>optarg\<close>, up to the call that returns \<open>-1\<close>.
  \<^verbatim>\<open>main\<close> does not initialise the size, the block size and the test, so they are options.
\<close>

subsection \<open>Definitions\<close>

datatype test_type = Test_pwrite | Test_aio_write | Test_lio_listio

record options =
  filepath :: "char list"
  filesize :: "int option"
  blocksize :: "int option"
  test :: "test_type option"
  sync_type :: int
  rename_delay :: int

text \<open>The flag values of \<^verbatim>\<open><fcntl.h>\<close>.\<close>

record open_flags =
  O_SYNC :: int
  O_DSYNC :: int

definition test_of_name :: "string \<Rightarrow> test_type option" where
  "test_of_name s =
     (if s = ''pwrite'' then Some Test_pwrite
      else if s = ''aio_write'' then Some Test_aio_write
      else if s = ''lio_listio'' then Some Test_lio_listio else None)"

definition sync_of_name :: "open_flags \<Rightarrow> string \<Rightarrow> int" where
  "sync_of_name fl s = (if s = ''O_SYNC'' then O_SYNC fl else if s = ''O_DSYNC'' then O_DSYNC fl else 0)"

text \<open>The tables that \<^verbatim>\<open>getopt_long\<close> gets; every option has an argument.\<close>

definition long_options :: "(string \<times> char) list" where
  "long_options = [(''filepath'', CHR ''f''), (''filesize'', CHR ''s''), (''blocksize'', CHR ''b''), (''test'', CHR ''t''),
     (''sync_type'', CHR ''y''), (''rename_delay'', CHR ''r'')]"

definition short_options :: string where
  "short_options = ''f:s:b:t:y:r:''"

definition usage :: "string \<Rightarrow> string list" where
  "usage prog =
     [''Usage: '' @ prog @ NL,
      ''--filepath=</path/to/file>'' @ NL, ''  Path to file to write'' @ NL,
      ''--filesize=<size in bytes>'' @ NL, ''  Size of the file you want to create'' @ NL,
      ''--blocksize=<size in bytes>'' @ NL, ''  Each I/O to the file will be of this size'' @ NL,
      ''--test=(pwrite|aio_write|lio_listio)'' @ NL, ''  synchronous or asynchronous write type'' @ NL,
      ''--sync_type=(O_SYNC|O_DSYNC|<none - default>)'' @ NL, ''  synchronized or non-synchronized I/Os'' @ NL,
      ''--rename_delay=<seconds>'' @ NL, ''  delay file rename for <seconds> after I/Os submitted'' @ NL]"

text \<open>The body of the loop: one case of the \<^verbatim>\<open>switch\<close> per option letter, with the line it prints. \<^verbatim>\<open>usage\<close> ends the process
  with status 0, so the \<^verbatim>\<open>abort\<close> after it is not reached.\<close>

definition handle_option ::
  "open_flags \<Rightarrow> string \<Rightarrow> options \<Rightarrow> char \<Rightarrow> string \<Rightarrow> (string list \<times> int, string list \<times> options) outcome" where
  "handle_option fl prog opts c optarg =
     (if c = CHR ''f'' then
        (case strcpy (filepath opts) optarg of
           None \<Rightarrow> Undefined
         | Some b \<Rightarrow> Returns ([''FilePath: '' @ optarg @ NL], opts\<lparr>filepath := b\<rparr>))
      else if c = CHR ''s'' then
        (let v = strtoll optarg in Returns ([''filesize: '' @ print_lld v @ NL], opts\<lparr>filesize := Some v\<rparr>))
      else if c = CHR ''b'' then
        (let v = strtoll optarg in Returns ([''blocksize: '' @ print_lld v @ NL], opts\<lparr>blocksize := Some v\<rparr>))
      else if c = CHR ''t'' then
        Returns ([''test: '' @ optarg @ NL],
          case test_of_name optarg of None \<Rightarrow> opts | Some t \<Rightarrow> opts\<lparr>test := Some t\<rparr>)
      else if c = CHR ''y'' then
        Returns ([''sync_type: '' @ optarg @ NL], opts\<lparr>sync_type := sync_of_name fl optarg\<rparr>)
      else if c = CHR ''r'' then
        (let v = strtoll optarg in
         Returns ([''rename will be done '' @ print_lld v @ '' seconds late'' @ NL], opts\<lparr>rename_delay := v\<rparr>))
      else Throws (usage prog, 0))"

fun collect_options ::
  "open_flags \<Rightarrow> string \<Rightarrow> options \<Rightarrow> (char \<times> string) list \<Rightarrow> (string list \<times> int, string list \<times> options) outcome" where
  "collect_options fl prog opts [] = Returns ([], opts)"
| "collect_options fl prog opts ((c, optarg) # results) =
     (case handle_option fl prog opts c optarg of
        Returns (out, opts') \<Rightarrow>
          (case collect_options fl prog opts' results of
             Returns (out2, opts'') \<Rightarrow> Returns (out @ out2, opts'')
           | Throws (out2, e) \<Rightarrow> Throws (out @ out2, e)
           | Undefined \<Rightarrow> Undefined)
      | Throws e \<Rightarrow> Throws e
      | Undefined \<Rightarrow> Undefined)"

subsection \<open>Numbers\<close>

lemma digit_char_plain:
  "d < 10 \<Longrightarrow> \<not> is_space (digit_char d) \<and> digit_char d \<noteq> CHR ''-'' \<and> digit_char d \<noteq> CHR ''+''"
proof -
  assume "d < 10"
  then have "digit_value (digit_char d) \<noteq> None" by simp
  moreover have "is_space c \<Longrightarrow> digit_value c = None" for c by (auto simp: is_space_def digit_value_def)
  moreover have "digit_value CHR ''-'' = None" "digit_value CHR ''+'' = None" by (simp_all add: digit_value_def)
  ultimately show ?thesis by metis
qed

text \<open>
  \<^verbatim>\<open>strtoll\<close> as the option loop uses it inverts the \<^verbatim>\<open>%lld\<close> with which the program
  prints the numbers: every value of \<^verbatim>\<open>long long\<close>, printed in decimal and followed by anything
  that does not start with a digit, is read back unchanged.
\<close>

theorem strtoll_inverts_print:
  assumes "LLONG_MIN \<le> v" "v \<le> LLONG_MAX" "r = [] \<or> digit_value (hd r) = None"
  shows "strtoll (print_lld v @ r) = v"
proof -
  have digits: "digits_value 0 (decimal n @ r) = int n" for n
    using assms(3) by (simp add: digits_value_decimal digits_value_stops)
  have clamped: "clamp v = v" using assms(1,2) by (simp add: clamp_def)
  show ?thesis
  proof (cases "v < 0")
    case True
    then show ?thesis using clamped by (simp add: strtoll_def print_lld_def is_space_def digits)
  next
    case False
    obtain d cs where d: "d < 10" "decimal (nat v) = digit_char d # cs" using decimal_Cons by blast
    then have "digits_value 0 (digit_char d # cs @ r) = v" using digits [of "nat v"] False by simp
    with False d clamped digit_char_plain [OF d(1)] show ?thesis by (simp add: strtoll_def print_lld_def)
  qed
qed

theorem strtoll_inverts_print_witness:
  "strtoll (print_lld (- 8192) @ ''kb'') = - 8192"
  using strtoll_inverts_print [of "- 8192" "''kb''"] by (simp add: LLONG_MIN_def LLONG_MAX_def digit_value_def)

subsection \<open>The options that a command line sets\<close>

fun last_arg :: "char \<Rightarrow> (char \<times> string) list \<Rightarrow> string option" where
  "last_arg c [] = None"
| "last_arg c ((k, a) # rs) =
     (case last_arg c rs of Some b \<Rightarrow> Some b | None \<Rightarrow> if k = c then Some a else None)"

fun last_test :: "(char \<times> string) list \<Rightarrow> test_type option" where
  "last_test [] = None"
| "last_test ((k, a) # rs) =
     (case last_test rs of Some t \<Rightarrow> Some t | None \<Rightarrow> if k = CHR ''t'' then test_of_name a else None)"

definition acceptable :: "nat \<Rightarrow> char \<times> string \<Rightarrow> bool" where
  "acceptable path_max r \<longleftrightarrow> fst r \<in> set ''fsbtyr'' \<and>
     (fst r = CHR ''f'' \<longrightarrow> length (snd r) < path_max \<and> NUL \<notin> set (snd r))"

definition or_else :: "'a option \<Rightarrow> 'a option \<Rightarrow> 'a option" where
  "or_else x y = (case x of None \<Rightarrow> y | Some v \<Rightarrow> Some v)"

text \<open>What the loop promises for the options it accepts.\<close>

definition options_after :: "open_flags \<Rightarrow> options \<Rightarrow> (char \<times> string) list \<Rightarrow> options \<Rightarrow> bool" where
  "options_after fl opts results opts' \<longleftrightarrow>
     length (filepath opts') = length (filepath opts) \<and>
     c_str (filepath opts') = or_else (last_arg CHR ''f'' results) (c_str (filepath opts)) \<and>
     filesize opts' = or_else (map_option strtoll (last_arg CHR ''s'' results)) (filesize opts) \<and>
     blocksize opts' = or_else (map_option strtoll (last_arg CHR ''b'' results)) (blocksize opts) \<and>
     test opts' = or_else (last_test results) (test opts) \<and>
     Some (sync_type opts') = or_else (map_option (sync_of_name fl) (last_arg CHR ''y'' results)) (Some (sync_type opts)) \<and>
     Some (rename_delay opts') = or_else (map_option strtoll (last_arg CHR ''r'' results)) (Some (rename_delay opts))"

text \<open>The line that an accepted option prints.\<close>

definition option_echo :: "char \<times> string \<Rightarrow> string" where
  "option_echo r =
     (case r of (c, a) \<Rightarrow>
        if c = CHR ''f'' then ''FilePath: '' @ a @ NL
        else if c = CHR ''s'' then ''filesize: '' @ print_lld (strtoll a) @ NL
        else if c = CHR ''b'' then ''blocksize: '' @ print_lld (strtoll a) @ NL
        else if c = CHR ''t'' then ''test: '' @ a @ NL
        else if c = CHR ''y'' then ''sync_type: '' @ a @ NL
        else ''rename will be done '' @ print_lld (strtoll a) @ '' seconds late'' @ NL)"

lemma handle_option_after:
  assumes "acceptable (length (filepath opts)) (c, a)"
  obtains opts' where "handle_option fl prog opts c a = Returns ([option_echo (c, a)], opts')" "options_after fl opts [(c, a)] opts'"
proof (cases "c = CHR ''f''")
  case True
  with assms obtain b where "strcpy (filepath opts) a = Some b"
    using strcpy_defined [of "filepath opts" a] by (auto simp: acceptable_def)
  moreover from this True assms have "c_str b = Some a" "length b = length (filepath opts)"
    by (auto simp: acceptable_def c_str_strcpy length_strcpy)
  ultimately show thesis
    using True that by (simp add: handle_option_def options_after_def or_else_def option_echo_def)
next
  case False
  with assms have "c \<in> {CHR ''s'', CHR ''b'', CHR ''t'', CHR ''y'', CHR ''r''}" by (auto simp: acceptable_def)
  then show thesis
    using that by (auto simp: handle_option_def options_after_def or_else_def option_echo_def Let_def split: option.splits)
qed

lemma options_after_Cons:
  assumes "options_after fl opts [r] opts1" "options_after fl opts1 rs opts2"
  shows "options_after fl opts (r # rs) opts2"
  using assms by (cases r) (auto simp: options_after_def or_else_def split: option.splits)

lemma collect_options_accepted:
  "\<forall>r \<in> set results. acceptable (length (filepath opts)) r \<Longrightarrow>
     \<exists>opts'. collect_options fl prog opts results = Returns (map option_echo results, opts') \<and> options_after fl opts results opts'"
proof (induction results arbitrary: opts)
  case Nil
  show ?case by (simp add: options_after_def or_else_def)
next
  case (Cons r rs)
  obtain c a where r: "r = (c, a)" by (cases r)
  with Cons.prems obtain opts1 where
    1: "handle_option fl prog opts c a = Returns ([option_echo r], opts1)" "options_after fl opts [r] opts1"
    using handle_option_after [of opts c a fl] by auto
  then have "length (filepath opts1) = length (filepath opts)" by (simp add: options_after_def)
  with Cons.prems have "\<forall>r \<in> set rs. acceptable (length (filepath opts1)) r" by simp
  from Cons.IH [OF this] obtain opts2 where
    "collect_options fl prog opts1 rs = Returns (map option_echo rs, opts2)" "options_after fl opts1 rs opts2" by blast
  with 1 r show ?case using options_after_Cons by auto
qed

lemma collect_options_append:
  "collect_options fl prog opts results = Returns (out, opts1) \<Longrightarrow>
     collect_options fl prog opts (results @ rs) =
       (case collect_options fl prog opts1 rs of
          Returns (out2, o2) \<Rightarrow> Returns (out @ out2, o2) | Throws (out2, e) \<Rightarrow> Throws (out @ out2, e) | Undefined \<Rightarrow> Undefined)"
proof (induction results arbitrary: opts out)
  case Nil
  then show ?case by (auto split: outcome.split)
next
  case (Cons r results)
  obtain c a where r: "r = (c, a)" by (cases r)
  with Cons.prems obtain o1 out1 out2 where "handle_option fl prog opts c a = Returns (out1, o1)"
    "collect_options fl prog o1 results = Returns (out2, opts1)" "out = out1 @ out2"
    by (auto split: outcome.splits)
  with Cons.IH [OF this(2)] r show ?case by (auto split: outcome.split)
qed

text \<open>
  Property C31. The option loop is total on accepted options (letters of the option string, paths
  that fit the buffer of \<^verbatim>\<open>main\<close>), it echoes every option in order, and the last occurrence of an option wins: the path, the numbers
  and the synchronisation type are those of its last argument, the test is the last argument
  that names a test, and what no option sets keeps its initial, possibly uninitialised, value.
\<close>

theorem last_option_wins:
  assumes "\<forall>r \<in> set results. acceptable (length (filepath opts)) r"
  shows "\<exists>opts'. collect_options fl prog opts results = Returns (map option_echo results, opts') \<and> options_after fl opts results opts'"
  using assms by (rule collect_options_accepted)

definition blank_options :: "nat \<Rightarrow> options" where
  "blank_options path_max = \<lparr>filepath = replicate path_max NUL, filesize = None, blocksize = None, test = None,
     sync_type = 0, rename_delay = 0\<rparr>"

theorem last_option_wins_witness:
  "\<exists>out opts'. collect_options \<lparr>O_SYNC = 16, O_DSYNC = 64\<rparr> ''writer'' (blank_options 8)
        [(CHR ''f'', ''/tmp/a''), (CHR ''s'', ''4096''), (CHR ''s'', ''8192''), (CHR ''t'', ''pwrite'')] = Returns (out, opts') \<and>
     c_str (filepath opts') = Some ''/tmp/a'' \<and> filesize opts' = Some 8192 \<and> blocksize opts' = None"
proof -
  have "strtoll ''8192'' = 8192" by code_simp
  moreover obtain opts' where collected: "collect_options \<lparr>O_SYNC = 16, O_DSYNC = 64\<rparr> ''writer'' (blank_options 8)
        [(CHR ''f'', ''/tmp/a''), (CHR ''s'', ''4096''), (CHR ''s'', ''8192''), (CHR ''t'', ''pwrite'')] =
      Returns (map option_echo [(CHR ''f'', ''/tmp/a''), (CHR ''s'', ''4096''), (CHR ''s'', ''8192''), (CHR ''t'', ''pwrite'')], opts')"
    "options_after \<lparr>O_SYNC = 16, O_DSYNC = 64\<rparr> (blank_options 8)
        [(CHR ''f'', ''/tmp/a''), (CHR ''s'', ''4096''), (CHR ''s'', ''8192''), (CHR ''t'', ''pwrite'')] opts'"
    using last_option_wins [of "[(CHR ''f'', ''/tmp/a''), (CHR ''s'', ''4096''), (CHR ''s'', ''8192''), (CHR ''t'', ''pwrite'')]"
        "blank_options 8" "\<lparr>O_SYNC = 16, O_DSYNC = 64\<rparr>" "''writer''"]
    by (auto simp: acceptable_def blank_options_def NUL_def)
  ultimately have "c_str (filepath opts') = Some ''/tmp/a''" "filesize opts' = Some 8192" "blocksize opts' = None"
    by (simp_all add: blank_options_def options_after_def or_else_def)
  with collected show ?thesis by blast
qed

text \<open>
  After any accepted options, an option that \<^verbatim>\<open>getopt_long\<close> does not know ends the
  process with the usage text and status 0 (the \<^verbatim>\<open>abort\<close> behind \<^verbatim>\<open>usage\<close> is unreachable), and a path argument
  that does not fit the buffer overruns it: \<^verbatim>\<open>strcpy\<close> has no bound.
\<close>

theorem option_loop_failures:
  assumes "\<forall>r \<in> set results. acceptable (length (filepath opts)) r"
  shows "(c \<notin> set ''fsbtyr'' \<longrightarrow>
            collect_options fl prog opts (results @ (c, a) # rest) = Throws (map option_echo results @ usage prog, 0)) \<and>
         (length (filepath opts) \<le> length a \<longrightarrow>
            collect_options fl prog opts (results @ (CHR ''f'', a) # rest) = Undefined)"
proof -
  from collect_options_accepted [OF assms] obtain opts' where
    o: "collect_options fl prog opts results = Returns (map option_echo results, opts')" "length (filepath opts') = length (filepath opts)"
    by (auto simp: options_after_def)
  have "length (filepath opts) \<le> length a \<Longrightarrow> strcpy (filepath opts') a = None"
    using strcpy_defined [of "filepath opts'" a] o(2) by auto
  then show ?thesis by (auto simp: collect_options_append [OF o(1)] handle_option_def)
qed

theorem option_loop_failures_witness:
  "\<exists>out. collect_options \<lparr>O_SYNC = 16, O_DSYNC = 64\<rparr> ''w'' (blank_options 4) [(CHR ''s'', ''1''), (CHR ''?'', [])] = Throws (out, 0) \<and>
   collect_options \<lparr>O_SYNC = 16, O_DSYNC = 64\<rparr> ''w'' (blank_options 4) [(CHR ''s'', ''1''), (CHR ''f'', ''/tmp'')] = Undefined"
  using option_loop_failures [of "[(CHR ''s'', ''1'')]" "blank_options 4" "CHR ''?''" "\<lparr>O_SYNC = 16, O_DSYNC = 64\<rparr>" "''w''" "[]" "[]"]
    option_loop_failures [of "[(CHR ''s'', ''1'')]" "blank_options 4" "CHR ''?''" "\<lparr>O_SYNC = 16, O_DSYNC = 64\<rparr>" "''w''" "''/tmp''" "[]"]
  by (simp add: acceptable_def blank_options_def)

text \<open>The two tables name the same letters, and these are the letters that the \<^verbatim>\<open>switch\<close> knows: a long or a short option of
  the tables never leads to \<^verbatim>\<open>usage\<close>, and the usage text names every long option.\<close>

lemma option_tables_agree:
  "map snd long_options = filter (\<lambda>c. c \<noteq> CHR '':'') short_options"
  "c \<in> snd ` set long_options \<longleftrightarrow> (\<forall>out e. handle_option fl prog opts c a \<noteq> Throws (out, e))"
  "\<forall>(name, c) \<in> set long_options. \<exists>l \<in> set (usage prog). take (length name + 3) l = ''--'' @ name @ ''=''"
  by (simp_all add: long_options_def short_options_def usage_def handle_option_def Let_def split: option.split)

end
