(* ===== verification/WriteTool.thy ===== *)
theory WriteTool
  imports Options "HOL-Library.Signed_Division"
begin

text \<open>
  The write tool of \<^verbatim>\<open>async_to_sync_writes\<close>: \<^verbatim>\<open>buffer_initialize.c\<close>, \<^verbatim>\<open>pwrite_test.c\<close>,
  \<^verbatim>\<open>lio_listio_test.c\<close> and \<^verbatim>\<open>main.c\<close>. The calls to the system are a list of events, their results are
  part of the environment. Arithmetic on \<^verbatim>\<open>int\<close> that overflows, a division by zero and a use
  of an uninitialised variable are \<open>Undefined\<close>.
\<close>

subsection \<open>Machine integers\<close>

definition INT_MAX :: int where "INT_MAX = 2 ^ 31 - 1"

definition to_int32 :: "int \<Rightarrow> int" where
  "to_int32 v = signed_take_bit 31 v"

definition int_mult :: "int \<Rightarrow> int \<Rightarrow> int option" where
  "int_mult a b = (if - (2 ^ 31) \<le> a * b \<and> a * b \<le> INT_MAX then Some (a * b) else None)"

text \<open>\<^verbatim>\<open>unsigned long iterations = filesize / blocksize\<close>.\<close>

definition iteration_count :: "int \<Rightarrow> int \<Rightarrow> nat option" where
  "iteration_count fs bs =
     (if bs = 0 \<or> fs = LLONG_MIN \<and> bs = -1 then None else Some (nat ((fs sdiv bs) mod 2 ^ 64)))"

text \<open>Products of \<^verbatim>\<open>long long\<close> values that do not overflow.\<close>

definition ll_ok :: "int \<Rightarrow> bool" where
  "ll_ok v \<longleftrightarrow> LLONG_MIN \<le> v \<and> v \<le> LLONG_MAX"

subsection \<open>Events and environment\<close>

datatype tool_event =
    Tool_print string
  | Tool_perror string
  | Open_file string int
  | Read_random int int
  | Pwrite int int int int
  | Lio_nowait "(int \<times> int \<times> int) list"
  | Free_blocks nat
  | Aio_submit int int int
  | Seed_random
  | Block_signals
  | Start_thread
  | Sleep int
  | Rename_file string string
  | Unlink_file string

text \<open>How a part of the program ends: it returns its events and perhaps a value, or ends the process after some events.\<close>

type_synonym 'a tool_end = "(tool_event list \<times> int, 'a) outcome"

text \<open>
  \<open>buffers_base\<close> is the address that \<^verbatim>\<open>malloc\<close> returns for the buffers, 0 if it fails; \<open>pwrite_result\<close> and \<open>listio_result\<close> are the results
  of the writes, by the number of calls of \<^verbatim>\<open>rand\<close> before; \<open>timestamp n\<close> is the text of the \<open>n\<close>-th \<^verbatim>\<open>strftime\<close>;
  \<open>aio_run\<close> is one run of the two threads of the \<^verbatim>\<open>aio_write\<close> test, \<open>None\<close> when it does not
  return; \<open>lio_signals\<close> are the results of \<^verbatim>\<open>sigwaitinfo\<close> in the list test; \<open>heap\<close> is the
  content of the block that \<^verbatim>\<open>malloc\<close> returns for the new file name, \<open>None\<close> if it fails.
\<close>

datatype sigwait = Aio_complete | Stop | Failed bool

record tool_environment =
  urandom_fd :: int
  file_fd :: int
  buffers_base :: int
  rand_result :: "nat \<Rightarrow> nat"
  pwrite_result :: "nat \<Rightarrow> int"
  listio_result :: "nat \<Rightarrow> int"
  listio_max :: int
  aio_max :: int
  lio_signals :: "sigwait list"
  aio_run :: "tool_event list tool_end option"
  timestamp :: "nat \<Rightarrow> string"
  heap :: "char list option"

subsection \<open>buffer\_initialize\<close>

definition BUFFER_COUNT :: int where "BUFFER_COUNT = 200"

text \<open>The result is the size of the allocation and the events. A negative size makes
  \<^verbatim>\<open>malloc\<close> fail, and the addresses computed from a null pointer are undefined.\<close>

definition buffer_initialize :: "tool_environment \<Rightarrow> int \<Rightarrow> int \<Rightarrow> (int \<times> tool_event list) tool_end" where
  "buffer_initialize env buffer_count bufsize =
     (case int_mult buffer_count bufsize of
        None \<Rightarrow> Undefined
      | Some alloc \<Rightarrow>
          (let evs = [Tool_print (''Generating random buffers'' @ NL), Open_file ''/dev/urandom'' 0] in
           if urandom_fd env = 0 then Throws (evs @ [Tool_perror ''Unable to open /dev/urandom''], 2)
           else if alloc < 0 \<or> buffers_base env = 0 then Undefined
           else Returns (alloc, evs @ [Tool_print (''        Base address '' @ print_lld (buffers_base env) @ NL)] @
                  concat (map (\<lambda>i. [Tool_print (''Reading into address '' @ print_lld (buffers_base env + i * bufsize) @ NL),
                                    Read_random (i * bufsize) bufsize]) [0..buffer_count - 1]))))"

subsection \<open>pwrite\_test\<close>

definition pick_buffer :: "tool_environment \<Rightarrow> nat \<Rightarrow> int \<Rightarrow> int" where
  "pick_buffer env k buffer_count = int (rand_result env k) mod buffer_count"

text \<open>\<open>None\<close> is an overflow of the \<^verbatim>\<open>int\<close> counter, of the offset or of the distance of the buffer. A failing write is
  only reported.\<close>

function pwrite_loop :: "tool_environment \<Rightarrow> int \<Rightarrow> int \<Rightarrow> int \<Rightarrow> nat \<Rightarrow> nat \<Rightarrow> tool_event list option" where
  "pwrite_loop env fd bs buffer_count iters i =
     (if i < iters
      then (let offset = int i * bs; distance = pick_buffer env i buffer_count * bs in
            if INT_MAX \<le> int i \<or> \<not> ll_ok offset \<or> \<not> ll_ok distance then None
            else map_option ((@) (Pwrite fd distance bs offset #
                    (if pwrite_result env i = -1
                     then [Tool_print (''Failed to write iteration '' @ decimal i @ NL), Tool_perror ''FAILED WITH''] else [])))
                   (pwrite_loop env fd bs buffer_count iters (i + 1)))
      else Some [])"
  by pat_completeness auto

termination
  by (relation "measure (\<lambda>(env, fd, bs, bc, iters, i). iters - i)") auto

declare pwrite_loop.simps [simp del]

definition pwrite_test :: "tool_environment \<Rightarrow> int \<Rightarrow> int \<Rightarrow> int \<Rightarrow> int \<Rightarrow> tool_event list tool_end" where
  "pwrite_test env fd fs bs buffer_count =
     (case iteration_count fs bs of
        None \<Rightarrow> Undefined
      | Some iters \<Rightarrow>
          (case pwrite_loop env fd bs buffer_count iters 0 of
             None \<Rightarrow> Undefined
           | Some evs \<Rightarrow>
               Returns ([Tool_print (''ITERATIONS: '' @ decimal iters @ NL),
                         Tool_print (''BUFFER ADDRESS RANGE STARTS AT: '' @ print_lld (buffers_base env) @ NL), Seed_random] @ evs)))"

subsection \<open>lio\_listio\_test\<close>

text \<open>One round: fill the list, submit it without waiting, sleep, report a failure, free the control blocks. \<open>None\<close> is an overflow
  of the distance of a buffer.\<close>

definition lio_round :: "tool_environment \<Rightarrow> int \<Rightarrow> int \<Rightarrow> int \<Rightarrow> nat \<Rightarrow> tool_event list option" where
  "lio_round env fd bs buffer_count k =
     (let n = nat (listio_max env); blocks = map (\<lambda>j. (fd, pick_buffer env (k + j) buffer_count * bs, bs)) [0..<n] in
      if list_all (\<lambda>(fd, distance, size). ll_ok distance) blocks
      then Some ([Lio_nowait blocks, Sleep 2] @
             (if listio_result env k = 0 then [] else [Tool_perror ''lio_listio FAILED'']) @ [Free_blocks n])
      else None)"

text \<open>The counter is an \<^verbatim>\<open>int\<close> that is compared as an \<^verbatim>\<open>unsigned long\<close>. The result is \<open>Some None\<close> for an overflow and \<open>None\<close> for a loop
  that does not end.\<close>

partial_function (option) lio_loop ::
  "tool_environment \<Rightarrow> int \<Rightarrow> int \<Rightarrow> int \<Rightarrow> nat \<Rightarrow> nat \<Rightarrow> int \<Rightarrow> tool_event list option option" where
  "lio_loop env fd bs buffer_count iters k i =
     (if i mod 2 ^ 64 < int iters
      then (case lio_round env fd bs buffer_count k of
              None \<Rightarrow> Some None
            | Some evs \<Rightarrow>
                Option.bind (lio_loop env fd bs buffer_count iters (k + nat (listio_max env)) (to_int32 (i + listio_max env)))
                  (\<lambda>rest. Some (map_option ((@) evs) rest)))
      else Some (Some []))"

text \<open>The completion thread: the lines it has printed, the number of completions it has counted and whether it has returned. Its
  lines come between those of the main thread in an order that is not fixed; they are not part of the events of the test.\<close>

fun lio_sig_thread :: "nat \<Rightarrow> sigwait list \<Rightarrow> string list \<times> nat \<times> bool" where
  "lio_sig_thread count [] = ([], count, False)"
| "lio_sig_thread count (Aio_complete # rs) =
     (case lio_sig_thread (count + 1) rs of
        (out, n, ended) \<Rightarrow> ((decimal (count + 1) @ '' I/O list completions handled'' @ NL) # out, n, ended))"
| "lio_sig_thread count (Stop # rs) = ([], count, True)"
| "lio_sig_thread count (Failed interrupted # rs) =
     (if interrupted then lio_sig_thread count rs else ([], count, True))"

text \<open>\<^verbatim>\<open>pthread_join\<close> at the end returns only if the completion thread does.\<close>

definition lio_listio_test ::
  "tool_environment \<Rightarrow> int \<Rightarrow> int \<Rightarrow> int \<Rightarrow> int \<Rightarrow> tool_event list tool_end option" where
  "lio_listio_test env fd fs bs buffer_count =
     (case iteration_count fs bs of
        None \<Rightarrow> Some Undefined
      | Some iters \<Rightarrow>
          if listio_max env \<le> 0 then Some Undefined
          else Option.bind (lio_loop env fd bs buffer_count iters 0 0)
                 (\<lambda>res. case res of
                    None \<Rightarrow> Some Undefined
                  | Some evs \<Rightarrow>
                      if snd (snd (lio_sig_thread 0 (lio_signals env)))
                      then Some (Returns ([Tool_print (''On this platform, AIO_LISTIO_MAX = ['' @ print_lld (listio_max env) @ '']'' @ NL),
                                           Tool_print (''Max outstanding AIO I/Os: ['' @ print_lld (aio_max env) @ '']'' @ NL),
                                           Block_signals, Start_thread, Seed_random] @ evs))
                      else None))"

subsection \<open>main\<close>

definition filepath_suffix :: string where
  "filepath_suffix = ''.done''"

definition OPEN_FLAGS :: "int \<Rightarrow> int \<Rightarrow> int" where
  "OPEN_FLAGS base sync = base OR sync"

definition option_lines :: "open_flags \<Rightarrow> string \<Rightarrow> int \<Rightarrow> int \<Rightarrow> test_type \<Rightarrow> int \<Rightarrow> int \<Rightarrow> string list" where
  "option_lines fl path fs bs t sync delay =
     [''Running with following options:'' @ NL,
      ''File to write: '' @ path @ '', File size '' @ print_lld fs @ '', I/O Block Size: '' @ print_lld bs @ NL,
      ''I/O Test: '' @ (case t of Test_pwrite \<Rightarrow> ''pwrite'' | Test_aio_write \<Rightarrow> ''aio_write'' | Test_lio_listio \<Rightarrow> ''lio_listio'') @
        '', Synchronized Type: '' @
        (if sync AND O_SYNC fl \<noteq> 0 then ''O_SYNC'' else if sync AND O_DSYNC fl \<noteq> 0 then ''O_DSYNC'' else ''No Synchronization'') @ NL,
      ''Rename delay after I/Os submitted: '' @ print_lld delay @ '' seconds'' @ NL]"

definition renamed_path :: "char list \<Rightarrow> string \<Rightarrow> string option" where
  "renamed_path block path =
     Option.bind (strcat block path) (\<lambda>b. Option.bind (strcat b filepath_suffix) c_str)"

text \<open>The argument of \<^verbatim>\<open>sleep\<close> is an \<^verbatim>\<open>unsigned int\<close>.\<close>

definition finish :: "tool_environment \<Rightarrow> string \<Rightarrow> string \<Rightarrow> int \<Rightarrow> tool_event list" where
  "finish env path renamed delay =
     (if delay \<noteq> 0
      then [Tool_print (''Sleeping '' @ print_lld delay @ '' seconds before rename...'' @ NL), Sleep (delay mod 2 ^ 32)] else []) @
     [Tool_print (''     Renaming file '' @ path @ '' to '' @ renamed @ '' at: '' @ timestamp env 1 @ NL),
      Rename_file path renamed,
      Tool_print ('' Renaming complete at: '' @ timestamp env 2 @ NL),
      Tool_print (''sleeping 4 seconds after rename and before unlink...'' @ NL),
      Sleep 4, Unlink_file renamed]"

definition run_test :: "tool_environment \<Rightarrow> test_type \<Rightarrow> int \<Rightarrow> int \<Rightarrow> tool_event list tool_end option" where
  "run_test env t fs bs =
     (case t of
        Test_pwrite \<Rightarrow> Some (pwrite_test env (file_fd env) fs bs BUFFER_COUNT)
      | Test_aio_write \<Rightarrow> aio_run env
      | Test_lio_listio \<Rightarrow> lio_listio_test env (file_fd env) fs bs BUFFER_COUNT)"

definition main_after_options ::
  "tool_environment \<Rightarrow> open_flags \<Rightarrow> int \<Rightarrow> options \<Rightarrow> tool_event list tool_end option" where
  "main_after_options env fl base_flags opts =
     (case (c_str (filepath opts), filesize opts, blocksize opts, test opts) of
        (Some path, Some fs, Some bs, Some t) \<Rightarrow>
          (let intro = map Tool_print (option_lines fl path fs bs t (sync_type opts) (rename_delay opts)) in
           case Option.bind (heap env) (\<lambda>block. renamed_path block path) of
             None \<Rightarrow> Some Undefined
           | Some renamed \<Rightarrow>
               (case buffer_initialize env BUFFER_COUNT (to_int32 bs) of
                  Undefined \<Rightarrow> Some Undefined
                | Throws (evs, e) \<Rightarrow> Some (Throws (intro @ evs, e))
                | Returns (alloc, reads) \<Rightarrow>
                    (let evs = intro @ reads @
                           [Tool_print (''INITIALIZED BUFFER BASE ADDRESS: '' @ print_lld (buffers_base env) @ NL),
                            Open_file path (OPEN_FLAGS base_flags (sync_type opts))] in
                     if file_fd env = 0 then Some (Throws (evs @ [Tool_perror ''Unable to open file''], 1))
                     else (case run_test env t fs bs of
                             None \<Rightarrow> None
                           | Some Undefined \<Rightarrow> Some Undefined
                           | Some (Throws (tr, e)) \<Rightarrow>
                               Some (Throws (evs @ Tool_print (''    Writing begins at: '' @ timestamp env 0 @ NL) # tr, e))
                           | Some (Returns writes) \<Rightarrow>
                               Some (Returns (evs @ Tool_print (''    Writing begins at: '' @ timestamp env 0 @ NL) # writes @
                                 finish env path renamed (rename_delay opts)))))))
      | _ \<Rightarrow> Some Undefined)"

definition main_program ::
  "tool_environment \<Rightarrow> open_flags \<Rightarrow> int \<Rightarrow> string \<Rightarrow> options \<Rightarrow> (char \<times> string) list \<Rightarrow> tool_event list tool_end option" where
  "main_program env fl base_flags prog opts results =
     (case collect_options fl prog opts results of
        Undefined \<Rightarrow> Some Undefined
      | Throws (out, e) \<Rightarrow> Some (Throws (map Tool_print out, e))
      | Returns (out, opts') \<Rightarrow>
          (case main_after_options env fl base_flags opts' of
             None \<Rightarrow> None
           | Some Undefined \<Rightarrow> Some Undefined
           | Some (Throws (evs, e)) \<Rightarrow> Some (Throws (map Tool_print out @ evs, e))
           | Some (Returns evs) \<Rightarrow> Some (Returns (map Tool_print out @ evs))))"

subsection \<open>Lemmas\<close>

lemma ll_okI: "0 \<le> v \<Longrightarrow> v \<le> LLONG_MAX \<Longrightarrow> ll_ok v"
  by (simp add: ll_ok_def LLONG_MIN_def)

lemma iteration_count_nonneg:
  assumes "0 \<le> fs" "fs \<le> LLONG_MAX" "0 < bs"
  shows "iteration_count fs bs = Some (nat (fs div bs))"
proof -
  have "fs div bs \<le> fs" using zdiv_mono2 [of fs 1 bs] assms by simp
  then have "fs div bs < 2 ^ 64" using assms(2) by (simp add: LLONG_MAX_def)
  moreover have "0 \<le> fs div bs" using assms by (simp add: pos_imp_zdiv_nonneg_iff)
  moreover have "fs sdiv bs = fs div bs" using assms by (cases "fs = 0") (simp_all add: signed_divide_int_def)
  ultimately show ?thesis using assms by (simp add: iteration_count_def LLONG_MIN_def)
qed

lemma pick_buffer_bounds: "0 < bc \<Longrightarrow> 0 \<le> pick_buffer env k bc \<and> pick_buffer env k bc + 1 \<le> bc"
  by (simp add: pick_buffer_def zless_imp_add1_zle)

lemma block_in_buffers:
  assumes "0 < bc" "0 < bs"
  shows "0 \<le> pick_buffer env k bc * bs \<and> pick_buffer env k bc * bs + bs \<le> bc * bs"
proof -
  have "(pick_buffer env k bc + 1) * bs \<le> bc * bs"
    using pick_buffer_bounds [OF assms(1), of env k] assms(2) by (intro mult_right_mono) auto
  then show ?thesis using pick_buffer_bounds [OF assms(1), of env k] assms(2) by (simp add: algebra_simps)
qed

text \<open>The events of a run that write, read the random source, or name a file.\<close>

fun is_pwrite :: "tool_event \<Rightarrow> bool" where
  "is_pwrite (Pwrite fd b n off) = True"
| "is_pwrite _ = False"

fun is_read :: "tool_event \<Rightarrow> bool" where
  "is_read (Read_random b n) = True"
| "is_read _ = False"

fun is_name_op :: "tool_event \<Rightarrow> bool" where
  "is_name_op (Open_file p f) = True"
| "is_name_op (Rename_file p q) = True"
| "is_name_op (Unlink_file p) = True"
| "is_name_op _ = False"

lemma pwrite_loop_Some:
  assumes "int iters \<le> INT_MAX" "0 < bs" "int iters * bs \<le> LLONG_MAX" "0 < bc" "bc * bs \<le> LLONG_MAX"
  shows "\<exists>evs. pwrite_loop env fd bs bc iters i = Some evs \<and> filter is_name_op evs = [] \<and>
     filter is_pwrite evs = map (\<lambda>i. Pwrite fd (pick_buffer env i bc * bs) bs (int i * bs)) [i..<iters]"
  using assms
proof (induction env fd bs bc iters i rule: pwrite_loop.induct)
  case (1 env fd bs bc iters i)
  show ?case
  proof (cases "i < iters")
    case True
    have "int i * bs \<le> int iters * bs" using True 1(3) by (intro mult_right_mono) auto
    from order_trans [OF this 1(4)] have "ll_ok (int i * bs)" by (rule ll_okI [rotated]) (use 1(3) in simp)
    moreover have "ll_ok (pick_buffer env i bc * bs)"
      using block_in_buffers [OF 1(5,3), of env i] 1(3,6) by (simp add: ll_ok_def LLONG_MIN_def)
    moreover have "\<not> INT_MAX \<le> int i" using True 1(2) by simp
    ultimately have ok: "\<not> (INT_MAX \<le> int i \<or> \<not> ll_ok (int i * bs) \<or> \<not> ll_ok (pick_buffer env i bc * bs))" by blast
    from 1(1) [OF True refl refl ok 1(2-6)] obtain evs where
      "pwrite_loop env fd bs bc iters (i + 1) = Some evs" "filter is_name_op evs = []"
      "filter is_pwrite evs = map (\<lambda>i. Pwrite fd (pick_buffer env i bc * bs) bs (int i * bs)) [i + 1..<iters]" by blast
    with True ok show ?thesis
      by (simp add: pwrite_loop.simps [of env fd bs bc iters i] upt_conv_Cons Let_def)
  next
    case False
    then show ?thesis by (simp add: pwrite_loop.simps [of env fd bs bc iters i])
  qed
qed

lemma pwrite_test_writes:
  assumes "0 \<le> fs" "fs \<le> LLONG_MAX" "0 < bs" "fs div bs \<le> INT_MAX" "0 < bc" "bc * bs \<le> LLONG_MAX"
  shows "\<exists>evs. pwrite_test env fd fs bs bc = Returns evs \<and> filter is_name_op evs = [] \<and>
     filter is_pwrite evs = map (\<lambda>i. Pwrite fd (pick_buffer env i bc * bs) bs (int i * bs)) [0..<nat (fs div bs)]"
proof -
  have pos: "0 \<le> fs div bs" using assms(1,3) by (simp add: pos_imp_zdiv_nonneg_iff)
  have "fs div bs * bs \<le> fs" using minus_mod_eq_div_mult [of fs bs] pos_mod_sign [OF assms(3), of fs] by linarith
  with pos assms pwrite_loop_Some [of "nat (fs div bs)" bs bc env fd 0] show ?thesis
    by (fastforce simp: pwrite_test_def iteration_count_nonneg)
qed

text \<open>
  The \<^verbatim>\<open>pwrite\<close> test tiles the file: for a positive block size, up to
  \<open>2 ^ 31 - 1\<close> blocks and buffers whose size is a \<^verbatim>\<open>long long\<close>, it returns after \<open>filesize div blocksize\<close> writes, the \<open>i\<close>-th of one
  block at offset \<open>i * blocksize\<close>, each from one of the \<open>bc\<close> blocks behind the start of the buffers. The blocks cover
  exactly \<open>filesize - filesize mod blocksize\<close> bytes: a trailing partial block is not written. This holds also when writes fail,
  since the test only reports a failure and goes on.
\<close>

theorem pwrite_tiles_file:
  assumes "0 \<le> fs" "fs \<le> LLONG_MAX" "0 < bs" "fs div bs \<le> INT_MAX" "0 < bc" "bc * bs \<le> LLONG_MAX"
  shows "\<exists>evs ws. pwrite_test env fd fs bs bc = Returns evs \<and> filter is_pwrite evs = ws \<and> int (length ws) * bs = fs - fs mod bs \<and>
     (\<forall>i < length ws. \<exists>b. ws ! i = Pwrite fd b bs (int i * bs) \<and> 0 \<le> b \<and> b + bs \<le> bc * bs)"
proof -
  let ?ws = "map (\<lambda>i. Pwrite fd (pick_buffer env i bc * bs) bs (int i * bs)) [0..<nat (fs div bs)]"
  have pos: "0 \<le> fs div bs" using assms by (simp add: pos_imp_zdiv_nonneg_iff)
  have "int (length ?ws) * bs = fs - fs mod bs" using pos by (simp add: minus_mod_eq_div_mult)
  moreover have "\<forall>i < length ?ws. \<exists>b. ?ws ! i = Pwrite fd b bs (int i * bs) \<and> 0 \<le> b \<and> b + bs \<le> bc * bs"
    using block_in_buffers [OF assms(5,3)] by simp
  ultimately show ?thesis using pwrite_test_writes [OF assms] by blast
qed

definition sample_environment :: tool_environment where
  "sample_environment = \<lparr>urandom_fd = 3, file_fd = 4, buffers_base = 65536, rand_result = \<lambda>n. 41 * n, pwrite_result = \<lambda>n. 300,
     listio_result = \<lambda>n. 0, listio_max = 2, aio_max = 100,
     lio_signals = [Aio_complete, Aio_complete], aio_run = None, timestamp = \<lambda>n. ''now'', heap = Some (replicate 32 NUL)\<rparr>"

theorem pwrite_tiles_file_witness:
  "\<exists>evs ws. pwrite_test sample_environment 4 1000 300 200 = Returns evs \<and> filter is_pwrite evs = ws \<and> int (length ws) * 300 = 900"
  using pwrite_tiles_file [of 1000 300 200 sample_environment 4] by (auto simp: LLONG_MAX_def INT_MAX_def)

lemma buffer_initialize_reads:
  assumes "0 < bs" "BUFFER_COUNT * bs \<le> INT_MAX" "urandom_fd env \<noteq> 0" "buffers_base env \<noteq> 0"
  shows "\<exists>evs. buffer_initialize env BUFFER_COUNT (to_int32 bs) = Returns (BUFFER_COUNT * bs, evs) \<and>
    filter is_read evs = map (\<lambda>i. Read_random (i * bs) bs) [0..BUFFER_COUNT - 1] \<and>
    filter is_name_op evs = [Open_file ''/dev/urandom'' 0] \<and> filter is_pwrite evs = []"
proof -
  have bs: "to_int32 bs = bs"
    using assms(1,2) unfolding to_int32_def by (intro signed_take_bit_int_eq_self) (simp_all add: BUFFER_COUNT_def INT_MAX_def)
  have loop: "filter is_read (concat (map (\<lambda>i. [Tool_print (f i), Read_random (i * bs) bs]) is)) = map (\<lambda>i. Read_random (i * bs) bs) is"
    "filter is_name_op (concat (map (\<lambda>i. [Tool_print (f i), Read_random (i * bs) bs]) is)) = []"
    "filter is_pwrite (concat (map (\<lambda>i. [Tool_print (f i), Read_random (i * bs) bs]) is)) = []" for f "is"
    by (induction "is") simp_all
  have "int_mult BUFFER_COUNT bs = Some (BUFFER_COUNT * bs)" "\<not> BUFFER_COUNT * bs < 0"
    using assms(1,2) by (simp_all add: int_mult_def BUFFER_COUNT_def)
  then show ?thesis
    using assms(3,4) by (simp add: bs buffer_initialize_def Let_def loop)
qed

text \<open>
  Property C32. The random buffers hold \<^verbatim>\<open>BUFFER_COUNT\<close> blocks exactly when 200 blocks fit an \<^verbatim>\<open>int\<close>:
  then the reads fill the allocation block by block; for a larger block size the allocation,
  if there is one at all, is smaller than the 200 blocks that the write tests choose from,
  because \<^verbatim>\<open>main\<close> passes the \<^verbatim>\<open>long long\<close> block size to an \<^verbatim>\<open>int\<close> parameter.
\<close>

theorem buffers_hold_blocks:
  assumes "0 < bs" "urandom_fd env \<noteq> 0" "buffers_base env \<noteq> 0"
  shows "(BUFFER_COUNT * bs \<le> INT_MAX \<longrightarrow>
            (\<exists>evs. buffer_initialize env BUFFER_COUNT (to_int32 bs) = Returns (BUFFER_COUNT * bs, evs) \<and>
               filter is_read evs = map (\<lambda>i. Read_random (i * bs) bs) [0..BUFFER_COUNT - 1])) \<and>
         (INT_MAX < BUFFER_COUNT * bs \<longrightarrow>
            (\<forall>alloc evs. buffer_initialize env BUFFER_COUNT (to_int32 bs) = Returns (alloc, evs) \<longrightarrow>
               alloc < BUFFER_COUNT * bs))"
proof (intro conjI impI allI)
  assume "BUFFER_COUNT * bs \<le> INT_MAX"
  from buffer_initialize_reads [OF assms(1) this assms(2,3)]
  show "\<exists>evs. buffer_initialize env BUFFER_COUNT (to_int32 bs) = Returns (BUFFER_COUNT * bs, evs) \<and>
      filter is_read evs = map (\<lambda>i. Read_random (i * bs) bs) [0..BUFFER_COUNT - 1]" by blast
next
  fix alloc evs
  assume "INT_MAX < BUFFER_COUNT * bs" "buffer_initialize env BUFFER_COUNT (to_int32 bs) = Returns (alloc, evs)"
  then show "alloc < BUFFER_COUNT * bs"
    by (auto simp: buffer_initialize_def int_mult_def Let_def split: if_splits)
qed

theorem buffers_hold_blocks_witness:
  "fst (case buffer_initialize sample_environment BUFFER_COUNT (to_int32 (2 ^ 32 + 512)) of Returns p \<Rightarrow> p) = 102400 \<and>
   (102400 :: int) < BUFFER_COUNT * (2 ^ 32 + 512)"
proof -
  have "\<exists>evs. buffer_initialize sample_environment BUFFER_COUNT (to_int32 (2 ^ 32 + 512)) = Returns (102400, evs)"
    by (simp add: buffer_initialize_def int_mult_def to_int32_def BUFFER_COUNT_def INT_MAX_def sample_environment_def Let_def)
  with buffers_hold_blocks [of "2 ^ 32 + 512" sample_environment] show ?thesis
    by (auto simp: sample_environment_def BUFFER_COUNT_def INT_MAX_def)
qed

subsection \<open>The new name of the file\<close>

lemma renamed_path_garbage:
  assumes "c_str block = Some g" "NUL \<notin> set path" "length g + length path + 5 < length block"
  shows "renamed_path block path = Some (g @ path @ filepath_suffix)"
proof -
  have suffix: "NUL \<notin> set filepath_suffix" "length filepath_suffix = 5" by (simp_all add: filepath_suffix_def NUL_def)
  from strcat_defined [OF assms(1), of path] assms(3) obtain b where b: "strcat block path = Some b" by auto
  then have cb: "c_str b = Some (g @ path)" "length b = length block"
    using c_str_strcat [OF assms(1,2)] by (simp_all add: length_strcat)
  from strcat_defined [OF cb(1), of filepath_suffix] assms(3) cb(2) suffix(2)
  obtain b' where b': "strcat b filepath_suffix = Some b'" by auto
  with c_str_strcat [OF cb(1) suffix(1) b'] b show ?thesis by (simp add: renamed_path_def)
qed

text \<open>
  The calls of a complete run of the tool with the \<^verbatim>\<open>pwrite\<close> test that touch files: it opens the random source and the
  file, makes all its writes, and renames and removes the file. The new name starts with whatever string \<open>g\<close> the memory block
  from \<^verbatim>\<open>malloc\<close> happens to hold, since \<^verbatim>\<open>strcat\<close> appends to it.
\<close>

definition is_file_call :: "tool_event \<Rightarrow> bool" where
  "is_file_call e \<longleftrightarrow> is_name_op e \<or> is_pwrite e"

lemma filter_file_calls:
  "filter is_pwrite evs = [] \<Longrightarrow> filter is_file_call evs = filter is_name_op evs"
  "filter is_name_op evs = [] \<Longrightarrow> filter is_file_call evs = filter is_pwrite evs"
  by (auto simp: is_file_call_def filter_empty_conv intro: filter_cong)

lemma pwrite_run_calls:
  assumes "c_str (filepath opts) = Some path" "filesize opts = Some fs" "blocksize opts = Some bs"
    and "test opts = Some Test_pwrite" "0 \<le> fs" "fs \<le> LLONG_MAX" "0 < bs" "fs div bs \<le> INT_MAX"
    and "BUFFER_COUNT * bs \<le> INT_MAX" "urandom_fd env \<noteq> 0" "file_fd env \<noteq> 0" "buffers_base env \<noteq> 0"
    and "heap env = Some block" "c_str block = Some g" "length g + length path + 5 < length block"
  shows "\<exists>evs. main_after_options env fl base opts = Some (Returns evs) \<and>
     filter is_file_call evs = [Open_file ''/dev/urandom'' 0, Open_file path (OPEN_FLAGS base (sync_type opts))] @
       map (\<lambda>i. Pwrite (file_fd env) (pick_buffer env i BUFFER_COUNT * bs) bs (int i * bs)) [0..<nat (fs div bs)] @
       [Rename_file path (g @ path @ ''.done''), Unlink_file (g @ path @ ''.done'')]"
proof -
  have "NUL \<notin> set path" using assms(1) by (simp add: c_str_Some_iff)
  with assms(14,15) have name: "renamed_path block path = Some (g @ path @ ''.done'')"
    using renamed_path_garbage by (simp add: filepath_suffix_def)
  have "BUFFER_COUNT * bs \<le> LLONG_MAX" "0 < BUFFER_COUNT" using assms(9) by (simp_all add: INT_MAX_def LLONG_MAX_def BUFFER_COUNT_def)
  from pwrite_test_writes [OF assms(5-8) this(2,1), of env "file_fd env"] obtain writes where
    w: "pwrite_test env (file_fd env) fs bs BUFFER_COUNT = Returns writes"
      "filter is_file_call writes = map (\<lambda>i. Pwrite (file_fd env) (pick_buffer env i BUFFER_COUNT * bs) bs (int i * bs)) [0..<nat (fs div bs)]"
    using filter_file_calls(2) by metis
  from buffer_initialize_reads [OF assms(7,9,10,12)] obtain reads where
    r: "buffer_initialize env BUFFER_COUNT (to_int32 bs) = Returns (BUFFER_COUNT * bs, reads)"
      "filter is_file_call reads = [Open_file ''/dev/urandom'' 0]"
    using filter_file_calls(1) by metis
  have prints: "filter is_file_call (map Tool_print ls) = []" for ls
    by (induction ls) (simp_all add: is_file_call_def)
  have fin: "filter is_file_call (finish env path renamed d) = [Rename_file path renamed, Unlink_file renamed]" for renamed d
    by (simp add: finish_def is_file_call_def)
  have one: "\<not> is_file_call (Tool_print l)" "is_file_call (Open_file p f)" for l p f by (simp_all add: is_file_call_def)
  show ?thesis
    using assms(1-4,11,13) w r name by (simp add: main_after_options_def run_test_def Let_def prints fin one)
qed

definition sample_options :: options where
  "sample_options = \<lparr>filepath = ''/tmp/a'' @ [NUL, NUL], filesize = Some 600, blocksize = Some 300,
     test = Some Test_pwrite, sync_type = 0, rename_delay = 0\<rparr>"

subsection \<open>The list test\<close>

fun is_list_submission :: "tool_event \<Rightarrow> bool" where
  "is_list_submission (Lio_nowait bs) = True"
| "is_list_submission _ = False"

lemma lio_sig_thread_waits:
  "set rs \<subseteq> {Aio_complete, Failed True} \<Longrightarrow>
     snd (lio_sig_thread n rs) = (n + length (filter (\<lambda>r. r = Aio_complete) rs), False)"
  by (induction n rs rule: lio_sig_thread.induct) (auto split: prod.splits)

lemma lio_round_Some:
  assumes "0 < bs" "0 < bc" "bc * bs \<le> LLONG_MAX"
  obtains evs where "lio_round env fd bs bc k = Some evs" "length (filter is_list_submission evs) = 1"
proof -
  have "ll_ok (pick_buffer env j bc * bs)" for j
    using block_in_buffers [OF assms(2,1), of env j] assms by (simp add: ll_ok_def LLONG_MIN_def)
  then have "list_all (\<lambda>(fd, distance, size). ll_ok distance) (map (\<lambda>j. (fd, pick_buffer env (k + j) bc * bs, bs)) js)" for js
    by (simp add: list_all_iff)
  then show thesis by (intro that) (auto simp: lio_round_def Let_def)
qed

lemma lio_loop_rounds:
  assumes "0 < listio_max env" "int iters + listio_max env \<le> INT_MAX" "0 < bs" "0 < bc" "bc * bs \<le> LLONG_MAX" "0 \<le> i" "i \<le> INT_MAX"
  shows "\<exists>evs n. lio_loop env fd bs bc iters k i = Some (Some evs) \<and> length (filter is_list_submission evs) = n \<and>
     int iters \<le> i + int n * listio_max env \<and>
     (if i < int iters then i + int n * listio_max env < int iters + listio_max env else n = 0)"
  using assms(6,7)
proof (induction "nat (int iters - i)" arbitrary: i k rule: less_induct)
  case less
  let ?m = "listio_max env"
  have i: "i mod 2 ^ 64 = i" using less.prems by (simp add: INT_MAX_def)
  show ?case
  proof (cases "i < int iters")
    case False
    with i show ?thesis by (subst lio_loop.simps) auto
  next
    case True
    with assms(1,2) less.prems have wrap: "to_int32 (i + ?m) = i + ?m"
      unfolding to_int32_def by (intro signed_take_bit_int_eq_self) (simp_all add: INT_MAX_def)
    obtain round where round: "lio_round env fd bs bc k = Some round" "length (filter is_list_submission round) = 1"
      using lio_round_Some [OF assms(3-5)] .
    have "nat (int iters - (i + ?m)) < nat (int iters - i)" "0 \<le> i + ?m" "i + ?m \<le> INT_MAX"
      using True assms(1,2) less.prems by simp_all
    from less.hyps [OF this, of "k + nat ?m"] obtain evs n where
      evs: "lio_loop env fd bs bc iters (k + nat ?m) (i + ?m) = Some (Some evs)" "length (filter is_list_submission evs) = n"
      and n: "int iters \<le> i + ?m + int n * ?m"
        "if i + ?m < int iters then i + ?m + int n * ?m < int iters + ?m else n = 0"
      by blast
    have "lio_loop env fd bs bc iters k i = Some (Some (round @ evs))"
      using True i wrap evs(1) round(1) by (subst lio_loop.simps) simp
    moreover have "length (filter is_list_submission (round @ evs)) = Suc n"
      using evs(2) round(2) by simp
    moreover have "int iters \<le> i + int (Suc n) * ?m" using n(1) by (simp add: algebra_simps)
    moreover have "i + int (Suc n) * ?m < int iters + ?m"
      using n(2) True by (auto simp: algebra_simps split: if_splits)
    ultimately show ?thesis using True
      by (intro exI [of _ "round @ evs"] exI [of _ "Suc n"]) simp
  qed
qed

text \<open>
  Property C34. The list test never returns: it submits at least \<open>filesize div blocksize\<close> writes,
  rounded up to whole lists of \<^verbatim>\<open>aio_listio_max\<close>, in finitely many rounds, but it then joins a
  thread that only leaves its loop on \<^verbatim>\<open>MYSIG_STOP\<close>, which nothing in the program sends: as
  long as \<^verbatim>\<open>sigwaitinfo\<close> reports completions or interruptions, the join does not return.
\<close>

theorem list_test_never_returns:
  assumes "0 \<le> fs" "fs \<le> LLONG_MAX" "0 < bs" "0 < listio_max env" "fs div bs + listio_max env \<le> INT_MAX"
    and "0 < bc" "bc * bs \<le> LLONG_MAX" "set (lio_signals env) \<subseteq> {Aio_complete, Failed True}"
  shows "(\<exists>evs n. lio_loop env fd bs bc (nat (fs div bs)) 0 0 = Some (Some evs) \<and> length (filter is_list_submission evs) = n \<and>
            fs div bs \<le> int n * listio_max env \<and> int n * listio_max env < fs div bs + listio_max env) \<and>
         lio_listio_test env fd fs bs bc = None"
proof -
  have pos: "0 \<le> fs div bs" using assms(1,3) by (simp add: pos_imp_zdiv_nonneg_iff)
  have "int (nat (fs div bs)) + listio_max env \<le> INT_MAX" using assms(5) pos by simp
  from lio_loop_rounds [OF assms(4) this assms(3,6,7), of 0 fd 0] obtain evs n where
    evs: "lio_loop env fd bs bc (nat (fs div bs)) 0 0 = Some (Some evs)" "length (filter is_list_submission evs) = n"
      "int (nat (fs div bs)) \<le> 0 + int n * listio_max env"
      "if 0 < int (nat (fs div bs)) then 0 + int n * listio_max env < int (nat (fs div bs)) + listio_max env else n = 0"
    by (auto simp: INT_MAX_def simp del: int_nat_eq add_0)
  have "fs div bs \<le> int n * listio_max env" using evs(3) pos by simp
  moreover have "int n * listio_max env < fs div bs + listio_max env"
    using evs(4) assms(4) pos by (auto split: if_splits)
  moreover have "lio_listio_test env fd fs bs bc = None"
    using evs(1) assms(4) lio_sig_thread_waits [OF assms(8), of 0]
    by (simp add: lio_listio_test_def iteration_count_nonneg [OF assms(1-3)])
  ultimately show ?thesis using evs(1,2) by blast
qed

theorem list_test_never_returns_witness:
  "lio_listio_test sample_environment 4 900 300 200 = None"
  using list_test_never_returns [of 900 300 sample_environment 200 4]
  by (simp add: sample_environment_def LLONG_MAX_def INT_MAX_def)

end
