(* ===== verification/AioControlBlocks.thy ===== *)
theory AioControlBlocks
  imports WriteTool AioWrite
begin

text \<open>
  The control blocks of the two asynchronous tests of the write tool: how \<^verbatim>\<open>aio_write_test.c\<close> and
  \<^verbatim>\<open>lio_listio_test.c\<close> fill them in, and how long they live. A block is in use by the system
  from its submission until its write completes; the completion stores into the block, so a block that was
  freed before is memory that is overwritten after it was given back.
\<close>

subsection \<open>The blocks\<close>

datatype sigev_notify = SIGEV_SIGNAL | SIGEV_NONE

datatype my_signal = MYSIG_AIO_COMPLETE | MYSIG_STOP

record aiocb =
  aio_fildes :: int
  aio_offset :: int
  aio_notify :: sigev_notify
  aio_signo :: my_signal
  sival_ptr :: "nat option"
  aio_nbytes :: int
  aio_buf :: int
  aio_reqprio :: int
  lio_write :: bool

text \<open>The assignments of the two programs; \<open>a\<close> is the address that \<^verbatim>\<open>malloc\<close> returned, \<open>k\<close> the
  number of the call of \<^verbatim>\<open>rand\<close>, and the buffer address is relative to \<^verbatim>\<open>buffers\<close>. \<^verbatim>\<open>malloc\<close> does not clear
  the block, so the fields that a program does not assign are arbitrary: those of \<open>old\<close>. The distance of the buffer is a product of
  type \<^verbatim>\<open>long long\<close>; \<open>None\<close> is its overflow.\<close>

definition aio_fill :: "tool_environment \<Rightarrow> int \<Rightarrow> int \<Rightarrow> int \<Rightarrow> nat \<Rightarrow> nat \<Rightarrow> aiocb \<Rightarrow> aiocb option" where
  "aio_fill env fd bs buffer_count k a old =
     (let buffer_number = pick_buffer env k buffer_count; distance = buffer_number * bs
      in if ll_ok distance
         then Some (old\<lparr>aio_fildes := fd, aio_offset := 0, aio_notify := SIGEV_SIGNAL, aio_signo := MYSIG_AIO_COMPLETE,
                sival_ptr := Some a, aio_nbytes := bs, aio_buf := distance, aio_reqprio := 0\<rparr>)
         else None)"

definition lio_fill :: "tool_environment \<Rightarrow> int \<Rightarrow> int \<Rightarrow> int \<Rightarrow> nat \<Rightarrow> aiocb \<Rightarrow> aiocb option" where
  "lio_fill env fd bs buffer_count k old =
     (let buffer_number = pick_buffer env k buffer_count; distance = buffer_number * bs
      in if ll_ok distance
         then Some (old\<lparr>aio_fildes := fd, aio_offset := 0, aio_notify := SIGEV_NONE,
                aio_nbytes := bs, aio_buf := distance, aio_reqprio := 0, lio_write := True\<rparr>)
         else None)"

text \<open>The heap as far as it holds control blocks: the allocated ones by address, those in use by the
  system, the number of allocations so far, and whether something undefined has happened: a
  completion has stored into a freed block, or the distance of a buffer has overflowed.\<close>

record cb_heap =
  blocks :: "nat \<rightharpoonup> aiocb"
  busy :: "nat set"
  allocations :: nat
  corrupted :: bool

definition completion :: "nat \<Rightarrow> 'a cb_heap_scheme \<Rightarrow> 'a cb_heap_scheme" where
  "completion a w = w\<lparr>busy := busy w - {a}, corrupted := (corrupted w \<or> blocks w a = None)\<rparr>"

definition new_block :: "aiocb \<Rightarrow> 'a cb_heap_scheme \<Rightarrow> 'a cb_heap_scheme" where
  "new_block b w = w\<lparr>blocks := (blocks w)(allocations w \<mapsto> b), allocations := allocations w + 1\<rparr>"

subsection \<open>aio\_write\_test\<close>

text \<open>The blocks beside the two threads of the program: \<open>signals\<close> are the block addresses that the queued
  completion signals carry, in their order, and \<open>handled\<close> those that \<^verbatim>\<open>sig_thread\<close> has taken, which it
  passes to \<^verbatim>\<open>aio_error\<close> and \<^verbatim>\<open>aio_return\<close>.\<close>

record aio_world = cb_heap +
  signals :: "nat list"
  handled :: "nat list"

definition aio_world_start :: aio_world where
  "aio_world_start = \<lparr>blocks = Map.empty, busy = {}, allocations = 0, corrupted = False, signals = [], handled = []\<rparr>"

text \<open>The value that the signal of a block carries.\<close>

definition notification :: "nat \<Rightarrow> aio_world \<Rightarrow> nat list" where
  "notification a w = (case blocks w a of None \<Rightarrow> []
     | Some b \<Rightarrow> (case sival_ptr b of None \<Rightarrow> [] | Some p \<Rightarrow> if aio_notify b = SIGEV_SIGNAL then [p] else []))"

text \<open>A step of the program with its effect on the blocks. Every write gets a new block (\<^verbatim>\<open>malloc\<close> finds room for it), also one that
  \<^verbatim>\<open>aio_write\<close> refuses, and nothing frees it; the kernel completes any of the writes in use; the completion
  thread takes the first signal; every other step leaves the blocks alone.\<close>

definition is_submission :: "aio_state \<Rightarrow> aio_state \<Rightarrow> bool" where
  "is_submission s t \<longleftrightarrow> main_at s = M_submit \<and> inner_j t = inner_j s + 1"

definition is_taking :: "aio_state \<Rightarrow> aio_state \<Rightarrow> bool" where
  "is_taking s t \<longleftrightarrow> sig_at s = S_wait \<and> sig_at t = S_complete"

inductive aio_cb_step :: "tool_environment \<Rightarrow> int \<Rightarrow> int \<Rightarrow> int \<Rightarrow> aio_config \<Rightarrow>
    aio_state \<times> aio_world \<Rightarrow> aio_state \<times> aio_world \<Rightarrow> bool" for env fd bs bc c where
  submission: "aio_step c s t \<Longrightarrow> is_submission s t \<Longrightarrow>
    aio_fill env fd bs bc (allocations w) (allocations w) old = Some b \<Longrightarrow>
    aio_cb_step env fd bs bc c (s, w) (t, (new_block b w)
      \<lparr>busy := (if submitted t = submitted s then busy w else insert (allocations w) (busy w))\<rparr>)"
| overflow: "aio_step c s t \<Longrightarrow> is_submission s t \<Longrightarrow>
    aio_fill env fd bs bc (allocations w) (allocations w) old = None \<Longrightarrow>
    aio_cb_step env fd bs bc c (s, w) (t, w\<lparr>corrupted := True\<rparr>)"
| completing: "aio_step c s t \<Longrightarrow> in_flight t < in_flight s \<Longrightarrow> a \<in> busy w \<Longrightarrow>
    aio_cb_step env fd bs bc c (s, w) (t, (completion a w)\<lparr>signals := signals w @ notification a w\<rparr>)"
| taking: "aio_step c s t \<Longrightarrow> is_taking s t \<Longrightarrow> signals w = a # rest \<Longrightarrow>
    aio_cb_step env fd bs bc c (s, w) (t, w\<lparr>signals := rest, handled := handled w @ [a]\<rparr>)"
| otherwise: "aio_step c s t \<Longrightarrow> \<not> is_submission s t \<Longrightarrow> \<not> in_flight t < in_flight s \<Longrightarrow> \<not> is_taking s t \<Longrightarrow>
    aio_cb_step env fd bs bc c (s, w) (t, w)"

subsection \<open>lio\_listio\_test\<close>

text \<open>The list test keeps the addresses of a list in the array \<^verbatim>\<open>control_blocks\<close>; \<open>list_i\<close> is the counter of its
  outer loop, \<open>sleeping\<close> the time between the submission of the list and its release.\<close>

record lio_world = cb_heap +
  control_blocks :: "nat list"
  list_i :: int
  sleeping :: bool

definition lio_world_start :: lio_world where
  "lio_world_start = \<lparr>blocks = Map.empty, busy = {}, allocations = 0, corrupted = False, control_blocks = [], list_i = 0, sleeping = False\<rparr>"

text \<open>\<^verbatim>\<open>lio_listio_test\<close> with \<open>iters\<close> blocks to write and lists of \<open>m\<close>: as long as the \<^verbatim>\<open>int\<close> counter, compared as an
  \<^verbatim>\<open>unsigned long\<close>, is below \<open>iters\<close>, a list of \<open>m\<close> new blocks, the submission of the list, of which the
  system may take a part only, a sleep of two seconds, and the release of the list. The writes of the system
  complete at any time.\<close>

definition lio_continues :: "nat \<Rightarrow> lio_world \<Rightarrow> bool" where
  "lio_continues iters w \<longleftrightarrow> list_i w mod 2 ^ 64 < int iters \<and> \<not> sleeping w"

inductive lio_cb_step :: "tool_environment \<Rightarrow> int \<Rightarrow> int \<Rightarrow> int \<Rightarrow> nat \<Rightarrow> nat \<Rightarrow> lio_world \<Rightarrow> lio_world \<Rightarrow> bool"
  for env fd bs bc m iters where
  allocate: "lio_continues iters w \<Longrightarrow> length (control_blocks w) < m \<Longrightarrow> lio_fill env fd bs bc (allocations w) old = Some b \<Longrightarrow>
    lio_cb_step env fd bs bc m iters w ((new_block b w)\<lparr>control_blocks := control_blocks w @ [allocations w]\<rparr>)"
| overflow: "lio_continues iters w \<Longrightarrow> length (control_blocks w) < m \<Longrightarrow> lio_fill env fd bs bc (allocations w) old = None \<Longrightarrow>
    lio_cb_step env fd bs bc m iters w (w\<lparr>corrupted := True\<rparr>)"
| submit_list: "lio_continues iters w \<Longrightarrow> length (control_blocks w) = m \<Longrightarrow> S \<subseteq> set (control_blocks w) \<Longrightarrow>
    lio_cb_step env fd bs bc m iters w (w\<lparr>busy := busy w \<union> S, sleeping := True\<rparr>)"
| complete_one: "a \<in> busy w \<Longrightarrow> lio_cb_step env fd bs bc m iters w (completion a w)"
| free_list: "sleeping w \<Longrightarrow>
    lio_cb_step env fd bs bc m iters w (w\<lparr>blocks := (blocks w) |` (- set (control_blocks w)),
      control_blocks := [], list_i := to_int32 (list_i w + int m), sleeping := False\<rparr>)"

text \<open>The runs in which the system is fast enough: whenever the program frees a list, its writes have completed.\<close>

definition punctual_step :: "tool_environment \<Rightarrow> int \<Rightarrow> int \<Rightarrow> int \<Rightarrow> nat \<Rightarrow> nat \<Rightarrow> lio_world \<Rightarrow> lio_world \<Rightarrow> bool" where
  "punctual_step env fd bs bc m iters w w' \<longleftrightarrow> lio_cb_step env fd bs bc m iters w w' \<and>
     (sleeping w \<and> \<not> sleeping w' \<longrightarrow> busy w \<inter> set (control_blocks w) = {})"

subsection \<open>The blocks of aio\_write\_test\<close>

definition block_ok :: "int \<Rightarrow> int \<Rightarrow> int \<Rightarrow> nat \<Rightarrow> aiocb \<Rightarrow> bool" where
  "block_ok fd bs bc a b \<longleftrightarrow> aio_fildes b = fd \<and> aio_offset b = 0 \<and> aio_nbytes b = bs \<and>
     aio_notify b = SIGEV_SIGNAL \<and> sival_ptr b = Some a \<and> 0 \<le> aio_buf b \<and> aio_buf b + bs \<le> bc * bs"

definition blocks_inv :: "int \<Rightarrow> int \<Rightarrow> int \<Rightarrow> aio_world \<Rightarrow> bool" where
  "blocks_inv fd bs bc w \<longleftrightarrow> \<not> corrupted w \<and> dom (blocks w) = {..<allocations w} \<and>
     (\<forall>a b. blocks w a = Some b \<longrightarrow> block_ok fd bs bc a b)"

text \<open>Every submitted write is in use, announced or handled, and in one of these places only.\<close>

definition places_inv :: "aio_state \<Rightarrow> aio_world \<Rightarrow> bool" where
  "places_inv s w \<longleftrightarrow> busy w \<union> set (signals w) \<union> set (handled w) \<subseteq> {..<allocations w} \<and>
     distinct (handled w @ signals w) \<and> busy w \<inter> set (handled w @ signals w) = {} \<and>
     card (busy w) = in_flight s \<and> length (signals w) = queued s \<and>
     submitted s = in_flight s + queued s + length (handled w)"

definition aio_cb_inv :: "int \<Rightarrow> int \<Rightarrow> int \<Rightarrow> aio_state \<times> aio_world \<Rightarrow> bool" where
  "aio_cb_inv fd bs bc p \<longleftrightarrow> blocks_inv fd bs bc (snd p) \<and> places_inv (fst p) (snd p)"

lemma buffer_distance_ok:
  assumes "0 < bc" "0 < bs" "bc * bs \<le> LLONG_MAX"
  shows "ll_ok (pick_buffer env k bc * bs)"
  using block_in_buffers [OF assms(1,2), of env k] assms by (simp add: ll_ok_def LLONG_MIN_def)

lemma filled_block_ok:
  assumes "0 < bc" "0 < bs" "aio_fill env fd bs bc k a old = Some b"
  shows "block_ok fd bs bc a b"
  using block_in_buffers [OF assms(1,2), of env k] assms(3)
  by (auto simp: block_ok_def aio_fill_def Let_def split: if_splits)

lemma fill_defined:
  assumes "0 < bc" "0 < bs" "bc * bs \<le> LLONG_MAX"
  shows "aio_fill env fd bs bc k a old \<noteq> None" "lio_fill env fd bs bc k old \<noteq> None"
  using buffer_distance_ok [OF assms, of env k] by (simp_all add: aio_fill_def lio_fill_def Let_def)

lemma notification_self: "blocks_inv fd bs bc w \<Longrightarrow> a < allocations w \<Longrightarrow> notification a w = [a]"
  by (auto simp: blocks_inv_def notification_def block_ok_def dom_def set_eq_iff split: option.splits)

text \<open>What the steps of the threads do to the three counters.\<close>

lemma main_step_counters:
  "main_step c s t \<Longrightarrow> queued t = queued s \<and>
     (submitted t = submitted s \<and> in_flight t = in_flight s \<or>
      is_submission s t \<and> submitted t = submitted s + 1 \<and> in_flight t = in_flight s + 1) \<and> sig_at t = sig_at s"
  by (induction rule: main_step.induct) (auto simp: is_submission_def)

lemma sig_step_counters:
  "sig_step c s t \<Longrightarrow> submitted t = submitted s \<and> in_flight t = in_flight s \<and> inner_j t = inner_j s \<and>
     (if is_taking s t then queued s = queued t + 1 else queued t = queued s)"
  by (induction rule: sig_step.induct) (auto simp: is_taking_def cond_signal_def)

definition step_class :: "aio_state \<Rightarrow> aio_state \<Rightarrow> bool" where
  "step_class s t \<longleftrightarrow>
     (if is_submission s t then queued t = queued s \<and> \<not> is_taking s t \<and>
        (submitted t = submitted s \<and> in_flight t = in_flight s \<or> submitted t = submitted s + 1 \<and> in_flight t = in_flight s + 1)
      else submitted t = submitted s \<and>
        (if in_flight t < in_flight s then in_flight s = in_flight t + 1 \<and> queued t = queued s + 1 \<and> \<not> is_taking s t
         else in_flight t = in_flight s \<and> (if is_taking s t then queued s = queued t + 1 else queued t = queued s)))"

lemma aio_step_class: "aio_step c s t \<Longrightarrow> step_class s t"
proof (induction rule: aio_step.induct)
  case (main s t)
  then show ?case using main_step_counters [of c s t] by (auto simp: step_class_def is_taking_def)
next
  case (sig s t)
  then show ?case using sig_step_counters [of c s t] by (auto simp: step_class_def is_submission_def)
next
  case (kernel s)
  then show ?case by (auto simp: step_class_def is_submission_def is_taking_def)
qed

lemma blocks_inv_step:
  assumes "0 < bc" "0 < bs" "bc * bs \<le> LLONG_MAX" "aio_cb_step env fd bs bc c p q" "aio_cb_inv fd bs bc p"
  shows "blocks_inv fd bs bc (snd q)"
  using assms(4,5)
proof (induction rule: aio_cb_step.induct)
  case (submission s t w old b)
  then show ?case
    using filled_block_ok [OF assms(1,2) submission(3)]
    by (auto simp: aio_cb_inv_def blocks_inv_def new_block_def lessThan_Suc)
next
  case (overflow s t w old)
  with fill_defined(1) [OF assms(1-3)] show ?case by blast
next
  case (completing s t a w)
  then have "a \<in> dom (blocks w)" by (auto simp: aio_cb_inv_def blocks_inv_def places_inv_def)
  with completing show ?case by (auto simp: aio_cb_inv_def blocks_inv_def completion_def)
qed (auto simp: aio_cb_inv_def blocks_inv_def)

lemma places_inv_step:
  assumes "0 < bc" "0 < bs" "bc * bs \<le> LLONG_MAX" "aio_cb_step env fd bs bc c p q" "aio_cb_inv fd bs bc p"
  shows "places_inv (fst q) (snd q)"
  using assms(4,5)
proof (induction rule: aio_cb_step.induct)
  case (submission s t w old b)
  from submission(4) have inv: "places_inv s w" by (simp add: aio_cb_inv_def)
  then have "finite (busy w)" "allocations w \<notin> busy w" "allocations w \<notin> set (handled w @ signals w)"
    by (auto simp: places_inv_def intro: finite_subset [of _ "{..<allocations w}"])
  with inv aio_step_class [OF submission(1)] submission(2) show ?case
    by (auto simp: places_inv_def step_class_def new_block_def lessThan_Suc)
next
  case (overflow s t w old)
  with fill_defined(1) [OF assms(1-3)] show ?case by blast
next
  case (completing s t a w)
  from completing(4) have inv: "places_inv s w" and bl: "blocks_inv fd bs bc w" by (simp_all add: aio_cb_inv_def)
  then have "finite (busy w)" "a < allocations w"
    using completing(3) by (auto simp: places_inv_def intro: finite_subset [of _ "{..<allocations w}"])
  with inv aio_step_class [OF completing(1)] completing(2,3) notification_self [OF bl, of a] show ?case
    by (auto simp: places_inv_def step_class_def completion_def split: if_splits)
next
  case (taking s t w a rest)
  from taking(4) have inv: "places_inv s w" by (simp add: aio_cb_inv_def)
  with aio_step_class [OF taking(1)] taking(2,3) show ?case
    by (auto simp: places_inv_def step_class_def split: if_splits)
next
  case (otherwise s t w)
  with aio_step_class [OF otherwise(1)] show ?case
    by (auto simp: aio_cb_inv_def places_inv_def step_class_def)
qed

text \<open>The buffers that \<^verbatim>\<open>main\<close> allocates for the tests hold the \<open>bc\<close> blocks.\<close>

definition buffers_fit :: "int \<Rightarrow> int \<Rightarrow> bool" where
  "buffers_fit bs bc \<longleftrightarrow> 0 < bc \<and> 0 < bs \<and> bc * bs \<le> LLONG_MAX"

lemma aio_cb_step_inv:
  assumes "aio_cb_step env fd bs bc c p q" "buffers_fit bs bc \<and> aio_cb_inv fd bs bc p"
  shows "buffers_fit bs bc \<and> aio_cb_inv fd bs bc q"
  using assms blocks_inv_step [of bc bs env fd c p q] places_inv_step [of bc bs env fd c p q]
  by (simp add: aio_cb_inv_def buffers_fit_def)

interpretation aio_blocks: invariant_system "aio_cb_step env fd bs bc c"
  "\<lambda>p. buffers_fit bs bc \<and> aio_cb_inv fd bs bc p" for env fd bs bc c
  by unfold_locales (rule aio_cb_step_inv)

interpretation aio_blocks_program: functional_refinement "aio_cb_step env fd bs bc c" "\<lambda>p. buffers_fit bs bc \<and> aio_cb_inv fd bs bc p"
  "aio_step c" fst for env fd bs bc c
  by unfold_locales (auto elim: aio_cb_step.cases)

lemma allocated_size:
  assumes "0 < bs" "0 < bc" "bc * bs \<le> INT_MAX" "buffer_initialize env bc (to_int32 bs) = Returns (alloc, evs)"
  shows "alloc = bc * bs"
proof -
  have "bs \<le> bc * bs" using mult_right_mono [of 1 bc bs] assms(1,2) by simp
  then have "bs \<le> INT_MAX" using assms(3) by simp
  then have "to_int32 bs = bs"
    using assms(1) unfolding to_int32_def by (intro signed_take_bit_int_eq_self) (simp_all add: INT_MAX_def)
  with assms(4) show ?thesis
    by (auto simp: buffer_initialize_def int_mult_def Let_def split: option.splits if_splits)
qed

text \<open>
  Property C15. The control blocks of the \<^verbatim>\<open>aio_write\<close> test, in every reachable state of its two threads and the kernel,
  failing calls included, for block sizes of which \<open>bc\<close> (in the tool 200) fit in an \<^verbatim>\<open>int\<close>. The system never stores into a freed
  block, because the test frees none: all blocks ever
  allocated are still allocated (the leak). Every write in use by the system, and every completion that is announced or
  has been handled, has its own live block, whose signal carries the block's own address; no completion is
  announced or handled twice. Each write reads one block inside the \<open>alloc\<close> bytes that \<^verbatim>\<open>buffer_initialize\<close> has
  allocated. All of them carry the offset 0: where they go in the file is left to the \<^verbatim>\<open>O_APPEND\<close> with which \<^verbatim>\<open>main\<close> opens it.
\<close>

theorem aio_blocks_live:
  assumes "0 < bs" "0 < bc" "bc * bs \<le> INT_MAX" "buffer_initialize env bc (to_int32 bs) = Returns (alloc, evs)"
    and "(aio_cb_step env fd bs bc c)\<^sup>*\<^sup>* (aio_start, aio_world_start) (s, w)"
  shows "aio_reachable c s \<and> \<not> corrupted w \<and> dom (blocks w) = {..<allocations w} \<and>
    card (busy w) = in_flight s \<and> distinct (handled w @ signals w) \<and> busy w \<inter> set (handled w @ signals w) = {} \<and>
    (\<forall>a. a \<in> busy w \<union> set (handled w @ signals w) \<longrightarrow>
      (\<exists>b. blocks w a = Some b \<and> sival_ptr b = Some a \<and> aio_nbytes b = bs \<and>
       0 \<le> aio_buf b \<and> aio_buf b + aio_nbytes b \<le> alloc \<and> aio_offset b = 0))"
proof -
  let ?p = "(aio_start, aio_world_start)"
  have fit: "buffers_fit bs bc" using assms(1-3) by (simp add: buffers_fit_def INT_MAX_def LLONG_MAX_def)
  have start: "aio_cb_inv fd bs bc ?p"
    by (simp add: aio_cb_inv_def blocks_inv_def places_inv_def aio_start_def aio_world_start_def)
  with aio_blocks.run_keeps [OF assms(5)] fit have inv: "blocks_inv fd bs bc w" "places_inv s w"
    by (simp_all add: aio_cb_inv_def)
  have "aio_reachable c s"
    using aio_blocks_program.run_refines [OF assms(5)] start fit by (simp add: aio_reachable_def)
  moreover have "\<exists>b. blocks w a = Some b \<and> sival_ptr b = Some a \<and> aio_nbytes b = bs \<and>
       0 \<le> aio_buf b \<and> aio_buf b + aio_nbytes b \<le> alloc \<and> aio_offset b = 0" if "a \<in> busy w \<union> set (handled w @ signals w)" for a
  proof -
    from that inv(2) have "a < allocations w" by (auto simp: places_inv_def)
    with inv(1) have "a \<in> dom (blocks w)" by (simp add: blocks_inv_def)
    then obtain b where "blocks w a = Some b" by blast
    with inv(1) allocated_size [OF assms(1-4)] show ?thesis by (auto simp: blocks_inv_def block_ok_def)
  qed
  ultimately show ?thesis using inv unfolding blocks_inv_def places_inv_def by blast
qed

definition blank_block :: aiocb where
  "blank_block = \<lparr>aio_fildes = 9, aio_offset = 9, aio_notify = SIGEV_NONE, aio_signo = MYSIG_STOP, sival_ptr = None, aio_nbytes = 9,
     aio_buf = 9, aio_reqprio = 9, lio_write = False\<rparr>"

theorem aio_blocks_live_witness:
  "\<exists>s w. busy w = {0} \<and> (aio_cb_step sample_environment 4 300 200 \<lparr>iterations = 4, max_aios = 2, faults = False, spurious = False\<rparr>)\<^sup>*\<^sup>*
     (aio_start, aio_world_start) (s, w) \<and> \<not> corrupted w \<and> card (busy w) = in_flight s \<and>
     (\<exists>b. blocks w 0 = Some b \<and> sival_ptr b = Some 0 \<and> aio_buf b + aio_nbytes b \<le> 60000 \<and> aio_offset b = 0)"
proof -
  let ?c = "\<lparr>iterations = 4, max_aios = 2, faults = False, spurious = False\<rparr>"
  obtain b where b: "aio_fill sample_environment 4 300 200 0 0 blank_block = Some b"
    using fill_defined(1) [of 200 300 sample_environment 4 0 0 blank_block] by (auto simp: LLONG_MAX_def)
  let ?w = "(new_block b aio_world_start)\<lparr>busy := {0}\<rparr>"
  let ?s = "submitting 0"
  let ?t = "submitting 1"
  have "aio_cb_step sample_environment 4 300 200 ?c (aio_start, aio_world_start) (?s, aio_world_start)"
    by (rule aio_cb_step.otherwise, rule enter_first_batch)
      (simp_all add: is_submission_def is_taking_def submitting_def aio_start_def)
  moreover have "aio_cb_step sample_environment 4 300 200 ?c (?s, aio_world_start) (?t, ?w)"
    using aio_cb_step.submission [OF submit_one [of 0 ?c], where w = aio_world_start and old = blank_block] b
    by (simp add: is_submission_def submitting_def aio_start_def aio_world_start_def)
  ultimately have run: "(aio_cb_step sample_environment 4 300 200 ?c)\<^sup>*\<^sup>* (aio_start, aio_world_start) (?t, ?w)"
    by (meson converse_rtranclp_into_rtranclp rtranclp.rtrancl_refl)
  have "urandom_fd sample_environment \<noteq> 0" "buffers_base sample_environment \<noteq> 0" by (simp_all add: sample_environment_def)
  then obtain evs where "buffer_initialize sample_environment 200 (to_int32 300) = Returns (200 * 300, evs)"
    using buffer_initialize_reads [of 300 sample_environment] by (auto simp: BUFFER_COUNT_def INT_MAX_def)
  from aio_blocks_live [OF _ _ _ this run]
  have "\<not> corrupted ?w \<and> card (busy ?w) = in_flight ?t \<and>
    (\<exists>b. blocks ?w 0 = Some b \<and> sival_ptr b = Some 0 \<and> aio_buf b + aio_nbytes b \<le> 60000 \<and> aio_offset b = 0)"
    by (auto simp: INT_MAX_def)
  with run show ?thesis by (intro exI [of _ ?t] exI [of _ ?w]) simp
qed

subsection \<open>The blocks of lio\_listio\_test\<close>

definition lio_cb_inv :: "lio_world \<Rightarrow> bool" where
  "lio_cb_inv w \<longleftrightarrow> \<not> corrupted w \<and> busy w \<subseteq> set (control_blocks w) \<and> set (control_blocks w) \<subseteq> dom (blocks w) \<and>
     (\<not> sleeping w \<longrightarrow> busy w = {})"

lemma punctual_step_inv:
  assumes "punctual_step env fd bs bc m iters w w'" "buffers_fit bs bc" "lio_cb_inv w"
  shows "lio_cb_inv w'"
proof -
  from assms(1) have step: "lio_cb_step env fd bs bc m iters w w'"
    and finished: "sleeping w \<and> \<not> sleeping w' \<longrightarrow> busy w \<inter> set (control_blocks w) = {}"
    by (simp_all add: punctual_step_def)
  from step show ?thesis
  proof cases
    case (overflow old)
    with fill_defined(2) [of bc bs env fd "allocations w" old] assms(2) show ?thesis by (simp add: buffers_fit_def)
  next
    case (complete_one a)
    with assms(3) have "a \<in> dom (blocks w)" unfolding lio_cb_inv_def by blast
    with complete_one assms(3) show ?thesis by (auto simp: lio_cb_inv_def completion_def)
  qed (use assms(3) finished in \<open>auto simp: lio_cb_inv_def new_block_def lio_continues_def\<close>)
qed

interpretation lio_blocks: invariant_system "punctual_step env fd bs bc m iters"
    "\<lambda>w. buffers_fit bs bc \<and> lio_cb_inv w" for env fd bs bc m iters
  by unfold_locales (auto intro: punctual_step_inv)

lemma lio_fill_list:
  assumes "n \<le> m" "0 < iters" "buffers_fit bs bc"
  shows "\<exists>B. (lio_cb_step env fd bs bc m iters)\<^sup>*\<^sup>* lio_world_start
    (lio_world_start\<lparr>blocks := B, allocations := n, control_blocks := [0..<n]\<rparr>)"
  using assms(1)
proof (induction n)
  case 0
  show ?case by (rule exI [of _ Map.empty]) (simp add: lio_world_start_def)
next
  case (Suc n)
  then obtain B where run: "(lio_cb_step env fd bs bc m iters)\<^sup>*\<^sup>* lio_world_start
      (lio_world_start\<lparr>blocks := B, allocations := n, control_blocks := [0..<n]\<rparr>)" by auto
  let ?w = "lio_world_start\<lparr>blocks := B, allocations := n, control_blocks := [0..<n]\<rparr>"
  obtain b where "lio_fill env fd bs bc (allocations ?w) blank_block = Some b"
    using fill_defined(2) [of bc bs env fd "allocations ?w" blank_block] assms(3) by (auto simp: buffers_fit_def)
  from lio_cb_step.allocate [OF _ _ this, of iters m] Suc.prems assms(2)
  have "lio_cb_step env fd bs bc m iters ?w
      (lio_world_start\<lparr>blocks := B(n \<mapsto> b), allocations := Suc n, control_blocks := [0..<Suc n]\<rparr>)"
    by (simp add: lio_world_start_def new_block_def lio_continues_def)
  with run show ?case by (meson rtranclp.rtrancl_into_rtrancl)
qed

lemma late_completion_corrupts:
  assumes "0 < m" "0 < iters" "buffers_fit bs bc"
  shows "\<exists>w. (lio_cb_step env fd bs bc m iters)\<^sup>*\<^sup>* lio_world_start w \<and> corrupted w"
proof -
  obtain B where fill: "(lio_cb_step env fd bs bc m iters)\<^sup>*\<^sup>* lio_world_start
      (lio_world_start\<lparr>blocks := B, allocations := m, control_blocks := [0..<m]\<rparr>)"
    using lio_fill_list [OF order_refl assms(2,3)] by blast
  let ?w = "lio_world_start\<lparr>blocks := B, allocations := m, control_blocks := [0..<m]\<rparr>"
  let ?x = "?w\<lparr>busy := busy ?w \<union> {0}, sleeping := True\<rparr>"
  let ?y = "?x\<lparr>blocks := (blocks ?x) |` (- set (control_blocks ?x)), control_blocks := [],
    list_i := to_int32 (list_i ?x + int m), sleeping := False\<rparr>"
  have "lio_cb_step env fd bs bc m iters ?w ?x"
    by (rule lio_cb_step.submit_list) (use assms in \<open>simp_all add: lio_world_start_def lio_continues_def\<close>)
  moreover have "lio_cb_step env fd bs bc m iters ?x ?y" by (rule lio_cb_step.free_list) simp
  moreover have "lio_cb_step env fd bs bc m iters ?y (completion 0 ?y)" by (rule lio_cb_step.complete_one) simp
  ultimately have "(lio_cb_step env fd bs bc m iters)\<^sup>*\<^sup>* lio_world_start (completion 0 ?y)"
    using fill by (meson rtranclp.rtrancl_into_rtrancl)
  moreover have "corrupted (completion 0 ?y)" using assms(1) by (simp add: completion_def restrict_map_def)
  ultimately show ?thesis by blast
qed

lemma no_list_without_blocks:
  assumes "(lio_cb_step env fd bs bc m 0)\<^sup>*\<^sup>* lio_world_start v"
  shows "v = lio_world_start"
  using assms
proof (induction rule: rtranclp_induct)
  case (step y z)
  from step.hyps(2) [unfolded step.IH] show ?case
    by cases (simp_all add: lio_continues_def lio_world_start_def)
qed simp

text \<open>
  Property C16. The list test frees its blocks too early. When there is at least one block to write and a list has at least one,
  there is a run in which a write completes after the two seconds of sleep, and the system then stores into a freed
  block. It depends on the sleep alone: in the runs in which all writes of a list have completed when the program frees it,
  nothing is ever stored into a freed block; and without a block to write no list is made and nothing is allocated. (For
  positive block sizes and buffer counts whose product fits in a \<^verbatim>\<open>long long\<close>.)
\<close>

theorem lio_frees_too_early:
  assumes "0 < bs" "0 < bc" "bc * bs \<le> LLONG_MAX"
  shows "(0 < m \<and> 0 < iters \<longrightarrow> (\<exists>w. (lio_cb_step env fd bs bc m iters)\<^sup>*\<^sup>* lio_world_start w \<and> corrupted w)) \<and>
   ((punctual_step env fd bs bc m iters)\<^sup>*\<^sup>* lio_world_start v \<longrightarrow> \<not> corrupted v) \<and>
   (iters = 0 \<and> (lio_cb_step env fd bs bc m iters)\<^sup>*\<^sup>* lio_world_start v \<longrightarrow> v = lio_world_start)"
proof (intro conjI impI)
  have fit: "buffers_fit bs bc" using assms by (simp add: buffers_fit_def)
  show "\<exists>w. (lio_cb_step env fd bs bc m iters)\<^sup>*\<^sup>* lio_world_start w \<and> corrupted w" if "0 < m \<and> 0 < iters"
    using late_completion_corrupts [OF _ _ fit] that by blast
  show "\<not> corrupted v" if "(punctual_step env fd bs bc m iters)\<^sup>*\<^sup>* lio_world_start v"
    using lio_blocks.run_keeps [OF that] fit by (simp add: lio_cb_inv_def lio_world_start_def)
  show "v = lio_world_start" if "iters = 0 \<and> (lio_cb_step env fd bs bc m iters)\<^sup>*\<^sup>* lio_world_start v"
    using no_list_without_blocks that by blast
qed

theorem lio_frees_too_early_witness:
  "(\<exists>w. (lio_cb_step sample_environment 4 300 200 2 5)\<^sup>*\<^sup>* lio_world_start w \<and> corrupted w) \<and>
   (\<exists>w. (punctual_step sample_environment 4 300 200 2 5)\<^sup>*\<^sup>* lio_world_start w \<and> allocations w = 1 \<and> \<not> corrupted w)"
proof -
  note ok = lio_frees_too_early [of 300 200 2 5 sample_environment 4]
  obtain b where b: "lio_fill sample_environment 4 300 200 (allocations lio_world_start) blank_block = Some b"
    using fill_defined(2) [of 200 300 sample_environment 4 "allocations lio_world_start" blank_block]
    by (auto simp: LLONG_MAX_def)
  let ?w = "(new_block b lio_world_start)\<lparr>control_blocks := control_blocks lio_world_start @ [allocations lio_world_start]\<rparr>"
  have "lio_cb_step sample_environment 4 300 200 2 5 lio_world_start ?w"
    by (rule lio_cb_step.allocate [OF _ _ b]) (simp_all add: lio_continues_def lio_world_start_def)
  then have "(punctual_step sample_environment 4 300 200 2 5)\<^sup>*\<^sup>* lio_world_start ?w"
    by (intro r_into_rtranclp) (simp add: punctual_step_def lio_world_start_def)
  moreover have "allocations ?w = 1" by (simp add: new_block_def lio_world_start_def)
  ultimately show ?thesis using ok by (auto simp: LLONG_MAX_def)
qed

end
