(* ===== verification/RandomAtMost.thy ===== *)
theory RandomAtMost
  imports Prelude
begin

text \<open>
  \<^verbatim>\<open>random_at_most\<close>, which \<^verbatim>\<open>test1.c\<close>, \<^verbatim>\<open>test1_close_then_rename.c\<close> and
  \<^verbatim>\<open>test1_close_then_fsync_dir.c\<close> of \<^verbatim>\<open>async_to_sync_writes\<close> share: rejection sampling with
  \<^verbatim>\<open>unsigned long\<close> arithmetic. \<open>RAND_MAX\<close> is the constant of the platform, and the values that
  successive calls of \<^verbatim>\<open>random()\<close> return are a list; the result is \<open>None\<close> when the loop
  has rejected all of them and would draw again.
\<close>

subsection \<open>Definitions\<close>

definition num_bins :: "u64 \<Rightarrow> u64" where
  "num_bins max_value = max_value + 1"

definition num_rand :: "u64 \<Rightarrow> u64" where
  "num_rand RAND_MAX = RAND_MAX + 1"

definition bin_size :: "u64 \<Rightarrow> u64 \<Rightarrow> u64" where
  "bin_size RAND_MAX max_value = num_rand RAND_MAX div num_bins max_value"

definition defect :: "u64 \<Rightarrow> u64 \<Rightarrow> u64" where
  "defect RAND_MAX max_value = num_rand RAND_MAX mod num_bins max_value"

text \<open>\<^verbatim>\<open>do x = random(); while (limit <= x);\<close>\<close>

fun draw_below :: "u64 \<Rightarrow> u64 list \<Rightarrow> u64 option" where
  "draw_below limit [] = None"
| "draw_below limit (x # xs) = (if limit \<le> x then draw_below limit xs else Some x)"

definition random_at_most :: "u64 \<Rightarrow> u64 \<Rightarrow> u64 list \<Rightarrow> u64 option" where
  "random_at_most RAND_MAX max_value draws =
     map_option (\<lambda>x. x div bin_size RAND_MAX max_value)
       (draw_below (num_rand RAND_MAX - defect RAND_MAX max_value) draws)"

subsection \<open>Lemmas\<close>

lemma draw_below_find: "draw_below limit xs = find (\<lambda>x. x < limit) xs"
  by (induction xs) (auto simp: not_le)

lemma unat_succ: "unat x < 2 ^ 63 \<Longrightarrow> unat (x + 1) = unat x + 1" for x :: u64
  by (simp add: unat_add_no_overflow)

lemma unat_bin_size:
  "M \<le> R \<Longrightarrow> unat R < 2 ^ 63 \<Longrightarrow> unat (bin_size R M) = (unat R + 1) div (unat M + 1)"
  unfolding bin_size_def num_bins_def num_rand_def unat_div word_le_nat_alt
  by (simp only: unat_succ order_le_less_trans)

lemma unat_defect:
  "M \<le> R \<Longrightarrow> unat R < 2 ^ 63 \<Longrightarrow> unat (defect R M) = (unat R + 1) mod (unat M + 1)"
  unfolding defect_def num_bins_def num_rand_def unat_mod word_le_nat_alt
  by (simp only: unat_succ order_le_less_trans)

lemma bin_size_pos: "M \<le> R \<Longrightarrow> 0 < (unat R + 1) div (unat M + 1)" for M R :: u64
  by (simp add: div_greater_zero_iff word_le_nat_alt)

lemma unat_limit:
  assumes "M \<le> R" "unat R < 2 ^ 63"
  shows "unat (num_rand R - defect R M) = (unat M + 1) * ((unat R + 1) div (unat M + 1))"
proof -
  have r: "unat (num_rand R) = unat R + 1" using assms(2) by (simp only: num_rand_def unat_succ)
  have "defect R M \<le> num_rand R"
    unfolding word_le_nat_alt r unat_defect [OF assms] by (rule mod_less_eq_dividend)
  then have "unat (num_rand R - defect R M) = unat R + 1 - (unat R + 1) mod (unat M + 1)"
    by (simp only: unat_sub unat_defect [OF assms] r)
  then show ?thesis by (simp only: minus_mod_eq_mult_div)
qed

lemma limit_zero:
  assumes "R < M" "unat M < 2 ^ 63"
  shows "num_rand R - defect R M = 0"
proof -
  have "num_rand R < num_bins M"
    using assms by (simp add: num_rand_def num_bins_def word_less_nat_alt unat_succ)
  then have "defect R M = num_rand R" unfolding defect_def by (rule mod_word_less)
  then show ?thesis by simp
qed

lemma div_eq_iff_range: "0 < b \<Longrightarrow> x div b = r \<longleftrightarrow> r * b \<le> x \<and> x < r * b + b" for b r x :: nat
  using dividend_less_times_div [of b x] div_nat_eqI [of b r x]
  by (auto simp: mult.commute add.commute)

lemma bin_is_interval:
  fixes b n r :: nat
  assumes "0 < b" "r < n"
  shows "{x. x < n * b \<and> x div b = r} = {r * b..<r * b + b}"
proof -
  have "Suc r * b \<le> n * b" using assms(2) by (intro mult_le_mono1) simp
  then have "x < r * b + b \<Longrightarrow> x < n * b" for x by simp
  then show ?thesis unfolding div_eq_iff_range [OF assms(1)] atLeastLessThan_def by blast
qed

lemma multiple_covers_half:
  fixes n N :: nat
  assumes "0 < n" "n \<le> N"
  shows "N < 2 * (n * (N div n))"
proof -
  have "n * (N div n) + N mod n = N" "N mod n < n" using assms by simp_all
  moreover have "n * 1 \<le> n * (N div n)"
    using assms by (intro mult_le_mono2) (simp add: Suc_le_eq div_greater_zero_iff)
  ultimately show ?thesis by linarith
qed

lemma accepted:
  assumes "M \<le> R" "unat R < 2 ^ 63"
  shows "random_at_most R M [x] = Some r \<longleftrightarrow>
     unat x < (unat M + 1) * ((unat R + 1) div (unat M + 1)) \<and>
     unat x div ((unat R + 1) div (unat M + 1)) = unat r"
proof -
  have "x div bin_size R M = r \<longleftrightarrow> unat x div ((unat R + 1) div (unat M + 1)) = unat r"
    unfolding unat_bin_size [OF assms, symmetric] unat_div [symmetric] by (simp only: word_unat_eq_iff)
  moreover have "num_rand R - defect R M \<le> x \<longleftrightarrow>
      (unat M + 1) * ((unat R + 1) div (unat M + 1)) \<le> unat x"
    unfolding word_le_nat_alt unat_limit [OF assms] ..
  ultimately show ?thesis by (auto simp: random_at_most_def not_le)
qed

text \<open>
  \<^verbatim>\<open>random_at_most(max)\<close>, for \<open>0 \<le> max \<le> RAND_MAX\<close> and a \<^verbatim>\<open>RAND_MAX\<close> below
  \<open>2 ^ 63\<close>: the loop ends as soon as \<^verbatim>\<open>random()\<close> delivers a value below the largest
  multiple of \<open>max + 1\<close> that fits the range, which is more than half of the range, and the
  value returned then lies in the closed interval \<open>[0, max]\<close>, as its comment says.
\<close>

theorem random_at_most_range:
  assumes "M \<le> R" "unat R < 2 ^ 63"
  shows "(random_at_most R M draws = None \<longleftrightarrow>
            (\<forall>x \<in> set draws. (unat M + 1) * ((unat R + 1) div (unat M + 1)) \<le> unat x)) \<and>
         (\<forall>r. random_at_most R M draws = Some r \<longrightarrow> r \<le> M) \<and>
         unat R + 1 < 2 * ((unat M + 1) * ((unat R + 1) div (unat M + 1)))"
proof (intro conjI allI impI)
  let ?b = "(unat R + 1) div (unat M + 1)"
  show "random_at_most R M draws = None \<longleftrightarrow> (\<forall>x \<in> set draws. (unat M + 1) * ?b \<le> unat x)"
    unfolding unat_limit [OF assms, symmetric] word_le_nat_alt [symmetric] random_at_most_def draw_below_find
    by (auto simp: find_None_iff not_less)
  show "r \<le> M" if "random_at_most R M draws = Some r" for r
  proof -
    from that obtain x where "draw_below (num_rand R - defect R M) draws = Some x" "r = x div bin_size R M"
      by (auto simp: random_at_most_def)
    then have x: "random_at_most R M [x] = Some r"
      by (auto simp: random_at_most_def draw_below_find find_Some_iff)
    then have "unat r < unat M + 1"
      using accepted [OF assms, of x r] less_mult_imp_div_less [of "unat x" "unat M + 1" ?b] by simp
    then show ?thesis by (simp add: word_le_nat_alt)
  qed
  show "unat R + 1 < 2 * ((unat M + 1) * ?b)"
    using multiple_covers_half [of "unat M + 1" "unat R + 1"] assms(1) by (simp add: word_le_nat_alt)
qed

theorem random_at_most_range_witness:
  "random_at_most 32767 9 [32765, 5000, 1] = Some 1 \<and> (1 :: u64) \<le> 9"
proof -
  have "random_at_most 32767 9 [32765, 5000, 1] = Some 1" by code_simp
  with random_at_most_range [of 9 32767 "[32765, 5000, 1]"] show ?thesis by simp
qed

text \<open>
  Property C30. \<^verbatim>\<open>random_at_most\<close> is unbiased: every result in \<open>[0, max]\<close> is produced by exactly
  the same number \<^verbatim>\<open>bin_size\<close> of values of \<^verbatim>\<open>random()\<close>.
\<close>

theorem random_at_most_uniform:
  assumes "M \<le> R" "unat R < 2 ^ 63" "r \<le> M"
  shows "card {x. random_at_most R M [x] = Some r} = unat (bin_size R M)"
proof -
  let ?b = "(unat R + 1) div (unat M + 1)"
  let ?S = "{x. random_at_most R M [x] = Some r}"
  have "(unat M + 1) * ?b \<le> unat R + 1" by (rule times_div_less_eq_dividend)
  also have "\<dots> < 2 ^ 64" using assms(2) by simp
  finally have fit: "(unat M + 1) * ?b < 2 ^ 64" .
  have "unat ` ?S = {n. n < (unat M + 1) * ?b \<and> n div ?b = unat r}"
  proof (intro equalityI subsetI)
    fix n assume n: "n \<in> {n. n < (unat M + 1) * ?b \<and> n div ?b = unat r}"
    then have "unat (of_nat n :: u64) = n" using fit by (simp add: unsigned_of_nat take_bit_nat_eq_self)
    with n have "of_nat n \<in> ?S" "n = unat (of_nat n :: u64)" by (simp_all add: accepted [OF assms(1,2)])
    then show "n \<in> unat ` ?S" by blast
  qed (auto simp: accepted [OF assms(1,2)])
  also have "\<dots> = {unat r * ?b..<unat r * ?b + ?b}"
    using bin_is_interval [of ?b "unat r" "unat M + 1"] bin_size_pos [OF assms(1)] assms(3)
    by (simp add: word_le_nat_alt less_Suc_eq_le)
  finally have "card (unat ` ?S) = ?b" by simp
  moreover have "card (unat ` ?S) = card ?S" by (rule card_image) (auto simp: inj_on_def word_unat_eq_iff)
  ultimately show ?thesis using unat_bin_size [OF assms(1,2)] by simp
qed

theorem random_at_most_uniform_witness:
  "card {x. random_at_most 32767 9 [x] = Some 3} = 3276"
  using random_at_most_uniform [of 9 32767 3] by (simp add: bin_size_def num_rand_def num_bins_def)

lemma random_at_most_above_range:
  assumes "R < M" "unat M < 2 ^ 63"
  shows "random_at_most R M draws = None"
  unfolding random_at_most_def draw_below_find limit_zero [OF assms] by (simp add: find_None_iff)

end
