(* ===== verification/FileTests.thy ===== *)
theory FileTests
  imports Prelude
begin

text \<open>
  The stand-alone write tests of \<^verbatim>\<open>async_to_sync_writes\<close>: \<^verbatim>\<open>test1.c\<close>,
  \<^verbatim>\<open>test1_close_then_rename.c\<close>, \<^verbatim>\<open>test1_close_then_fsync_dir.c\<close>, \<^verbatim>\<open>aio_suspend_test.cc\<close> and
  \<^verbatim>\<open>aio_listio_test.cc\<close>. A program is the sequence of system calls it makes, given what the
  calls return: the descriptors of its \<^verbatim>\<open>open\<close> calls, the values of \<^verbatim>\<open>rand()\<close> and the results
  of the asynchronous calls. A write names its buffer by its index in \<^verbatim>\<open>buffers\<close>. What is printed on the
  standard output is part of the sequence.
\<close>

subsection \<open>Calls and results\<close>

datatype open_flag = O_RDONLY | O_RDWR | O_CREAT | O_APPEND | O_CLOEXEC

text \<open>\<^verbatim>\<open>Open\<close> has the flags and the mode, if one is given.\<close>

datatype syscall =
    Open string "open_flag list" "nat option"
  | Read int nat nat
  | Write int nat nat
  | Aio_write int nat nat
  | Lio_listio "(int \<times> nat \<times> nat) list"
  | Aio_suspend nat
  | Fdatasync int
  | Close int
  | Rename string string
  | Perror string
  | Exit int
  | Print string

text \<open>\<open>open_result\<close> gives what \<^verbatim>\<open>open\<close> returns for a path (the last argument counts the earlier
  calls with that path), \<open>rand_value\<close> what the \<open>n\<close>-th call of \<^verbatim>\<open>rand()\<close> returns,
  \<open>lio_result\<close> what the \<open>n\<close>-th \<^verbatim>\<open>lio_listio\<close> returns, and \<open>aio_write_result\<close> and \<open>aio_suspend_result\<close> what the calls
  for the \<open>n\<close>-th control block return.\<close>

record environment =
  open_result :: "string \<Rightarrow> nat \<Rightarrow> int"
  rand_value :: "nat \<Rightarrow> nat"
  lio_result :: "nat \<Rightarrow> int"
  aio_write_result :: "nat \<Rightarrow> int"
  aio_suspend_result :: "nat \<Rightarrow> int"

definition BUFSIZE :: nat where
  "BUFSIZE = 8192"

definition BUFFERS :: nat where
  "BUFFERS = 16"

definition test_filename :: string where
  "test_filename = ''/perfwork/bogus-file''"

definition test_filename_new :: string where
  "test_filename_new = ''/perfwork/bogus-file.done''"

definition test_dirname :: string where
  "test_dirname = ''/perfwork''"

text \<open>\<^verbatim>\<open>file_size\<close> is \<^verbatim>\<open>g * 1024 * 1024 * 1024\<close> bytes; \<^verbatim>\<open>iterations = file_size / BUFSIZE\<close>.\<close>

definition file_size :: "nat \<Rightarrow> u64" where
  "file_size g = of_nat g * 1024 * 1024 * 1024"

definition block_count :: "nat \<Rightarrow> nat" where
  "block_count g = unat (file_size g div of_nat BUFSIZE)"

subsection \<open>The prologue and the write loop\<close>

text \<open>Open \<^verbatim>\<open>/dev/urandom\<close>, fill the buffers, open the file; \<^verbatim>\<open>randfd == NULL\<close> and \<^verbatim>\<open>fd == NULL\<close>
  compare the descriptor with 0. The programs differ in the flags of the second \<^verbatim>\<open>open\<close>, and the two in C++ print
  \<^verbatim>\<open>BEGIN\<close> first.\<close>

definition with_buffers_and_file :: "environment \<Rightarrow> open_flag list \<Rightarrow> (int \<Rightarrow> syscall list) \<Rightarrow> syscall list" where
  "with_buffers_and_file env flags body =
     (let randfd = open_result env ''/dev/urandom'' 0 in
      [Print ''Generating random buffers'', Open ''/dev/urandom'' [O_RDONLY] None] @
      (if randfd = 0 then [Perror ''Unable to open /dev/urandom'', Exit 2]
       else map (\<lambda>i. Read randfd i BUFSIZE) [0..<BUFFERS] @
         (let fd = open_result env test_filename 0 in
          Open test_filename flags (Some 493) #
          (if fd = 0 then [Perror ''Unable to open file'', Exit 1]
           else Print ''Writing random data to file'' # body fd))))"

text \<open>\<^verbatim>\<open>while (iterations--)\<close>; \<open>k\<close> counts the calls of \<^verbatim>\<open>rand()\<close>.\<close>

fun write_loop :: "environment \<Rightarrow> int \<Rightarrow> nat \<Rightarrow> nat \<Rightarrow> syscall list" where
  "write_loop env fd k 0 = []"
| "write_loop env fd k (Suc n) = Write fd (rand_value env k mod BUFFERS) BUFSIZE # write_loop env fd (Suc k) n"

subsection \<open>The programs\<close>

definition test1 :: "environment \<Rightarrow> syscall list" where
  "test1 env =
     with_buffers_and_file env [O_RDWR, O_CREAT] (\<lambda>fd. write_loop env fd 0 (block_count 4) @ [Fdatasync fd, Close fd])"

definition test1_close_then_rename :: "environment \<Rightarrow> syscall list" where
  "test1_close_then_rename env =
     with_buffers_and_file env [O_RDWR, O_CREAT] (\<lambda>fd. write_loop env fd 0 (block_count 8) @
       [Close fd, Rename test_filename test_filename_new])"

text \<open>The descriptor that is synchronised comes from opening \<^verbatim>\<open>filename\<close> a second time.\<close>

definition test1_close_then_fsync_dir :: "environment \<Rightarrow> syscall list" where
  "test1_close_then_fsync_dir env =
     with_buffers_and_file env [O_RDWR, O_CREAT] (\<lambda>fd. write_loop env fd 0 (block_count 8) @
       (let fddir = open_result env test_filename 1 in
        [Close fd, Open test_filename [O_CLOEXEC] (Some 493)] @
        (if fddir = 0 then [Perror ''Unable to open directory'', Exit 1] else [Fdatasync fddir])))"

text \<open>The control blocks of the suspend test are numbered in the order in which they are pushed.
  A failing \<^verbatim>\<open>aio_write\<close> or \<^verbatim>\<open>aio_suspend\<close> is only reported.\<close>

fun aio_submit_loop :: "environment \<Rightarrow> int \<Rightarrow> nat \<Rightarrow> nat \<Rightarrow> syscall list" where
  "aio_submit_loop env fd k 0 = []"
| "aio_submit_loop env fd k (Suc n) =
     Aio_write fd (rand_value env k mod BUFFERS) BUFSIZE #
     (if aio_write_result env k = -1 then [Perror ''aio_write''] else []) @ aio_submit_loop env fd (Suc k) n"

fun aio_suspend_loop :: "environment \<Rightarrow> nat \<Rightarrow> nat \<Rightarrow> syscall list" where
  "aio_suspend_loop env k 0 = []"
| "aio_suspend_loop env k (Suc n) =
     Aio_suspend k # (if aio_suspend_result env k \<noteq> 0 then [Perror ''aio_suspend''] else []) @ aio_suspend_loop env (Suc k) n"

definition aio_suspend_test :: "environment \<Rightarrow> syscall list" where
  "aio_suspend_test env =
     Print ''BEGIN'' # with_buffers_and_file env [O_RDWR, O_CREAT, O_APPEND] (\<lambda>fd. aio_submit_loop env fd 0 (block_count 4) @
       [Print ''CONFIRMING I/O made it to disk''] @ aio_suspend_loop env 0 (block_count 4) @ [Close fd, Exit 0])"

text \<open>One list of 18 control blocks per round of the outer loop; \<open>i\<close> is its counter and \<open>k\<close>
  counts the calls of \<^verbatim>\<open>rand()\<close>. The \<^verbatim>\<open>int\<close> counter stays far below \<open>2 ^ 31\<close>.\<close>

definition LIST_MAX :: nat where
  "LIST_MAX = 18"

definition list_of_blocks :: "environment \<Rightarrow> int \<Rightarrow> nat \<Rightarrow> (int \<times> nat \<times> nat) list" where
  "list_of_blocks env fd k = map (\<lambda>j. (fd, rand_value env (k + j) mod BUFFERS, BUFSIZE)) [0..<LIST_MAX]"

function listio_loop :: "environment \<Rightarrow> int \<Rightarrow> nat \<Rightarrow> nat \<Rightarrow> nat \<Rightarrow> nat \<Rightarrow> syscall list" where
  "listio_loop env fd iters r k i =
     (if i < iters
      then Lio_listio (list_of_blocks env fd k) #
        (if lio_result env r = 0 then listio_loop env fd iters (r + 1) (k + LIST_MAX) (i + LIST_MAX)
         else [Perror ''lio_listio FAILED'', Exit 1])
      else [Print ''CONFIRMING I/O made it to disk'', Close fd, Exit 0])"
  by pat_completeness auto

termination
  by (relation "measure (\<lambda>(env, fd, iters, r, k, i). iters - i)") (auto simp: LIST_MAX_def)

declare listio_loop.simps [simp del]

definition aio_listio_test :: "environment \<Rightarrow> syscall list" where
  "aio_listio_test env =
     Print ''BEGIN'' # with_buffers_and_file env [O_RDWR, O_CREAT, O_APPEND] (\<lambda>fd. listio_loop env fd (block_count 4) 0 0 0)"

subsection \<open>What a trace writes\<close>

fun bytes_written :: "syscall \<Rightarrow> nat" where
  "bytes_written (Write fd b n) = n"
| "bytes_written (Aio_write fd b n) = n"
| "bytes_written (Lio_listio bs) = sum_list (map (\<lambda>(fd, b, n). n) bs)"
| "bytes_written _ = 0"

definition total_written :: "syscall list \<Rightarrow> nat" where
  "total_written tr = sum_list (map bytes_written tr)"

text \<open>Every access stays inside \<^verbatim>\<open>char buffers[BUFFERS][BUFSIZE]\<close>.\<close>

fun in_buffers :: "syscall \<Rightarrow> bool" where
  "in_buffers (Read fd b n) \<longleftrightarrow> b < BUFFERS \<and> n \<le> BUFSIZE"
| "in_buffers (Write fd b n) \<longleftrightarrow> b < BUFFERS \<and> n \<le> BUFSIZE"
| "in_buffers (Aio_write fd b n) \<longleftrightarrow> b < BUFFERS \<and> n \<le> BUFSIZE"
| "in_buffers (Lio_listio bs) \<longleftrightarrow> (\<forall>(fd, b, n) \<in> set bs. b < BUFFERS \<and> n \<le> BUFSIZE)"
| "in_buffers _ \<longleftrightarrow> True"

named_theorems trace_simps \<open>measures of a trace of system calls\<close>

lemma total_written_append [trace_simps]: "total_written (a @ b) = total_written a + total_written b"
  by (simp add: total_written_def)

lemma total_written_Cons [trace_simps]: "total_written (e # b) = bytes_written e + total_written b"
  by (simp add: total_written_def)

lemma total_written_Nil [trace_simps]: "total_written [] = 0"
  by (simp add: total_written_def)

lemma BUFFERS_pos [simp]: "0 < BUFFERS"
  by (simp add: BUFFERS_def)

lemma block_count_4 [simp]: "block_count 4 = 524288"
  by (simp add: block_count_def file_size_def BUFSIZE_def)

lemma block_count_8 [simp]: "block_count 8 = 1048576"
  by (simp add: block_count_def file_size_def BUFSIZE_def)

lemma write_loop_written [trace_simps]: "total_written (write_loop env fd k n) = n * BUFSIZE"
  by (induction n arbitrary: k) (simp_all add: trace_simps)

lemma aio_submit_loop_written [trace_simps]: "total_written (aio_submit_loop env fd k n) = n * BUFSIZE"
  by (induction n arbitrary: k) (simp_all add: trace_simps)

lemma write_loop_in_buffers: "\<forall>e \<in> set (write_loop env fd k n). in_buffers e"
  by (induction n arbitrary: k) simp_all

lemma write_loop_is_writes: "\<forall>e \<in> set (write_loop env fd k n). \<exists>b < BUFFERS. e = Write fd b BUFSIZE"
  by (induction n arbitrary: k) auto

lemma length_write_loop: "length (write_loop env fd k n) = n"
  by (induction n arbitrary: k) simp_all

lemma aio_submit_in_buffers: "\<forall>e \<in> set (aio_submit_loop env fd k n). in_buffers e"
  by (induction n arbitrary: k) auto

lemma aio_suspend_in_buffers: "\<forall>e \<in> set (aio_suspend_loop env k n). in_buffers e"
  by (induction n arbitrary: k) auto

definition prologue :: "environment \<Rightarrow> open_flag list \<Rightarrow> syscall list" where
  "prologue env flags = [Print ''Generating random buffers'', Open ''/dev/urandom'' [O_RDONLY] None] @
     map (\<lambda>i. Read (open_result env ''/dev/urandom'' 0) i BUFSIZE) [0..<BUFFERS] @
     [Open test_filename flags (Some 493), Print ''Writing random data to file'']"

lemma prologue_written [trace_simps]: "total_written (prologue env flags) = 0"
  by (simp add: prologue_def total_written_def comp_def)

lemma with_buffers_and_file_body:
  assumes "open_result env ''/dev/urandom'' 0 \<noteq> 0" "open_result env test_filename 0 \<noteq> 0"
  shows "with_buffers_and_file env flags body = prologue env flags @ body (open_result env test_filename 0)"
  using assms by (simp add: with_buffers_and_file_def prologue_def Let_def)

lemma in_buffers_with_file:
  assumes "\<And>fd. \<forall>e \<in> set (body fd). in_buffers e"
  shows "\<forall>e \<in> set (with_buffers_and_file env flags body). in_buffers e"
  using assms by (auto simp: with_buffers_and_file_def Let_def)

lemma listio_in_buffers: "\<forall>e \<in> set (listio_loop env fd iters r k i). in_buffers e"
proof (induction env fd iters r k i rule: listio_loop.induct)
  case (1 env fd iters r k i)
  then show ?case
    by (subst listio_loop.simps) (auto simp: list_of_blocks_def)
qed

text \<open>
  No write test reads or writes outside its array of buffers, whatever the system
  calls and \<^verbatim>\<open>rand()\<close> return: every buffer index is below \<^verbatim>\<open>BUFFERS\<close> and every length at most
  \<^verbatim>\<open>BUFSIZE\<close>, in all five programs.
\<close>

theorem file_tests_stay_in_buffers:
  "\<forall>e \<in> set (test1 env) \<union> set (test1_close_then_rename env) \<union> set (test1_close_then_fsync_dir env) \<union>
     set (aio_suspend_test env) \<union> set (aio_listio_test env). in_buffers e"
proof -
  have "\<forall>e \<in> set (test1 env). in_buffers e"
    unfolding test1_def by (rule in_buffers_with_file) (use write_loop_in_buffers in auto)
  moreover have "\<forall>e \<in> set (test1_close_then_rename env). in_buffers e"
    unfolding test1_close_then_rename_def by (rule in_buffers_with_file) (use write_loop_in_buffers in auto)
  moreover have "\<forall>e \<in> set (test1_close_then_fsync_dir env). in_buffers e"
    unfolding test1_close_then_fsync_dir_def
    by (rule in_buffers_with_file) (use write_loop_in_buffers in \<open>auto simp: Let_def\<close>)
  moreover have "\<forall>e \<in> set (aio_suspend_test env). in_buffers e"
    unfolding aio_suspend_test_def
    by (simp, rule in_buffers_with_file) (use aio_submit_in_buffers aio_suspend_in_buffers in auto)
  moreover have "\<forall>e \<in> set (aio_listio_test env). in_buffers e"
    unfolding aio_listio_test_def using in_buffers_with_file [OF listio_in_buffers] by simp
  ultimately show ?thesis by blast
qed

definition plain_environment :: environment where
  "plain_environment = \<lparr>open_result = \<lambda>p n. if p = test_filename then 4 else 3,
     rand_value = \<lambda>n. 7 * n, lio_result = \<lambda>n. 0, aio_write_result = \<lambda>n. 0, aio_suspend_result = \<lambda>n. 0\<rparr>"

theorem file_tests_stay_in_buffers_witness:
  "Read 3 15 8192 \<in> set (test1 plain_environment) \<and> in_buffers (Read 3 15 8192)"
proof -
  have "Read 3 15 8192 \<in> set (test1 plain_environment)"
    by (auto simp: test1_def with_buffers_and_file_def plain_environment_def test_filename_def Let_def
        BUFFERS_def BUFSIZE_def)
  with file_tests_stay_in_buffers [of plain_environment] show ?thesis by blast
qed

text \<open>
  \<^verbatim>\<open>test1\<close>, once both files are open on descriptors other than 0, writes exactly 4 GiB to
  the file in 524288 blocks of 8192 bytes and synchronises the data after the last write and
  before it closes the file.
\<close>

theorem test1_writes_then_syncs:
  assumes "open_result env ''/dev/urandom'' 0 \<noteq> 0" "open_result env test_filename 0 \<noteq> 0"
  shows "let fd = open_result env test_filename 0 in
     \<exists>ws. test1 env = prologue env [O_RDWR, O_CREAT] @ ws @ [Fdatasync fd, Close fd] \<and> length ws = 524288 \<and>
       (\<forall>w \<in> set ws. \<exists>b < 16. w = Write fd b 8192) \<and> total_written (test1 env) = 4 * 1024 ^ 3"
proof -
  let ?fd = "open_result env test_filename 0"
  let ?ws = "write_loop env ?fd 0 524288"
  have eq: "test1 env = prologue env [O_RDWR, O_CREAT] @ ?ws @ [Fdatasync ?fd, Close ?fd]"
    unfolding test1_def with_buffers_and_file_body [OF assms] block_count_4 ..
  have "total_written (test1 env) = 4 * 1024 ^ 3"
    unfolding eq by (simp add: trace_simps BUFSIZE_def)
  moreover have "\<forall>w \<in> set ?ws. \<exists>b < 16. w = Write ?fd b 8192"
    using write_loop_is_writes [of env ?fd 0 524288] by (simp add: BUFFERS_def BUFSIZE_def)
  ultimately show ?thesis using eq length_write_loop unfolding Let_def by blast
qed

theorem test1_writes_then_syncs_witness:
  "total_written (test1 plain_environment) = 4 * 1024 ^ 3"
  using test1_writes_then_syncs [of plain_environment]
  by (auto simp: plain_environment_def test_filename_def Let_def)

text \<open>
  The directory test never synchronises the directory: in no run does
  \<^verbatim>\<open>test1_close_then_fsync_dir\<close> open \<^verbatim>\<open>/perfwork\<close>, and the only descriptor it synchronises is the
  one it got from opening the data file again.
\<close>

theorem fsync_dir_syncs_the_file:
  "Open test_dirname flags mode \<notin> set (test1_close_then_fsync_dir env) \<and>
   (\<forall>fd. Fdatasync fd \<in> set (test1_close_then_fsync_dir env) \<longrightarrow> fd = open_result env test_filename 1)"
proof -
  have w: "e \<in> set (write_loop env fd k n) \<Longrightarrow> \<exists>b. e = Write fd b BUFSIZE" for e fd k n
    using write_loop_is_writes by blast
  show ?thesis
    by (auto simp: test1_close_then_fsync_dir_def with_buffers_and_file_def Let_def test_dirname_def
        test_filename_def dest!: w split: if_splits)
qed

theorem fsync_dir_syncs_the_file_witness:
  "Fdatasync 4 \<in> set (test1_close_then_fsync_dir plain_environment) \<and>
   open_result plain_environment test_filename 1 = 4"
proof -
  have "Fdatasync 4 \<in> set (test1_close_then_fsync_dir plain_environment)"
    by (auto simp: test1_close_then_fsync_dir_def with_buffers_and_file_def plain_environment_def
        test_filename_def Let_def)
  with fsync_dir_syncs_the_file [of _ _ plain_environment] show ?thesis by metis
qed

definition rounds_left :: "nat \<Rightarrow> nat \<Rightarrow> nat" where
  "rounds_left iters i = (iters - i + (LIST_MAX - 1)) div LIST_MAX"

lemma rounds_left_step:
  assumes "i < iters"
  shows "rounds_left iters i = Suc (rounds_left iters (i + LIST_MAX))"
proof (cases "i + 18 \<le> iters")
  case True
  then obtain d where "iters = i + 18 + d" by (auto dest: le_Suc_ex)
  then show ?thesis by (simp add: rounds_left_def LIST_MAX_def)
next
  case False
  with assms have "(iters - i + 17) div 18 = 1" by (intro div_nat_eqI) simp_all
  with False show ?thesis by (simp add: rounds_left_def LIST_MAX_def)
qed

lemma list_of_blocks_written [trace_simps]:
  "(\<Sum>(fd, b, n) \<leftarrow> list_of_blocks env fd k. n) = LIST_MAX * BUFSIZE"
  by (simp add: list_of_blocks_def comp_def sum_list_triv)

lemma listio_nonempty: "listio_loop env fd iters r k i \<noteq> []"
  by (subst listio_loop.simps) simp

lemma listio_all_succeed:
  "(\<And>q. r \<le> q \<Longrightarrow> q < r + rounds_left iters i \<Longrightarrow> lio_result env q = 0) \<Longrightarrow>
     total_written (listio_loop env fd iters r k i) = rounds_left iters i * (LIST_MAX * BUFSIZE) \<and>
     Close fd \<in> set (listio_loop env fd iters r k i)"
proof (induction env fd iters r k i rule: listio_loop.induct)
  case (1 env fd iters r k i)
  show ?case
  proof (cases "i < iters")
    case True
    then have left: "rounds_left iters i = Suc (rounds_left iters (i + LIST_MAX))" by (rule rounds_left_step)
    with 1(2) have "lio_result env r = 0" by simp
    moreover have "lio_result env q = 0" if "r + 1 \<le> q" "q < r + 1 + rounds_left iters (i + LIST_MAX)" for q
      using 1(2) that left by simp
    ultimately show ?thesis using True 1(1) left by (subst (1 2) listio_loop.simps) (simp add: trace_simps)
  next
    case False
    then have "rounds_left iters i = 0" by (simp add: rounds_left_def LIST_MAX_def)
    with False show ?thesis by (subst (1 2) listio_loop.simps) (simp add: trace_simps)
  qed
qed

lemma listio_some_fails:
  "\<exists>q. r \<le> q \<and> q < r + rounds_left iters i \<and> lio_result env q \<noteq> 0 \<Longrightarrow>
     Close fd \<notin> set (listio_loop env fd iters r k i) \<and> last (listio_loop env fd iters r k i) = Exit 1"
proof (induction env fd iters r k i rule: listio_loop.induct)
  case (1 env fd iters r k i)
  then have True: "i < iters" by (auto simp: rounds_left_def LIST_MAX_def)
  then have left: "rounds_left iters i = Suc (rounds_left iters (i + LIST_MAX))" by (rule rounds_left_step)
  show ?case
  proof (cases "lio_result env r = 0")
    case ok: True
    with 1(2) left have "\<exists>q. r + 1 \<le> q \<and> q < r + 1 + rounds_left iters (i + LIST_MAX) \<and> lio_result env q \<noteq> 0"
      by (metis Suc_eq_plus1 add_Suc_right add_Suc_shift not_less_eq_eq order_antisym)
    with 1(1) [OF True ok] True ok show ?thesis
      by (subst (1 2) listio_loop.simps) (simp add: listio_nonempty)
  next
    case False
    with True show ?thesis by (subst (1 2) listio_loop.simps) simp
  qed
qed

text \<open>
  The list test rounds the file up to whole lists of 18 blocks: when every
  \<^verbatim>\<open>lio_listio\<close> succeeds it writes 524304 blocks, 16 blocks more than the 4 GiB it asks for, and
  closes the file; when one of the 29128 lists fails it ends with status 1 and never closes it.
\<close>

theorem listio_rounds_up:
  assumes "open_result env ''/dev/urandom'' 0 \<noteq> 0" "open_result env test_filename 0 \<noteq> 0"
  shows "((\<forall>r < 29128. lio_result env r = 0) \<longrightarrow>
            total_written (aio_listio_test env) = 4 * 1024 ^ 3 + 16 * BUFSIZE \<and>
            Close (open_result env test_filename 0) \<in> set (aio_listio_test env)) \<and>
         ((\<exists>r < 29128. lio_result env r \<noteq> 0) \<longrightarrow>
            Close (open_result env test_filename 0) \<notin> set (aio_listio_test env) \<and>
            last (aio_listio_test env) = Exit 1)"
proof -
  let ?fd = "open_result env test_filename 0"
  have eq: "aio_listio_test env = Print ''BEGIN'' # prologue env [O_RDWR, O_CREAT, O_APPEND] @ listio_loop env ?fd 524288 0 0 0"
    unfolding aio_listio_test_def with_buffers_and_file_body [OF assms] block_count_4 ..
  have rounds: "rounds_left 524288 0 = 29128" by (simp add: rounds_left_def LIST_MAX_def)
  have close: "Close ?fd \<notin> set (prologue env flags)" for flags by (auto simp: prologue_def)
  show ?thesis
    using listio_all_succeed [of 0 524288 0 env ?fd 0] listio_some_fails [of 0 524288 0 env ?fd 0] close
    unfolding eq rounds by (auto simp: trace_simps LIST_MAX_def BUFSIZE_def last_append listio_nonempty)
qed

theorem listio_rounds_up_witness:
  "total_written (aio_listio_test plain_environment) = 4 * 1024 ^ 3 + 16 * BUFSIZE"
  using listio_rounds_up [of plain_environment] by (simp add: plain_environment_def test_filename_def)

end
