(* ===== verification/FileEffects.thy ===== *)
theory FileEffects
  imports FileTests
begin

text \<open>
  What the write tests of \<open>FileTests\<close> leave in the file system. A system call updates an abstract file
  system with names, lengths, open descriptors, asynchronous writes under way, and the files and directories that have
  changed since they were last synchronised; a program is run by performing its calls in order, while the writes under
  way complete between the calls. This is
  what the tests are about: how much is written, and what of it has to survive a crash when they end.
\<close>

subsection \<open>The file system\<close>

text \<open>
  The results that the programs do not look at but the files depend on: what the \<open>n\<close>-th \<^verbatim>\<open>write\<close> returns, how much the \<open>k\<close>-th
  asynchronous write and the \<open>j\<close>-th block of the \<open>r\<close>-th list have written when they complete (a negative number for a failure, less than the
  size for a short one), the results of \<^verbatim>\<open>fdatasync\<close> and \<^verbatim>\<open>rename\<close>, which the programs call once at
  most, and the asynchronous writes that complete just before the \<open>n\<close>-th call of the run.
\<close>

record outcomes =
  write_result :: "nat \<Rightarrow> int"
  aio_bytes :: "nat \<Rightarrow> int"
  lio_bytes :: "nat \<Rightarrow> nat \<Rightarrow> int"
  fdatasync_result :: int
  rename_result :: int
  finishing :: "nat \<Rightarrow> nat list"

text \<open>
  Files are numbered; \<open>dirty\<close> holds the files whose data, and the directories whose entries, are not
  yet on stable storage. An open descriptor has its file, its position and whether it appends.
  \<open>opens\<close>, \<open>writes\<close>, \<open>submissions\<close> and \<open>lists\<close> count the calls whose results are given, and \<open>outstanding\<close> are the
  asynchronous writes that were accepted and are not yet complete, with their file, whether they append, and their size.
\<close>

record fs_state =
  names :: "string \<rightharpoonup> nat"
  fresh :: nat
  lengths :: "nat \<Rightarrow> nat"
  dirty :: "nat set"
  handles :: "int \<rightharpoonup> nat \<times> nat \<times> bool"
  opens :: "string \<Rightarrow> nat"
  writes :: nat
  submissions :: nat
  outstanding :: "nat \<rightharpoonup> nat \<times> bool \<times> nat"
  lists :: nat

text \<open>All paths of the tests lie in one directory, whose entry list changes when a name does.\<close>

definition entry_changed :: "fs_state \<Rightarrow> fs_state" where
  "entry_changed fs =
     (case names fs test_dirname of None \<Rightarrow> fs | Some d \<Rightarrow> fs\<lparr>dirty := insert d (dirty fs)\<rparr>)"

definition open_file :: "string \<Rightarrow> open_flag list \<Rightarrow> int \<Rightarrow> fs_state \<Rightarrow> fs_state" where
  "open_file path flags fd fs =
     (case names fs path of
        Some i \<Rightarrow> fs\<lparr>handles := (handles fs)(fd \<mapsto> (i, 0, O_APPEND \<in> set flags))\<rparr>
      | None \<Rightarrow>
          if O_CREAT \<in> set flags
          then entry_changed (fs\<lparr>names := (names fs)(path \<mapsto> fresh fs), lengths := (lengths fs)(fresh fs := 0),
                 fresh := Suc (fresh fs), handles := (handles fs)(fd \<mapsto> (fresh fs, 0, O_APPEND \<in> set flags))\<rparr>)
          else fs)"

text \<open>How much of a write of \<open>n\<close> bytes is done, given its result.\<close>

definition done_bytes :: "nat \<Rightarrow> int \<Rightarrow> nat" where
  "done_bytes n r = min n (nat r)"

text \<open>\<open>n\<close> bytes that arrive in the file \<open>i\<close> at a position.\<close>

definition put_bytes :: "nat \<Rightarrow> nat \<Rightarrow> nat \<Rightarrow> fs_state \<Rightarrow> fs_state" where
  "put_bytes i start n fs =
     (if n = 0 then fs
      else fs\<lparr>lengths := (lengths fs)(i := max (lengths fs i) (start + n)), dirty := insert i (dirty fs)\<rparr>)"

text \<open>A \<^verbatim>\<open>write\<close> goes to the position of the descriptor, or to the end of the file when the descriptor appends, and
  moves the position.\<close>

definition write_file :: "int \<Rightarrow> nat \<Rightarrow> fs_state \<Rightarrow> fs_state" where
  "write_file fd n fs =
     (case handles fs fd of
        None \<Rightarrow> fs
      | Some (i, pos, app) \<Rightarrow>
          let start = (if app then lengths fs i else pos)
          in (put_bytes i start n fs)\<lparr>handles := (handles fs)(fd \<mapsto> (i, start + n, app))\<rparr>)"

text \<open>An asynchronous write, at offset 0 as the control blocks ask for, or at the end of the file. It takes effect when it completes.\<close>

definition complete :: "outcomes \<Rightarrow> nat \<Rightarrow> fs_state \<Rightarrow> fs_state" where
  "complete out k fs =
     (case outstanding fs k of
        None \<Rightarrow> fs
      | Some (i, app, n) \<Rightarrow>
          (put_bytes i (if app then lengths fs i else 0) (done_bytes n (aio_bytes out k)) fs)
            \<lparr>outstanding := (outstanding fs)(k := None)\<rparr>)"

text \<open>A block of a list; the call waits for all of them, so that they are complete when it returns.\<close>

definition list_block :: "int \<Rightarrow> nat \<Rightarrow> fs_state \<Rightarrow> fs_state" where
  "list_block fd n fs =
     (case handles fs fd of None \<Rightarrow> fs | Some (i, pos, app) \<Rightarrow> put_bytes i (if app then lengths fs i else 0) n fs)"

fun fs_step :: "environment \<Rightarrow> outcomes \<Rightarrow> syscall \<Rightarrow> fs_state \<Rightarrow> fs_state" where
  "fs_step env out (Open path flags mode) fs =
     (let fd = open_result env path (opens fs path);
          fs = fs\<lparr>opens := (opens fs)(path := opens fs path + 1)\<rparr>
      in if fd < 0 then fs else open_file path flags fd fs)"
| "fs_step env out (Write fd b n) fs =
     write_file fd (done_bytes n (write_result out (writes fs))) (fs\<lparr>writes := Suc (writes fs)\<rparr>)"
| "fs_step env out (Aio_write fd b n) fs =
     (let k = submissions fs; fs = fs\<lparr>submissions := Suc k\<rparr>
      in if aio_write_result env k = -1 then fs
         else case handles fs fd of
                None \<Rightarrow> fs
              | Some (i, pos, app) \<Rightarrow> fs\<lparr>outstanding := (outstanding fs)(k \<mapsto> (i, app, n))\<rparr>)"
| "fs_step env out (Lio_listio bs) fs =
     (let r = lists fs
      in fold (\<lambda>(j, fd, b, n). list_block fd (done_bytes n (lio_bytes out r j))) (enumerate 0 bs) (fs\<lparr>lists := Suc r\<rparr>))"
| "fs_step env out (Aio_suspend k) fs = (if aio_suspend_result env k = 0 then complete out k fs else fs)"
| "fs_step env out (Fdatasync fd) fs =
     (case handles fs fd of
        None \<Rightarrow> fs
      | Some (i, pos, app) \<Rightarrow> if fdatasync_result out = 0 then fs\<lparr>dirty := dirty fs - {i}\<rparr> else fs)"
| "fs_step env out (Close fd) fs = fs\<lparr>handles := (handles fs)(fd := None)\<rparr>"
| "fs_step env out (Rename old new) fs =
     (case names fs old of
        None \<Rightarrow> fs
      | Some i \<Rightarrow>
          if rename_result out = 0 then entry_changed (fs\<lparr>names := ((names fs)(old := None))(new \<mapsto> i)\<rparr>) else fs)"
| "fs_step env out (Read fd b n) fs = fs"
| "fs_step env out (Perror msg) fs = fs"
| "fs_step env out (Print msg) fs = fs"
| "fs_step env out (Exit e) fs = fs"

text \<open>A run from its \<open>c\<close>-th call on.\<close>

fun fs_run :: "environment \<Rightarrow> outcomes \<Rightarrow> nat \<Rightarrow> syscall list \<Rightarrow> fs_state \<Rightarrow> fs_state" where
  "fs_run env out c [] fs = fs"
| "fs_run env out c (e # tr) fs =
     fs_run env out (Suc c) tr (fs_step env out e (fold (complete out) (finishing out c) fs))"


subsection \<open>Runs without asynchronous writes\<close>

lemma complete_nothing: "outstanding fs = Map.empty \<Longrightarrow> fold (complete out) ks fs = fs"
  by (induction ks) (simp_all add: complete_def)

named_theorems fs_simps \<open>effect of a sequence of calls\<close>

lemma fs_run_append [fs_simps]: "fs_run env out c (a @ b) fs = fs_run env out (c + length a) b (fs_run env out c a fs)"
  by (induction a arbitrary: c fs) simp_all

lemma fs_run_quiet [fs_simps]:
  "outstanding fs = Map.empty \<Longrightarrow> fs_run env out c (e # tr) fs = fs_run env out (Suc c) tr (fs_step env out e fs)"
  by (simp add: complete_nothing)

lemma fs_run_reads [fs_simps]:
  "outstanding fs = Map.empty \<Longrightarrow> fs_run env out c (map (\<lambda>i. Read fd (f i) n) xs) fs = fs"
  by (induction xs arbitrary: c) (simp_all add: complete_nothing)

declare fs_run.simps(2) [simp del]


lemma path_names [simp]:
  "test_filename \<noteq> test_dirname" "test_filename \<noteq> ''/dev/urandom''" "test_dirname \<noteq> ''/dev/urandom''"
  "test_filename_new \<noteq> test_filename" "test_filename_new \<noteq> test_dirname"
  "test_dirname \<noteq> test_filename" "test_filename \<noteq> test_filename_new" "test_dirname \<noteq> test_filename_new"
  "''/dev/urandom'' \<noteq> test_filename" "''/dev/urandom'' \<noteq> test_dirname"
  by (simp_all add: test_filename_def test_dirname_def test_filename_new_def)


text \<open>What \<open>n\<close> writes of blocks with the given results have written.\<close>

definition transferred :: "(nat \<Rightarrow> int) \<Rightarrow> nat \<Rightarrow> nat" where
  "transferred f n = (\<Sum>j<n. done_bytes BUFSIZE (f j))"

lemma transferred_Suc [simp]: "transferred f (Suc n) = transferred f n + done_bytes BUFSIZE (f n)"
  by (simp add: transferred_def)

lemma transferred_0 [simp]: "transferred f 0 = 0"
  by (simp add: transferred_def)











subsection \<open>Runs with asynchronous writes\<close>




















subsection \<open>What is left and what is durable\<close>





end
