(* ===== verification/ToolEffects.thy ===== *)
theory ToolEffects
  imports WriteTool
begin

unbundle bit_operations_syntax

text \<open>
  What a run of the write tool with the \<^verbatim>\<open>pwrite\<close> test does to the files of the system: the calls that \<open>WriteTool\<close> records are performed on
  an abstract file system with names, sizes, open descriptors, and the files whose data is not yet on stable storage. The
  submissions of the two asynchronous tests take effect at times that the program does not fix; they are not performed here.
\<close>

subsection \<open>Files\<close>

text \<open>
  The bits of \<^verbatim>\<open>O_CREAT\<close> and \<^verbatim>\<open>O_APPEND\<close> are those of the system; the ones of \<^verbatim>\<open>O_SYNC\<close> and \<^verbatim>\<open>O_DSYNC\<close> are in the flags of the
  option table. \<^verbatim>\<open>pwrite\<close> to a descriptor that appends writes at its offset, as the standard has it, or at the end of the
  file, as Linux documents it: \<open>pwrite_appends\<close>. The tool renames and removes the file once each; \<open>rename_ok\<close> and \<open>unlink_ok\<close> say whether
  the system grants the call (the directory of the new name exists and may be changed, both names are on one
  file system, and so on); besides, a call for a name without a file fails.
\<close>

record tool_system =
  creat_bit :: int
  append_bit :: int
  pwrite_appends :: bool
  rename_ok :: bool
  unlink_ok :: bool

record tool_files =
  file_of :: "string \<rightharpoonup> nat"
  next_file :: nat
  size_of :: "nat \<Rightarrow> int"
  unsynced :: "nat set"
  open_files :: "int \<rightharpoonup> nat \<times> int"
  pwrites :: nat

definition synchronous :: "open_flags \<Rightarrow> int \<Rightarrow> bool" where
  "synchronous fl flags \<longleftrightarrow> flags AND O_SYNC fl \<noteq> 0 \<or> flags AND O_DSYNC fl \<noteq> 0"

text \<open>A failing \<^verbatim>\<open>open\<close> gives a negative descriptor. The results of the writes are those of the environment, in order; a
  short one writes as much as it says.\<close>

definition open_call :: "tool_system \<Rightarrow> string \<Rightarrow> int \<Rightarrow> int \<Rightarrow> tool_files \<Rightarrow> tool_files" where
  "open_call sys path flags fd s =
     (if fd < 0 then s
      else case file_of s path of
             Some i \<Rightarrow> s\<lparr>open_files := (open_files s)(fd \<mapsto> (i, flags))\<rparr>
           | None \<Rightarrow>
               if flags AND creat_bit sys = 0 then s
               else s\<lparr>file_of := (file_of s)(path \<mapsto> next_file s), size_of := (size_of s)(next_file s := 0),
                      next_file := Suc (next_file s), open_files := (open_files s)(fd \<mapsto> (next_file s, flags))\<rparr>)"

definition pwrite_call :: "tool_environment \<Rightarrow> tool_system \<Rightarrow> open_flags \<Rightarrow> int \<Rightarrow> int \<Rightarrow> tool_files \<Rightarrow> tool_files" where
  "pwrite_call env sys fl fd off s =
     (let r = pwrite_result env (pwrites s); s = s\<lparr>pwrites := Suc (pwrites s)\<rparr> in
      case open_files s fd of
        None \<Rightarrow> s
      | Some (i, flags) \<Rightarrow>
          if r \<le> 0 then s
          else let start = (if pwrite_appends sys \<and> flags AND append_bit sys \<noteq> 0 then size_of s i else off)
               in s\<lparr>size_of := (size_of s)(i := max (size_of s i) (start + r)),
                    unsynced := (if synchronous fl flags then unsynced s else insert i (unsynced s))\<rparr>)"

fun tool_step :: "tool_environment \<Rightarrow> tool_system \<Rightarrow> open_flags \<Rightarrow> tool_event \<Rightarrow> tool_files \<Rightarrow> tool_files" where
  "tool_step env sys fl (Open_file path flags) s =
     open_call sys path flags (if path = ''/dev/urandom'' then urandom_fd env else file_fd env) s"
| "tool_step env sys fl (Pwrite fd b n off) s = pwrite_call env sys fl fd off s"
| "tool_step env sys fl (Rename_file old new) s =
     (case file_of s old of
        None \<Rightarrow> s
      | Some i \<Rightarrow> if rename_ok sys then s\<lparr>file_of := ((file_of s)(old := None))(new \<mapsto> i)\<rparr> else s)"
| "tool_step env sys fl (Unlink_file path) s =
     (if unlink_ok sys then s\<lparr>file_of := (file_of s)(path := None)\<rparr> else s)"
| "tool_step env sys fl _ s = s"

definition tool_run :: "tool_environment \<Rightarrow> tool_system \<Rightarrow> open_flags \<Rightarrow> tool_event list \<Rightarrow> tool_files \<Rightarrow> tool_files" where
  "tool_run env sys fl evs s = fold (tool_step env sys fl) evs s"

subsection \<open>The effect of the calls\<close>

lemma tool_run_simps:
  "tool_run env sys fl [] s = s" "tool_run env sys fl (e # evs) s = tool_run env sys fl evs (tool_step env sys fl e s)"
  "tool_run env sys fl (as @ bs) s = tool_run env sys fl bs (tool_run env sys fl as s)"
  by (simp_all add: tool_run_def)

lemma tool_run_file_calls: "tool_run env sys fl (filter is_file_call evs) s = tool_run env sys fl evs s"
proof (induction evs arbitrary: s)
  case (Cons e evs)
  then show ?case by (cases e) (simp_all add: tool_run_simps is_file_call_def)
qed (simp add: tool_run_simps)

text \<open>Full writes of consecutive blocks.\<close>

definition grown :: "bool \<Rightarrow> nat \<Rightarrow> nat \<Rightarrow> int \<Rightarrow> int \<Rightarrow> int" where
  "grown app i n bs len = (if app then len + int (n - i) * bs else if i < n then max len (int n * bs) else len)"

lemma grown_step:
  assumes "i < n" "0 < bs"
  shows "grown app (Suc i) n bs (max len ((if app then len else int i * bs) + bs)) = grown app i n bs len"
proof (cases app)
  case True
  then show ?thesis using assms by (simp add: grown_def of_nat_diff algebra_simps)
next
  case False
  have "int (Suc i) * bs \<le> int n * bs" using assms by (intro mult_right_mono) auto
  moreover have "n = Suc i \<or> Suc i < n" using assms(1) by auto
  ultimately show ?thesis using False assms(1) by (auto simp: grown_def algebra_simps max_def)
qed

lemma grown_end [simp]: "grown app n n bs len = len"
  by (simp add: grown_def)

lemma pwrites_effect:
  assumes "open_files s fd = Some (j, flags)" "\<forall>k. pwrite_result env k = bs" "0 < bs" "i \<le> n"
  shows "tool_run env sys fl (map (\<lambda>i. Pwrite fd (b i) bs (int i * bs)) [i..<n]) s =
    s\<lparr>size_of := (size_of s)(j := grown (pwrite_appends sys \<and> flags AND append_bit sys \<noteq> 0) i n bs (size_of s j)),
      unsynced := (if synchronous fl flags \<or> i = n then unsynced s else insert j (unsynced s)),
      pwrites := pwrites s + (n - i)\<rparr>"
  using assms
proof (induction "n - i" arbitrary: i s)
  case 0
  then show ?case by (simp add: tool_run_simps)
next
  case (Suc d)
  then have i: "i < n" by simp
  let ?app = "pwrite_appends sys \<and> flags AND append_bit sys \<noteq> 0"
  let ?s = "s\<lparr>pwrites := Suc (pwrites s), size_of := (size_of s)(j := max (size_of s j) ((if ?app then size_of s j else int i * bs) + bs)),
      unsynced := (if synchronous fl flags then unsynced s else insert j (unsynced s))\<rparr>"
  have one: "tool_step env sys fl (Pwrite fd (b i) bs (int i * bs)) s = ?s"
    using Suc.prems by (simp add: pwrite_call_def Let_def)
  have "tool_run env sys fl (map (\<lambda>i. Pwrite fd (b i) bs (int i * bs)) [Suc i..<n]) ?s =
    ?s\<lparr>size_of := (size_of ?s)(j := grown ?app (Suc i) n bs (size_of ?s j)),
      unsynced := (if synchronous fl flags \<or> Suc i = n then unsynced ?s else insert j (unsynced ?s)),
      pwrites := pwrites ?s + (n - Suc i)\<rparr>"
    using Suc i by (intro Suc.hyps(1)) simp_all
  then show ?case
    using i grown_step [OF i Suc.prems(3), of ?app "size_of s j"]
    by (simp add: upt_conv_Cons tool_run_simps one del: tool_step.simps)
qed

text \<open>Without a descriptor the writes have no effect.\<close>

lemma pwrites_no_effect:
  assumes "open_files s fd = None"
  shows "tool_run env sys fl (map (\<lambda>i. Pwrite fd (b i) bs (int i * bs)) is) s = s\<lparr>pwrites := pwrites s + length is\<rparr>"
  using assms
proof (induction "is" arbitrary: s)
  case (Cons i "is")
  then show ?case by (simp add: tool_run_simps pwrite_call_def Let_def)
qed (simp add: tool_run_simps)


text \<open>The file that a path names, or the new one that opening it creates, and its size.\<close>

definition target :: "tool_files \<Rightarrow> string \<Rightarrow> nat" where
  "target s path = (case file_of s path of Some i \<Rightarrow> i | None \<Rightarrow> next_file s)"

definition old_size :: "tool_files \<Rightarrow> string \<Rightarrow> int" where
  "old_size s path = (case file_of s path of Some i \<Rightarrow> size_of s i | None \<Rightarrow> 0)"

lemma open_random_effect:
  "\<exists>h. open_call sys path 0 fd s = s\<lparr>open_files := h\<rparr> \<and> (\<forall>d < 0. h d = open_files s d)"
  by (cases "file_of s path")
    (auto simp: open_call_def intro: exI [of _ "open_files s"] exI [of _ "(open_files s)(fd \<mapsto> (i, 0))" for i])

lemma open_file_effect:
  assumes "0 \<le> fd" "flags AND creat_bit sys \<noteq> 0" "t = open_call sys path flags fd s"
  shows "open_files t fd = Some (target s path, flags)" "file_of t = (file_of s)(path \<mapsto> target s path)"
    "size_of t (target s path) = old_size s path" "unsynced t = unsynced s"
  using assms by (auto simp: open_call_def target_def old_size_def fun_upd_idem split: option.splits)

text \<open>The names after the two last calls.\<close>

definition names_after :: "tool_system \<Rightarrow> string \<Rightarrow> string \<Rightarrow> (string \<rightharpoonup> nat) \<Rightarrow> (string \<rightharpoonup> nat)" where
  "names_after sys path new n =
     (let r = (if rename_ok sys \<and> n path \<noteq> None then n(path := None, new := n path) else n)
      in if unlink_ok sys then r(new := None) else r)"

lemma rename_and_unlink:
  "file_of (tool_run env sys fl [Rename_file path new, Unlink_file new] s) = names_after sys path new (file_of s)"
  "size_of (tool_run env sys fl [Rename_file path new, Unlink_file new] s) = size_of s"
  "unsynced (tool_run env sys fl [Rename_file path new, Unlink_file new] s) = unsynced s"
  by (auto simp: tool_run_simps names_after_def Let_def split: option.splits)

lemma flags_kept: "base AND b \<noteq> (0 :: int) \<Longrightarrow> OPEN_FLAGS base sync AND b \<noteq> 0"
  by (auto simp: OPEN_FLAGS_def bit_eq_iff bit_simps)

lemma grown_file:
  assumes "0 \<le> old" "0 \<le> fs" "0 < bs"
  shows "grown app 0 (nat (fs div bs)) bs old = (if app then old + (fs - fs mod bs) else max old (fs - fs mod bs))"
proof -
  have "0 \<le> fs div bs" using assms by (simp add: pos_imp_zdiv_nonneg_iff)
  moreover have "fs div bs * bs = fs - fs mod bs" by (rule minus_mod_eq_div_mult [symmetric])
  ultimately show ?thesis using assms(1) by (auto simp: grown_def)
qed

lemma pwrite_calls_effect:
  assumes t_def: "t = tool_run env sys fl ([Open_file ''/dev/urandom'' 0, Open_file path flags] @
       map (\<lambda>i. Pwrite (file_fd env) (b i) bs (int i * bs)) [0..<n] @ [Rename_file path new, Unlink_file new]) s"
    and "path \<noteq> ''/dev/urandom''" "flags AND creat_bit sys \<noteq> 0" "flags AND append_bit sys \<noteq> 0" "0 < bs"
    and "0 < file_fd env \<longrightarrow> (\<forall>k. pwrite_result env k = bs)" "file_fd env \<noteq> 0"
  shows "file_of t = names_after sys path new (if 0 < file_fd env then (file_of s)(path \<mapsto> target s path) else file_of s)"
    "0 < file_fd env \<Longrightarrow> size_of t (target s path) = grown (pwrite_appends sys) 0 n bs (old_size s path)"
    "0 < file_fd env \<Longrightarrow> unsynced t = (if synchronous fl flags \<or> n = 0 then unsynced s else insert (target s path) (unsynced s))"
    "file_fd env < 0 \<Longrightarrow> \<forall>d < 0. open_files s d = None \<Longrightarrow> size_of t = size_of s \<and> unsynced t = unsynced s"
proof -
  let ?W = "map (\<lambda>i. Pwrite (file_fd env) (b i) bs (int i * bs)) [0..<n]"
  obtain h where h: "open_call sys ''/dev/urandom'' 0 (urandom_fd env) s = s\<lparr>open_files := h\<rparr>" "\<forall>d < 0. h d = open_files s d"
    using open_random_effect by blast
  define u where "u = open_call sys path flags (file_fd env) (s\<lparr>open_files := h\<rparr>)"
  have t: "t = tool_run env sys fl [Rename_file path new, Unlink_file new] (tool_run env sys fl ?W u)"
    using assms(2) h(1) by (simp add: t_def u_def tool_run_simps)
  have tgt: "target (s\<lparr>open_files := h\<rparr>) path = target s path" "old_size (s\<lparr>open_files := h\<rparr>) path = old_size s path"
    by (simp_all add: target_def old_size_def split: option.split)
  have names: "file_of t = names_after sys path new (file_of (tool_run env sys fl ?W u))"
    by (simp only: t rename_and_unlink)
  note opened = open_file_effect [OF _ assms(3) u_def, unfolded tgt]
  note writes = pwrites_effect [of u "file_fd env" "target s path" flags env bs 0 n sys fl b, OF opened(1) _ assms(5)]
  show "0 < file_fd env \<Longrightarrow> size_of t (target s path) = grown (pwrite_appends sys) 0 n bs (old_size s path)"
    using writes opened assms(4,6) by (simp add: t rename_and_unlink)
  show "0 < file_fd env \<Longrightarrow> unsynced t = (if synchronous fl flags \<or> n = 0 then unsynced s else insert (target s path) (unsynced s))"
    using writes opened assms(6) by (simp add: t rename_and_unlink)
  have failed: "u = s\<lparr>open_files := h\<rparr>" if "file_fd env < 0" using that by (simp add: u_def open_call_def)
  show "file_fd env < 0 \<Longrightarrow> \<forall>d < 0. open_files s d = None \<Longrightarrow> size_of t = size_of s \<and> unsynced t = unsynced s"
    using failed h(2) by (simp add: t rename_and_unlink pwrites_no_effect)
  have keep: "file_of (tool_run env sys fl ?W u) = file_of u" for u
    by (induction n) (simp_all add: tool_run_simps pwrite_call_def Let_def split: option.splits)
  have "file_of u = (if 0 < file_fd env then (file_of s)(path \<mapsto> target s path) else file_of s)"
    using failed opened(2) assms(7) by (cases "file_fd env < 0") simp_all
  then show "file_of t = names_after sys path new (if 0 < file_fd env then (file_of s)(path \<mapsto> target s path) else file_of s)"
    using names by (simp only: keep)
qed

text \<open>
  Property C33. What a complete run of the tool with the \<^verbatim>\<open>pwrite\<close> test does to the files; the new name starts with the garbage \<open>g\<close> of
  the memory block from \<^verbatim>\<open>malloc\<close>. If the file could be opened and every write was complete, the file has grown by the whole blocks of the
  requested size, or to them when \<^verbatim>\<open>pwrite\<close> keeps to its offsets, and its data is on stable storage exactly when one of the two
  synchronous modes was chosen or nothing was written. If \<^verbatim>\<open>open\<close> failed with -1, which the comparison with \<^verbatim>\<open>NULL\<close> does not notice, and the writes
  to -1 fail, nothing is written and the run goes on to its end. When \<^verbatim>\<open>rename\<close> and \<^verbatim>\<open>unlink\<close> succeed, neither the path nor the new
  name names a file afterwards, whether the file could be opened or not: a file that was at the path or had the new name
  before is lost. When \<^verbatim>\<open>rename\<close> fails, which the program does not notice, for example as the garbage makes the new name one of another
  directory, the file just written stays under its path, and a file that had the new name
  is removed in its place; when \<^verbatim>\<open>unlink\<close> fails, it stays under the new name.
\<close>

theorem pwrite_run_effect:
  assumes "c_str (filepath opts) = Some path" "filesize opts = Some fs" "blocksize opts = Some bs"
    and "test opts = Some Test_pwrite" "0 \<le> fs" "fs \<le> LLONG_MAX" "0 < bs" "fs div bs \<le> INT_MAX"
    and "BUFFER_COUNT * bs \<le> INT_MAX" "urandom_fd env \<noteq> 0" "file_fd env \<noteq> 0" "buffers_base env \<noteq> 0"
    and "heap env = Some block" "c_str block = Some g" "length g + length path + 5 < length block"
    and "base AND creat_bit sys \<noteq> 0" "base AND append_bit sys \<noteq> 0" "path \<noteq> ''/dev/urandom''"
    and "0 < file_fd env \<longrightarrow> (\<forall>k. pwrite_result env k = bs)" "file_fd env < 0 \<longrightarrow> (\<forall>k. pwrite_result env k = -1)"
    and "\<forall>d < 0. open_files s d = None" "0 \<le> old_size s path"
  shows "\<exists>evs. main_after_options env fl base opts = Some (Returns evs) \<and>
     (let t = tool_run env sys fl evs s; written = fs - fs mod bs; new = g @ path @ ''.done'' in
      (0 < file_fd env \<longrightarrow>
         size_of t (target s path) = (if pwrite_appends sys then old_size s path + written else max (old_size s path) written) \<and>
         unsynced t = (if synchronous fl (OPEN_FLAGS base (sync_type opts)) \<or> fs < bs then unsynced s
                       else insert (target s path) (unsynced s))) \<and>
      (file_fd env < 0 \<longrightarrow> size_of t = size_of s \<and> unsynced t = unsynced s) \<and>
      (rename_ok sys \<and> unlink_ok sys \<longrightarrow> file_of t = (file_of s)(path := None, new := None)) \<and>
      (0 < file_fd env \<and> \<not> rename_ok sys \<and> unlink_ok sys \<longrightarrow> file_of t = (file_of s)(path \<mapsto> target s path, new := None)) \<and>
      (0 < file_fd env \<and> rename_ok sys \<and> \<not> unlink_ok sys \<longrightarrow> file_of t = (file_of s)(path := None, new \<mapsto> target s path)))"
proof -
  from pwrite_run_calls [OF assms(1-15), of fl base] obtain evs where
    evs: "main_after_options env fl base opts = Some (Returns evs)"
      "filter is_file_call evs = [Open_file ''/dev/urandom'' 0, Open_file path (OPEN_FLAGS base (sync_type opts))] @
       map (\<lambda>i. Pwrite (file_fd env) (pick_buffer env i BUFFER_COUNT * bs) bs (int i * bs)) [0..<nat (fs div bs)] @
       [Rename_file path (g @ path @ ''.done''), Unlink_file (g @ path @ ''.done'')]" by blast
  let ?t = "tool_run env sys fl evs s" and ?new = "g @ path @ ''.done''"
  have "?t = tool_run env sys fl (filter is_file_call evs) s" by (simp add: tool_run_file_calls)
  note effect = pwrite_calls_effect [OF this [unfolded evs(2)] assms(18) flags_kept [OF assms(16)] flags_kept [OF assms(17)]
      assms(7,19,11)]
  have "path \<noteq> ?new" using arg_cong [of path ?new length] by auto
  then have "rename_ok sys \<and> unlink_ok sys \<longrightarrow> file_of ?t = (file_of s)(path := None, ?new := None)"
    "0 < file_fd env \<and> \<not> rename_ok sys \<and> unlink_ok sys \<longrightarrow> file_of ?t = (file_of s)(path \<mapsto> target s path, ?new := None)"
    "0 < file_fd env \<and> rename_ok sys \<and> \<not> unlink_ok sys \<longrightarrow> file_of ?t = (file_of s)(path := None, ?new \<mapsto> target s path)"
    unfolding effect(1) by (auto simp: names_after_def fun_eq_iff Let_def)
  moreover have "nat (fs div bs) = 0 \<longleftrightarrow> fs < bs" using nonneg1_imp_zdiv_pos_iff [OF assms(5), of bs] assms(7) by auto
  with effect(2-4) assms(21) grown_file [OF assms(22,5,7)] have "(0 < file_fd env \<longrightarrow>
      size_of ?t (target s path) =
        (if pwrite_appends sys then old_size s path + (fs - fs mod bs) else max (old_size s path) (fs - fs mod bs)) \<and>
      unsynced ?t = (if synchronous fl (OPEN_FLAGS base (sync_type opts)) \<or> fs < bs then unsynced s
                     else insert (target s path) (unsynced s))) \<and>
    (file_fd env < 0 \<longrightarrow> size_of ?t = size_of s \<and> unsynced ?t = unsynced s)" by auto
  ultimately show ?thesis using evs(1) unfolding Let_def by blast
qed

definition sample_files :: tool_files where
  "sample_files = \<lparr>file_of = [''/tmp/a'' \<mapsto> 7, ''old/tmp/a.done'' \<mapsto> 8], next_file = 9, size_of = (\<lambda>i. 1000),
     unsynced = {}, open_files = Map.empty, pwrites = 0\<rparr>"

definition garbage_environment :: "int \<Rightarrow> int \<Rightarrow> tool_environment" where
  "garbage_environment fd r =
     sample_environment\<lparr>heap := Some (''old'' @ replicate 29 NUL), file_fd := fd, pwrite_result := \<lambda>_. r\<rparr>"

definition sample_system :: "bool \<Rightarrow> tool_system" where
  "sample_system renames = \<lparr>creat_bit = 256, append_bit = 2, pwrite_appends = True, rename_ok = renames, unlink_ok = True\<rparr>"

text \<open>A run without a failing call, one in which \<^verbatim>\<open>rename\<close> fails, and one in which \<^verbatim>\<open>open\<close> fails.\<close>

theorem pwrite_run_effect_witness:
  "(\<exists>evs. main_after_options (garbage_environment 4 300) \<lparr>O_SYNC = 16, O_DSYNC = 64\<rparr> 258 sample_options = Some (Returns evs) \<and>
     (let t = tool_run (garbage_environment 4 300) (sample_system True) \<lparr>O_SYNC = 16, O_DSYNC = 64\<rparr> evs sample_files
      in file_of t = Map.empty \<and> size_of t 7 = 1600 \<and> unsynced t = {7})) \<and>
   (\<exists>evs. main_after_options (garbage_environment 4 300) \<lparr>O_SYNC = 16, O_DSYNC = 64\<rparr> 258 sample_options = Some (Returns evs) \<and>
      file_of (tool_run (garbage_environment 4 300) (sample_system False) \<lparr>O_SYNC = 16, O_DSYNC = 64\<rparr> evs sample_files) =
        [''/tmp/a'' \<mapsto> 7]) \<and>
   (\<exists>evs. main_after_options (garbage_environment (-1) (-1)) \<lparr>O_SYNC = 16, O_DSYNC = 64\<rparr> 258 sample_options = Some (Returns evs) \<and>
     (let t = tool_run (garbage_environment (-1) (-1)) (sample_system True) \<lparr>O_SYNC = 16, O_DSYNC = 64\<rparr> evs sample_files
      in file_of t = Map.empty \<and> size_of t 7 = 1000 \<and> unsynced t = {}))"
proof -
  let ?fl = "\<lparr>O_SYNC = 16, O_DSYNC = 64\<rparr>"
  have str: "c_str (''/tmp/a'' @ [NUL, NUL]) = Some ''/tmp/a''" "c_str (''old'' @ replicate 29 NUL) = Some ''old''"
    by (simp_all add: c_str_def NUL_def)
  have flags: "(258 :: int) AND 256 \<noteq> 0" "(258 :: int) AND 2 \<noteq> 0" "\<not> synchronous ?fl (OPEN_FLAGS 258 0)"
    by (simp_all add: synchronous_def OPEN_FLAGS_def)
  have files: "target sample_files ''/tmp/a'' = 7" "old_size sample_files ''/tmp/a'' = 1000"
    "(file_of sample_files)(''/tmp/a'' := None, ''old'' @ ''/tmp/a'' @ ''.done'' := None) = Map.empty" "unsynced sample_files = {}"
    "(file_of sample_files)(''/tmp/a'' \<mapsto> 7, ''old'' @ ''/tmp/a'' @ ''.done'' := None) = [''/tmp/a'' \<mapsto> 7]"
    by (auto simp: target_def old_size_def sample_files_def)
  note run = pwrite_run_effect [of sample_options "''/tmp/a''" 600 300 _ "''old'' @ replicate 29 NUL" "''old''" 258 _ sample_files ?fl]
  have env: "urandom_fd (garbage_environment fd r) = 3" "file_fd (garbage_environment fd r) = fd"
    "buffers_base (garbage_environment fd r) = 65536" "pwrite_result (garbage_environment fd r) k = r"
    "heap (garbage_environment fd r) = Some (''old'' @ replicate 29 NUL)" for fd r k
    by (simp_all add: garbage_environment_def sample_environment_def)
  have sys: "creat_bit (sample_system b) = 256" "append_bit (sample_system b) = 2" "pwrite_appends (sample_system b)"
    "rename_ok (sample_system b) = b" "unlink_ok (sample_system b)" for b by (simp_all add: sample_system_def)
  have opts: "filepath sample_options = ''/tmp/a'' @ [NUL, NUL]" "filesize sample_options = Some 600"
    "blocksize sample_options = Some 300" "test sample_options = Some Test_pwrite" "sync_type sample_options = 0"
    by (simp_all add: sample_options_def)
  have closed: "open_files sample_files d = None" "size_of sample_files i = 1000" for d i by (simp_all add: sample_files_def)
  note facts = env sys opts closed str flags files LLONG_MAX_def INT_MAX_def BUFFER_COUNT_def Let_def
  show ?thesis
  proof (intro conjI, goal_cases)
    case 1
    show ?case using run [of "garbage_environment 4 300" "sample_system True"] by (simp add: facts del: append_Cons; blast)
  next
    case 2
    show ?case using run [of "garbage_environment 4 300" "sample_system False"] by (simp add: facts del: append_Cons; blast)
  next
    case 3
    let ?t = "tool_run (garbage_environment (-1) (-1)) (sample_system True) ?fl"
    obtain evs where "main_after_options (garbage_environment (-1) (-1)) ?fl 258 sample_options = Some (Returns evs)"
      "file_of (?t evs sample_files) = Map.empty" "size_of (?t evs sample_files) = size_of sample_files"
      "unsynced (?t evs sample_files) = {}"
      using run [of "garbage_environment (-1) (-1)" "sample_system True"] by (simp add: facts del: append_Cons; blast)
    then show ?case by (intro exI [of _ evs]) (simp add: closed)
  qed
qed

end
