(* ===== verification/SharedMemory.thy ===== *)
theory SharedMemory
  imports Decimal
begin

unbundle bit_operations_syntax

text \<open>
  The shared memory tests \<^verbatim>\<open>shmadv/shm_copy.c\<close>, \<^verbatim>\<open>shmadv/test1.c\<close> and \<^verbatim>\<open>shmadv/test2.c\<close>. A program
  is the sequence of its calls, given what the calls return; memory accesses name the offset in
  the segment and the length. Two views of a trace are defined: the segments that still exist
  when the process ends, and the accesses that leave their segment.
\<close>

subsection \<open>Calls and results\<close>

datatype shm_advice = SHM_ACCESS_LWP

datatype shm_attach_flag = SHM_SHARE_MMU

text \<open>\<open>Shmget\<close> has the key, the size, the mode and whether \<^verbatim>\<open>IPC_CREAT\<close> is given; \<open>Memset\<close> the offset, the character and the length;
  \<open>Memcpy\<close> the two offsets and the length.\<close>

datatype shm_call =
    Shmget int nat nat bool
  | Shmadv int shm_advice
  | Shmat int shm_attach_flag
  | Seed
  | Print_line string
  | Memset nat char nat
  | Memcpy nat nat nat
  | Shmdt int
  | Rmid int
  | Pause nat
  | Fail string
  | Leave int

text \<open>What the calls return; \<open>shm_rand\<close> is the sequence of values of \<^verbatim>\<open>rand()\<close>, which are at most \<^verbatim>\<open>RAND_MAX\<close>. The bound depends on the
  system; the theorems that need it take it as an argument.\<close>

record shm_environment =
  shmget_result :: "int \<Rightarrow> int"
  shmadv_result :: "int \<Rightarrow> int"
  shmat_fails :: "int \<Rightarrow> bool"
  shmdt_result :: "int \<Rightarrow> int"
  shm_rand :: "nat \<Rightarrow> nat"

text \<open>The permission bits of \<^verbatim>\<open><sys/shm.h>\<close>: read and write for the owner, and read shifted to the group and to others.\<close>

definition SHM_R :: nat where "SHM_R = 256"

definition SHM_W :: nat where "SHM_W = 128"

definition SVSHM_MODE :: nat where
  "SVSHM_MODE = SHM_R OR SHM_W OR drop_bit 3 SHM_R OR drop_bit 6 SHM_R"

subsection \<open>shm\_copy\<close>

definition SHKEY_SRC :: int where "SHKEY_SRC = 0x6fff"

definition SHKEY_DST :: int where "SHKEY_DST = 0x8111"

definition SHM_SIZE :: nat where "SHM_SIZE = 64 * 1024 * 1024"

definition memblock_size :: nat where "memblock_size = 512"

definition struct_count :: nat where "struct_count = SHM_SIZE div memblock_size"

definition memsets :: "(nat \<times> nat) list" where
  "memsets = [(32, 71668), (64, 34432), (128, 25), (256, 64334), (512, 711446), (1024, 30707), (2048, 163), (4096, 163)]"

definition memcpys :: "(nat \<times> nat) list" where
  "memcpys = [(1, 2109), (2, 73), (4, 5407), (8, 267), (32, 34677), (64, 6558), (128, 44834), (256, 34134),
     (512, 785408), (1024, 61)]"

text \<open>The address of \<^verbatim>\<open>src[buffer_number]\<close> for the \<open>k\<close>-th call of \<^verbatim>\<open>rand()\<close>.\<close>

definition block_offset :: "shm_environment \<Rightarrow> nat \<Rightarrow> nat" where
  "block_offset env k = (shm_rand env k mod struct_count) * memblock_size"

fun memset_rows :: "shm_environment \<Rightarrow> nat \<Rightarrow> (nat \<times> nat) list \<Rightarrow> shm_call list" where
  "memset_rows env k [] = []"
| "memset_rows env k ((sz, count) # rows) =
     Print_line (''Setting memory of size '' @ decimal sz @ '' '' @ decimal count @ '' times'' @ NL) #
     map (\<lambda>t. Memset (block_offset env (k + t)) CHR ''0'' sz) [0..<count] @ memset_rows env (k + count) rows"

fun memcpy_rows :: "shm_environment \<Rightarrow> nat \<Rightarrow> (nat \<times> nat) list \<Rightarrow> shm_call list" where
  "memcpy_rows env k [] = []"
| "memcpy_rows env k ((sz, count) # rows) =
     Print_line (''Copying memory of size '' @ decimal sz @ '' '' @ decimal count @ '' times'' @ NL) #
     map (\<lambda>t. Memcpy (block_offset env (k + t)) (block_offset env (k + t)) sz) [0..<count] @
     memcpy_rows env (k + count) rows"

definition draws_of :: "(nat \<times> nat) list \<Rightarrow> nat" where
  "draws_of rows = sum_list (map snd rows)"

definition detach :: "shm_environment \<Rightarrow> string \<Rightarrow> int \<Rightarrow> shm_call list" where
  "detach env msg i = Shmdt i # (if shmdt_result env i = -1 then [Fail msg] else [])"

definition shm_copy :: "shm_environment \<Rightarrow> shm_call list" where
  "shm_copy env =
     (let src = shmget_result env SHKEY_SRC; dst = shmget_result env SHKEY_DST in
      Shmget SHKEY_SRC SHM_SIZE SVSHM_MODE True #
      (if src = -1 then [Fail ''shmget for src failed'', Leave 1] else
      Shmget SHKEY_DST SHM_SIZE SVSHM_MODE True #
      (if dst = -1 then [Fail ''shmget for dst failed'', Leave 1] else
      Shmadv src SHM_ACCESS_LWP #
      (if shmadv_result env src = -1 then [Fail ''shmadv for src failed'', Rmid src, Leave 3] else
      Shmadv dst SHM_ACCESS_LWP #
      (if shmadv_result env dst = -1 then [Fail ''shmadv for dst failed'', Rmid dst, Leave 3] else
      Shmat src SHM_SHARE_MMU #
      (if shmat_fails env src then [Fail ''shmat for src failed'', Rmid src, Leave 2] else
      Shmat dst SHM_SHARE_MMU #
      (if shmat_fails env dst then [Fail ''shmat for dst failed'', Rmid dst, Leave 2] else
      Seed # memset_rows env 0 memsets @ memcpy_rows env (draws_of memsets) memcpys @
      detach env ''SHM detach for src problem'' src @ detach env ''SHM detach for dst problem'' dst @
      [Rmid src, Rmid dst, Leave 0])))))))"

subsection \<open>test1 and test2\<close>

definition TEST1_SHKEY :: int where "TEST1_SHKEY = 0x600f"

definition TEST1_SHM_SIZE :: nat where "TEST1_SHM_SIZE = 63 * 1024 * 1024"

text \<open>\<^verbatim>\<open>sizeof(mystruct)\<close> is that of four pointers, \<^verbatim>\<open>sizeof(struct_count)\<close> that of an
  \<^verbatim>\<open>unsigned long\<close>; \<^verbatim>\<open>local_buf\<close> is an array of pointers, so an index moves by 8 bytes.\<close>

definition pointer_size :: nat where "pointer_size = 8"

definition long_size :: nat where "long_size = 8"

definition TEST1_struct_count :: nat where "TEST1_struct_count = TEST1_SHM_SIZE div (4 * pointer_size)"

definition LOCAL_BUF_BYTES :: nat where "LOCAL_BUF_BYTES = TEST1_SHM_SIZE * pointer_size"

definition test1_pass :: "shm_call list" where
  "test1_pass =
     map (\<lambda>i. Memcpy (i * long_size) (i * long_size * pointer_size) long_size) [0..<TEST1_struct_count]"

definition shm_test1 :: "shm_environment \<Rightarrow> shm_call list" where
  "shm_test1 env =
     (let shmid = shmget_result env TEST1_SHKEY in
      Shmget TEST1_SHKEY TEST1_SHM_SIZE SVSHM_MODE True #
      (if shmid = -1 then [Fail ''shmget failed'', Leave 1] else
      Shmat shmid SHM_SHARE_MMU #
      (if shmat_fails env shmid then [Fail ''shmat failed'', Leave 2] else
      concat (replicate 100 test1_pass) @ Pause 20 # detach env ''SHM detach problem'' shmid @
      [Rmid shmid, Leave 0])))"

definition TEST2_SHKEY :: int where "TEST2_SHKEY = 0x6fff"

definition TEST2_SHM_SIZE :: nat where "TEST2_SHM_SIZE = 6 * 1024 * 1024 * 1024"

definition shm_test2 :: "shm_environment \<Rightarrow> shm_call list" where
  "shm_test2 env =
     (let shmid = shmget_result env TEST2_SHKEY in
      Shmget TEST2_SHKEY TEST2_SHM_SIZE SVSHM_MODE True #
      (if shmid = -1 then [Fail ''shmget failed'', Leave 1] else
      Shmadv shmid SHM_ACCESS_LWP #
      (if shmadv_result env shmid = -1 then [Fail ''shmadv failed'', Rmid shmid, Leave 3] else
      Shmat shmid SHM_SHARE_MMU #
      (if shmat_fails env shmid then [Fail ''shmat failed'', Rmid shmid, Leave 2] else
      Pause 10 # detach env ''SHM detach problem'' shmid @ [Rmid shmid, Leave 0]))))"

subsection \<open>The segments that a trace leaves behind\<close>

fun live_step :: "shm_environment \<Rightarrow> shm_call \<Rightarrow> int set \<Rightarrow> int set" where
  "live_step env (Shmget key n mode creat) live = (if shmget_result env key = -1 then live else insert (shmget_result env key) live)"
| "live_step env (Rmid i) live = live - {i}"
| "live_step env _ live = live"

definition live_after :: "shm_environment \<Rightarrow> shm_call list \<Rightarrow> int set" where
  "live_after env tr = fold (live_step env) tr {}"

lemma fold_live_memset [simp]: "fold (live_step env) (memset_rows env' k rows) live = live"
proof (induction rows arbitrary: k)
  case (Cons r rows)
  have "fold (live_step env) (map (\<lambda>t. Memset (f t) c n) xs) live = live" for f :: "nat \<Rightarrow> nat" and c n xs
    by (induction xs) auto
  with Cons show ?case by (cases r) simp
qed simp

lemma fold_live_memcpy [simp]: "fold (live_step env) (memcpy_rows env' k rows) live = live"
proof (induction rows arbitrary: k)
  case (Cons r rows)
  have "fold (live_step env) (map (\<lambda>t. Memcpy (f t) (f t) n) xs) live = live" for f :: "nat \<Rightarrow> nat" and n xs
    by (induction xs) auto
  with Cons show ?case by (cases r) simp
qed simp

lemma fold_live_detach [simp]: "fold (live_step env) (detach env' msg i) live = live"
  by (simp add: detach_def)

lemma fold_live_pass [simp]: "fold (live_step env) (concat (replicate n test1_pass)) live = live"
proof -
  have "fold (live_step env) (map (\<lambda>i. Memcpy (f i) (g i) m) xs) live = live" for f g :: "nat \<Rightarrow> nat" and m xs
    by (induction xs) auto
  then show ?thesis by (induction n) (simp_all add: test1_pass_def)
qed

text \<open>
  Which shared memory segments survive the process, for every combination of failing
  calls: \<^verbatim>\<open>test2\<close> always removes its segment; \<^verbatim>\<open>test1\<close> leaves it behind when the attach fails;
  \<^verbatim>\<open>shm_copy\<close> removes both segments on success but on each failure after the first
  \<^verbatim>\<open>shmget\<close> removes at most the segment the failing call was for and leaves the other one.
\<close>

theorem segments_left_behind:
  assumes "shmget_result env SHKEY_SRC \<noteq> shmget_result env SHKEY_DST"
  shows "let src = shmget_result env SHKEY_SRC; dst = shmget_result env SHKEY_DST in
     live_after env (shm_test2 env) = {} \<and>
     live_after env (shm_test1 env) =
       (if shmget_result env TEST1_SHKEY \<noteq> -1 \<and> shmat_fails env (shmget_result env TEST1_SHKEY)
        then {shmget_result env TEST1_SHKEY} else {}) \<and>
     live_after env (shm_copy env) =
       (if src = -1 then {}
        else if dst = -1 then {src}
        else if shmadv_result env src = -1 then {dst}
        else if shmadv_result env dst = -1 then {src}
        else if shmat_fails env src then {dst}
        else if shmat_fails env dst then {src} else {})"
proof -
  have "live_after env (shm_test2 env) = {}"
    by (auto simp: live_after_def shm_test2_def Let_def)
  moreover have "live_after env (shm_test1 env) =
       (if shmget_result env TEST1_SHKEY \<noteq> -1 \<and> shmat_fails env (shmget_result env TEST1_SHKEY)
        then {shmget_result env TEST1_SHKEY} else {})"
    by (auto simp: live_after_def shm_test1_def Let_def)
  ultimately show ?thesis
    using assms by (auto simp: live_after_def shm_copy_def Let_def)
qed

theorem segments_left_behind_witness:
  "live_after \<lparr>shmget_result = id, shmadv_result = \<lambda>_. 0, shmat_fails = \<lambda>i. i = SHKEY_DST,
      shmdt_result = \<lambda>_. 0, shm_rand = id\<rparr>
     (shm_copy \<lparr>shmget_result = id, shmadv_result = \<lambda>_. 0, shmat_fails = \<lambda>i. i = SHKEY_DST,
      shmdt_result = \<lambda>_. 0, shm_rand = id\<rparr>) = {SHKEY_SRC}"
  using segments_left_behind [of "\<lparr>shmget_result = id, shmadv_result = \<lambda>_. 0,
      shmat_fails = \<lambda>i. i = SHKEY_DST, shmdt_result = \<lambda>_. 0, shm_rand = id\<rparr>"]
  by (simp add: SHKEY_SRC_def SHKEY_DST_def Let_def)

subsection \<open>Accesses and their bounds\<close>

fun access :: "shm_call \<Rightarrow> (nat \<times> nat) option" where
  "access (Memset d c n) = Some (d, n)"
| "access (Memcpy d s n) = Some (d, n)"
| "access _ = None"

lemma block_offset_bound: "block_offset env k + memblock_size \<le> SHM_SIZE"
proof -
  have "shm_rand env k mod struct_count < struct_count" by (simp add: struct_count_def SHM_SIZE_def memblock_size_def)
  then have "Suc (shm_rand env k mod struct_count) * memblock_size \<le> struct_count * memblock_size"
    by (intro mult_le_mono1) simp
  also have "\<dots> = SHM_SIZE" by (simp add: struct_count_def SHM_SIZE_def memblock_size_def)
  finally show ?thesis by (simp add: block_offset_def)
qed

lemma memset_rows_access:
  "e \<in> set (memset_rows env k rows) \<Longrightarrow> access e = Some (d, n) \<Longrightarrow> d + memblock_size \<le> SHM_SIZE \<and> n \<in> fst ` set rows"
  by (induction env k rows rule: memset_rows.induct) (auto simp: block_offset_bound)

lemma memcpy_rows_access:
  "e \<in> set (memcpy_rows env k rows) \<Longrightarrow> access e = Some (d, n) \<Longrightarrow> d + memblock_size \<le> SHM_SIZE \<and> n \<in> fst ` set rows"
  by (induction env k rows rule: memcpy_rows.induct) (auto simp: block_offset_bound)

lemma memset_rows_member:
  "i < count \<Longrightarrow> Memset (block_offset env (k + draws_of pre + i)) CHR ''0'' sz \<in> set (memset_rows env k (pre @ (sz, count) # post))"
proof (induction pre arbitrary: k)
  case Nil
  then show ?case by (auto simp: draws_of_def)
next
  case (Cons r pre)
  with Cons.IH [of "k + snd r"] show ?case by (cases r) (auto simp: draws_of_def add.assoc)
qed

lemma SVSHM_MODE_octal: "SVSHM_MODE = 6 * 64 + 4 * 8 + 4"
  by (simp add: SVSHM_MODE_def SHM_R_def SHM_W_def drop_bit_eq_div)

text \<open>The set-up calls of \<^verbatim>\<open>shm_copy\<close> all succeed.\<close>

definition shm_ready :: "shm_environment \<Rightarrow> bool" where
  "shm_ready env \<longleftrightarrow>
     (\<forall>key \<in> {SHKEY_SRC, SHKEY_DST}. shmget_result env key \<noteq> -1 \<and>
        shmadv_result env (shmget_result env key) \<noteq> -1 \<and> \<not> shmat_fails env (shmget_result env key))"

lemma shm_copy_memsets: "shm_ready env \<Longrightarrow> set (memset_rows env 0 memsets) \<subseteq> set (shm_copy env)"
  by (auto simp: shm_ready_def shm_copy_def Let_def)

lemma shm_copy_access:
  assumes "e \<in> set (shm_copy env)" "access e = Some (d, n)"
  shows "d + memblock_size \<le> SHM_SIZE" "n \<le> 4096" "\<exists>k. d = block_offset env k"
proof -
  have rows: "e \<in> set (memset_rows env 0 memsets) \<or> e \<in> set (memcpy_rows env (draws_of memsets) memcpys)"
    using assms by (auto simp: shm_copy_def Let_def detach_def split: if_splits)
  then have acc: "d + memblock_size \<le> SHM_SIZE \<and> (n \<in> fst ` set memsets \<or> n \<in> fst ` set memcpys)"
    using memset_rows_access [OF _ assms(2)] memcpy_rows_access [OF _ assms(2)] by blast
  then show "d + memblock_size \<le> SHM_SIZE" by simp
  have "list_all (\<lambda>r. fst r \<le> 4096) memsets" "list_all (\<lambda>r. fst r \<le> 4096) memcpys"
    by (simp_all add: memsets_def memcpys_def)
  with acc show "n \<le> 4096" by (auto simp: list_all_iff)
  have "\<exists>k. d = block_offset env k" if "e \<in> set (memset_rows env k0 rs)" for k0 rs
    using that assms(2) by (induction env k0 rs rule: memset_rows.induct) auto
  moreover have "\<exists>k. d = block_offset env k" if "e \<in> set (memcpy_rows env k0 rs)" for k0 rs
    using that assms(2) by (induction env k0 rs rule: memcpy_rows.induct) auto
  ultimately show "\<exists>k. d = block_offset env k" using rows by blast
qed

lemma block_offset_rand_max:
  assumes "\<forall>k. shm_rand env k \<le> rand_max"
  shows "block_offset env k \<le> rand_max * 512"
  using assms le_trans [OF mod_less_eq_dividend] by (simp add: block_offset_def memblock_size_def)

lemma last_row_member:
  assumes "shm_ready env"
  shows "Memset (block_offset env 912775) CHR ''0'' 4096 \<in> set (shm_copy env)"
proof -
  let ?pre = "[(32, 71668), (64, 34432), (128, 25), (256, 64334), (512, 711446), (1024, 30707), (2048, 163)]"
  have "memsets = ?pre @ (4096, 163) # []" by (simp add: memsets_def)
  moreover have "draws_of ?pre = 912775" by (simp add: draws_of_def)
  ultimately have "Memset (block_offset env 912775) CHR ''0'' 4096 \<in> set (memset_rows env 0 memsets)"
    using memset_rows_member [of 0 163 env 0 ?pre 4096 "[]"] by simp
  then show ?thesis using shm_copy_memsets [OF assms] by blast
qed

lemma draws_can_overrun:
  assumes "shm_ready env" "struct_count < rand_max + 8"
  shows "\<exists>f. (\<forall>k. f k \<le> rand_max) \<and> Memset (block_offset (env\<lparr>shm_rand := f\<rparr>) 912775) CHR ''0'' 4096 \<in> set (shm_copy (env\<lparr>shm_rand := f\<rparr>)) \<and>
    SHM_SIZE < block_offset (env\<lparr>shm_rand := f\<rparr>) 912775 + 4096"
proof (intro exI [of _ "\<lambda>_. min rand_max (struct_count - 1)"] conjI)
  let ?env = "env\<lparr>shm_rand := \<lambda>_. min rand_max (struct_count - 1)\<rparr>"
  show "Memset (block_offset ?env 912775) CHR ''0'' 4096 \<in> set (shm_copy ?env)"
    by (rule last_row_member) (use assms(1) in \<open>simp add: shm_ready_def\<close>)
  have "struct_count = 131072" by (simp add: struct_count_def SHM_SIZE_def memblock_size_def)
  with assms(2) show "SHM_SIZE < block_offset ?env 912775 + 4096"
    by (auto simp: block_offset_def memblock_size_def SHM_SIZE_def min_def)
qed simp

text \<open>
  Property C36. The accesses of the copy test, for the values up to \<open>rand_max\<close> that \<^verbatim>\<open>rand()\<close> returns. Every \<^verbatim>\<open>memset\<close> and
  \<^verbatim>\<open>memcpy\<close> of at most 512 bytes stays inside the 64 MB segments whatever the draws are, and no access starts behind the block
  number \<open>rand_max\<close>. All accesses stay inside, for every sequence of draws, exactly when \<open>rand_max\<close> is at least 8 blocks below the
  131072 blocks of a segment, since the sizes go up to 8 blocks: so with the value 32767 of Solaris the test is safe, but it uses the first quarter of
  the segments only, and with \<open>2 ^ 31 - 1\<close> there are draws with which a \<^verbatim>\<open>memset\<close> runs past the end. (Overruns are
  stated for runs whose set-up calls succeed.)
\<close>

theorem shm_copy_bounds:
  assumes "shm_ready env"
  shows "((\<forall>f. (\<forall>k. f k \<le> rand_max) \<longrightarrow>
        (\<forall>e \<in> set (shm_copy (env\<lparr>shm_rand := f\<rparr>)). \<forall>d n. access e = Some (d, n) \<longrightarrow> d + n \<le> SHM_SIZE)) \<longleftrightarrow>
      rand_max + 8 \<le> struct_count) \<and>
   (\<forall>e \<in> set (shm_copy env). \<forall>d n. access e = Some (d, n) \<longrightarrow>
      (n \<le> 512 \<longrightarrow> d + n \<le> SHM_SIZE) \<and> ((\<forall>k. shm_rand env k \<le> rand_max) \<longrightarrow> d \<le> rand_max * 512))"
proof (intro conjI ballI allI impI iffI)
  show "d + n \<le> SHM_SIZE" if "e \<in> set (shm_copy env)" "access e = Some (d, n)" "n \<le> 512" for e d n
    using shm_copy_access(1) [OF that(1,2)] that(3) by (simp add: memblock_size_def)
  show "d \<le> rand_max * 512" if "e \<in> set (shm_copy env)" "access e = Some (d, n)" "\<forall>k. shm_rand env k \<le> rand_max" for e d n
    using shm_copy_access(3) [OF that(1,2)] block_offset_rand_max [OF that(3)] by auto
  show "d + n \<le> SHM_SIZE" if "rand_max + 8 \<le> struct_count" "\<forall>k. f k \<le> rand_max"
      "e \<in> set (shm_copy (env\<lparr>shm_rand := f\<rparr>))" "access e = Some (d, n)" for f e d n
  proof -
    have "\<forall>k. shm_rand (env\<lparr>shm_rand := f\<rparr>) k \<le> rand_max" using that(2) by simp
    then have "d \<le> rand_max * 512" using shm_copy_access(3) [OF that(3,4)] block_offset_rand_max by blast
    moreover have "(rand_max + 8) * 512 \<le> struct_count * 512" using that(1) by (rule mult_le_mono1)
    moreover have "struct_count * 512 = SHM_SIZE" by (simp add: struct_count_def SHM_SIZE_def memblock_size_def)
    ultimately show ?thesis using shm_copy_access(2) [OF that(3,4)] by simp
  qed
  assume inside: "\<forall>f. (\<forall>k. f k \<le> rand_max) \<longrightarrow>
    (\<forall>e \<in> set (shm_copy (env\<lparr>shm_rand := f\<rparr>)). \<forall>d n. access e = Some (d, n) \<longrightarrow> d + n \<le> SHM_SIZE)"
  show "rand_max + 8 \<le> struct_count"
  proof (rule ccontr)
    assume "\<not> rand_max + 8 \<le> struct_count"
    then obtain f where f: "\<forall>k. f k \<le> rand_max" "SHM_SIZE < block_offset (env\<lparr>shm_rand := f\<rparr>) 912775 + 4096"
      "Memset (block_offset (env\<lparr>shm_rand := f\<rparr>) 912775) CHR ''0'' 4096 \<in> set (shm_copy (env\<lparr>shm_rand := f\<rparr>))"
      using draws_can_overrun [OF assms, of rand_max] by (auto simp: not_le)
    then have "block_offset (env\<lparr>shm_rand := f\<rparr>) 912775 + 4096 \<le> SHM_SIZE"
      using inside by (metis access.simps(1))
    with f(2) show False by simp
  qed
qed

definition sample_segments :: shm_environment where
  "sample_segments = \<lparr>shmget_result = id, shmadv_result = \<lambda>_. 0, shmat_fails = \<lambda>_. False, shmdt_result = \<lambda>_. 0,
     shm_rand = \<lambda>k. k mod 32768\<rparr>"

theorem shm_copy_bounds_witness:
  "shm_ready sample_segments \<and> Memset (block_offset sample_segments 912775) CHR ''0'' 4096 \<in> set (shm_copy sample_segments) \<and>
   block_offset sample_segments 912775 + 4096 \<le> SHM_SIZE \<and> block_offset sample_segments 912775 \<le> 32767 * 512 \<and>
   \<not> (\<forall>f. (\<forall>k. f k \<le> 2147483647) \<longrightarrow>
        (\<forall>e \<in> set (shm_copy (sample_segments\<lparr>shm_rand := f\<rparr>)). \<forall>d n. access e = Some (d, n) \<longrightarrow> d + n \<le> SHM_SIZE))"
proof -
  have ready: "shm_ready sample_segments" by (simp add: shm_ready_def sample_segments_def SHKEY_SRC_def SHKEY_DST_def)
  have count: "struct_count = 131072" by (simp add: struct_count_def SHM_SIZE_def memblock_size_def)
  have max: "\<forall>k. shm_rand sample_segments k \<le> 32767" by (simp add: sample_segments_def less_Suc_eq_le [symmetric])
  have same: "sample_segments\<lparr>shm_rand := shm_rand sample_segments\<rparr> = sample_segments" by simp
  let ?m = "Memset (block_offset sample_segments 912775) CHR ''0'' 4096"
  have m: "?m \<in> set (shm_copy sample_segments)" "access ?m = Some (block_offset sample_segments 912775, 4096)"
    using last_row_member [OF ready] by simp_all
  have "(32767 :: nat) + 8 \<le> struct_count" by (simp add: count)
  then have "\<forall>f. (\<forall>k. f k \<le> 32767) \<longrightarrow>
      (\<forall>e \<in> set (shm_copy (sample_segments\<lparr>shm_rand := f\<rparr>)). \<forall>d n. access e = Some (d, n) \<longrightarrow> d + n \<le> SHM_SIZE)"
    using shm_copy_bounds [OF ready, of 32767] by blast
  from spec [OF this, of "shm_rand sample_segments", unfolded same] max m
  have "block_offset sample_segments 912775 + 4096 \<le> SHM_SIZE" by blast
  moreover have "block_offset sample_segments 912775 \<le> 32767 * 512"
    using shm_copy_bounds [OF ready, of 32767] max m by blast
  moreover have "\<not> (2147483647 :: nat) + 8 \<le> struct_count" by (simp add: count)
  ultimately show ?thesis using ready m(1) shm_copy_bounds [OF ready, of 2147483647] by blast
qed

lemma test1_pass_member:
  "e \<in> set test1_pass \<longleftrightarrow> (\<exists>i < TEST1_struct_count. e = Memcpy (i * 8) (i * 64) 8)"
  by (auto simp: test1_pass_def long_size_def pointer_size_def)

lemma ranges_tile: "(\<Union>i \<in> {..<n}. {i * 8..<i * 8 + 8}) = {..<n * 8}" for n :: nat
proof (induction n)
  case (Suc n)
  then show ?case by (auto simp: lessThan_Suc)
qed simp

text \<open>
  Property C39. Where pointers and \<^verbatim>\<open>long\<close> have 8 bytes, the page allocation loop of \<^verbatim>\<open>test1\<close> stays inside the segment and inside its local
  buffer, but touches exactly the first quarter of the segment, when the segment could be made and attached: it advances by the size of the
  counter (8 bytes), not by the size of the structure (32 bytes) that the count is computed from.
\<close>

theorem test1_touches_a_quarter:
  assumes "shmget_result env TEST1_SHKEY \<noteq> -1" "\<not> shmat_fails env (shmget_result env TEST1_SHKEY)"
  shows "(\<Union>e \<in> set (shm_test1 env). case access e of None \<Rightarrow> {} | Some (d, n) \<Rightarrow> {d..<d + n}) = {..<TEST1_SHM_SIZE div 4} \<and>
     (\<forall>d s n. Memcpy d s n \<in> set (shm_test1 env) \<longrightarrow> s + n \<le> LOCAL_BUF_BYTES)"
proof (intro conjI allI impI)
  let ?range = "\<lambda>e. case access e of None \<Rightarrow> {} | Some (d, n) \<Rightarrow> {d..<d + n}"
  have calls: "set (shm_test1 env) = set test1_pass \<union>
      set (Shmget TEST1_SHKEY TEST1_SHM_SIZE SVSHM_MODE True # Shmat (shmget_result env TEST1_SHKEY) SHM_SHARE_MMU # Pause 20 #
        detach env ''SHM detach problem'' (shmget_result env TEST1_SHKEY) @ [Rmid (shmget_result env TEST1_SHKEY), Leave 0])"
    using assms by (auto simp: shm_test1_def Let_def)
  have "(\<Union>e \<in> set (shm_test1 env). ?range e) = (\<Union>e \<in> set test1_pass. ?range e)"
    unfolding calls by (auto simp: detach_def split: if_splits)
  also have "set test1_pass = (\<lambda>i. Memcpy (i * 8) (i * 64) 8) ` {..<TEST1_struct_count}"
    by (auto simp: test1_pass_member)
  also have "(\<Union>e \<in> \<dots>. ?range e) = {..<TEST1_struct_count * 8}" by (simp add: ranges_tile)
  finally show "(\<Union>e \<in> set (shm_test1 env). ?range e) = {..<TEST1_SHM_SIZE div 4}"
    by (simp add: TEST1_struct_count_def TEST1_SHM_SIZE_def pointer_size_def)
  show "s + n \<le> LOCAL_BUF_BYTES" if "Memcpy d s n \<in> set (shm_test1 env)" for d s n
  proof -
    have "Memcpy d s n \<in> set test1_pass" using that unfolding calls by (auto simp: detach_def split: if_splits)
    then obtain i where "i < 2064384" "s = i * 64" "n = 8"
      by (auto simp: test1_pass_member TEST1_struct_count_def TEST1_SHM_SIZE_def pointer_size_def)
    then show ?thesis by (simp add: LOCAL_BUF_BYTES_def TEST1_SHM_SIZE_def pointer_size_def)
  qed
qed

theorem test1_touches_a_quarter_witness:
  "\<exists>env. (\<Union>e \<in> set (shm_test1 env). case access e of None \<Rightarrow> {} | Some (d, n) \<Rightarrow> {d..<d + n}) = {..<16515072}"
  using test1_touches_a_quarter [of "\<lparr>shmget_result = id, shmadv_result = \<lambda>_. 0,
     shmat_fails = \<lambda>_. False, shmdt_result = \<lambda>_. 0, shm_rand = id\<rparr>"]
  by (auto simp: TEST1_SHKEY_def TEST1_SHM_SIZE_def)

end
