(* ===== verification/LibprocHeader.thy ===== *)
theory LibprocHeader
  imports Prelude
begin

text \<open>
  The constants of \<^verbatim>\<open>libproc/libproc.h\<close>, the interface of the process control library that the tools of
  \<^verbatim>\<open>libproc\<close> are written against: states, error codes and flags. A group of codes is a datatype with its
  numbers and their decoding, a group of flags a datatype with the bit of each flag; the two locales
  state what makes such a group usable and are interpreted for every group. The functions that the
  header declares are in the library and not in the repository.
\<close>

unbundle bit_operations_syntax

subsection \<open>Codes\<close>

locale code_group =
  fixes code :: "'a \<Rightarrow> int" and decode :: "int \<Rightarrow> 'a option"
  assumes decode_code: "decode (code x) = Some x"
    and code_decode: "decode n = Some x \<Longrightarrow> code x = n"
begin

lemma code_inject: "code x = code y \<longleftrightarrow> x = y"
  by (metis decode_code option.inject)

lemma decode_eq: "decode n = Some x \<longleftrightarrow> code x = n"
  using decode_code code_decode by auto

end

text \<open>State values returned by \<^verbatim>\<open>Pstate\<close>.\<close>

datatype process_state = PS_RUN | PS_STOP | PS_LOST | PS_UNDEAD | PS_DEAD | PS_IDLE

fun state_code :: "process_state \<Rightarrow> int" where
  "state_code PS_RUN = 1"
| "state_code PS_STOP = 2"
| "state_code PS_LOST = 3"
| "state_code PS_UNDEAD = 4"
| "state_code PS_DEAD = 5"
| "state_code PS_IDLE = 6"

text \<open>Error codes from \<^verbatim>\<open>Pcreate\<close>.\<close>

datatype create_error = C_STRANGE | C_FORK | C_PERM | C_NOEXEC | C_INTR | C_LP64 | C_NOENT

fun create_error_code :: "create_error \<Rightarrow> int" where
  "create_error_code C_STRANGE = - 1"
| "create_error_code C_FORK = 1"
| "create_error_code C_PERM = 2"
| "create_error_code C_NOEXEC = 3"
| "create_error_code C_INTR = 4"
| "create_error_code C_LP64 = 5"
| "create_error_code C_NOENT = 6"

text \<open>Error codes from \<^verbatim>\<open>Pgrab\<close>, \<^verbatim>\<open>Pfgrab_core\<close> and \<^verbatim>\<open>Pgrab_core\<close>.\<close>

datatype grab_error =
    G_STRANGE | G_NOPROC | G_NOCORE | G_NOPROCORCORE | G_NOEXEC | G_ZOMB | G_PERM | G_BUSY | G_SYS | G_SELF
  | G_INTR | G_LP64 | G_FORMAT | G_ELF | G_NOTE | G_ISAINVAL | G_BADLWPS | G_NOFD

fun grab_error_code :: "grab_error \<Rightarrow> int" where
  "grab_error_code G_STRANGE = - 1"
| "grab_error_code G_NOPROC = 1"
| "grab_error_code G_NOCORE = 2"
| "grab_error_code G_NOPROCORCORE = 3"
| "grab_error_code G_NOEXEC = 4"
| "grab_error_code G_ZOMB = 5"
| "grab_error_code G_PERM = 6"
| "grab_error_code G_BUSY = 7"
| "grab_error_code G_SYS = 8"
| "grab_error_code G_SELF = 9"
| "grab_error_code G_INTR = 10"
| "grab_error_code G_LP64 = 11"
| "grab_error_code G_FORMAT = 12"
| "grab_error_code G_ELF = 13"
| "grab_error_code G_NOTE = 14"
| "grab_error_code G_ISAINVAL = 15"
| "grab_error_code G_BADLWPS = 16"
| "grab_error_code G_NOFD = 17"

text \<open>Decoding is a search in the list of all codes of the group.\<close>

definition decode_in :: "'a list \<Rightarrow> ('a \<Rightarrow> int) \<Rightarrow> int \<Rightarrow> 'a option" where
  "decode_in all code n = find (\<lambda>x. code x = n) all"

definition all_states :: "process_state list" where
  "all_states = [PS_RUN, PS_STOP, PS_LOST, PS_UNDEAD, PS_DEAD, PS_IDLE]"

definition all_create_errors :: "create_error list" where
  "all_create_errors = [C_STRANGE, C_FORK, C_PERM, C_NOEXEC, C_INTR, C_LP64, C_NOENT]"

definition all_grab_errors :: "grab_error list" where
  "all_grab_errors = [G_STRANGE, G_NOPROC, G_NOCORE, G_NOPROCORCORE, G_NOEXEC, G_ZOMB, G_PERM, G_BUSY, G_SYS, G_SELF,
     G_INTR, G_LP64, G_FORMAT, G_ELF, G_NOTE, G_ISAINVAL, G_BADLWPS, G_NOFD]"

lemma decode_in_code: "decode_in all code n = Some x \<Longrightarrow> code x = n"
  by (auto simp: decode_in_def find_Some_iff)

interpretation states: code_group state_code "decode_in all_states state_code"
proof
  fix x
  show "decode_in all_states state_code (state_code x) = Some x"
    by (cases x) (simp_all add: decode_in_def all_states_def)
qed (rule decode_in_code)

interpretation create_errors: code_group create_error_code "decode_in all_create_errors create_error_code"
proof
  fix x
  show "decode_in all_create_errors create_error_code (create_error_code x) = Some x"
    by (cases x) (simp_all add: decode_in_def all_create_errors_def)
qed (rule decode_in_code)

interpretation grab_errors: code_group grab_error_code "decode_in all_grab_errors grab_error_code"
proof
  fix x
  show "decode_in all_grab_errors grab_error_code (grab_error_code x) = Some x"
    by (cases x) (simp_all add: decode_in_def all_grab_errors_def)
qed (rule decode_in_code)

subsection \<open>Flags\<close>

text \<open>The mask of a list of flags, and the flags that a mask has.\<close>

definition mask_of :: "('f \<Rightarrow> nat) \<Rightarrow> 'f list \<Rightarrow> u32" where
  "mask_of flag_bit fs = foldr (\<lambda>f m. push_bit (flag_bit f) 1 OR m) fs 0"

definition flags_in :: "('f \<Rightarrow> nat) \<Rightarrow> 'f list \<Rightarrow> u32 \<Rightarrow> 'f list" where
  "flags_in flag_bit all m = filter (\<lambda>f. bit m (flag_bit f)) all"

locale flag_group =
  fixes flag_bit :: "'f \<Rightarrow> nat" and all :: "'f list"
  assumes bits_distinct: "flag_bit f = flag_bit g \<Longrightarrow> f = g"
    and bits_fit: "flag_bit f < 32" and all_flags: "f \<in> set all"
begin

lemma bit_mask_of: "bit (mask_of flag_bit fs) n \<longleftrightarrow> n < 32 \<and> (\<exists>f \<in> set fs. flag_bit f = n)"
proof (induction fs)
  case (Cons f fs)
  have "bit (push_bit (flag_bit f) 1 :: u32) n \<longleftrightarrow> flag_bit f = n"
    using bits_fit [of f] by (auto simp: bit_simps)
  with Cons show ?case using bits_fit [of f] by (auto simp: mask_of_def bit_or_iff)
qed (simp add: mask_of_def)

lemma flags_of_mask: "set (flags_in flag_bit all (mask_of flag_bit fs)) = set fs"
  using bits_fit bits_distinct all_flags by (auto simp: flags_in_def bit_mask_of)

lemma mask_inject: "mask_of flag_bit fs = mask_of flag_bit gs \<longleftrightarrow> set fs = set gs"
proof
  assume "mask_of flag_bit fs = mask_of flag_bit gs"
  then show "set fs = set gs" by (metis flags_of_mask)
next
  assume "set fs = set gs"
  then show "mask_of flag_bit fs = mask_of flag_bit gs" by (auto intro: bit_eqI simp: bit_mask_of)
qed

end

text \<open>Flags accepted by \<^verbatim>\<open>Pgrab\<close>: 0x01 to 0x10.\<close>

datatype pgrab_flag = PGRAB_RETAIN | PGRAB_FORCE | PGRAB_RDONLY | PGRAB_NOSTOP | PGRAB_INCORE

fun pgrab_bit :: "pgrab_flag \<Rightarrow> nat" where
  "pgrab_bit PGRAB_RETAIN = 0"
| "pgrab_bit PGRAB_FORCE = 1"
| "pgrab_bit PGRAB_RDONLY = 2"
| "pgrab_bit PGRAB_NOSTOP = 3"
| "pgrab_bit PGRAB_INCORE = 4"

text \<open>Flags accepted by \<^verbatim>\<open>Prelease\<close>: 0x10 to 0x80.\<close>

datatype prelease_flag = PRELEASE_CLEAR | PRELEASE_RETAIN | PRELEASE_HANG | PRELEASE_KILL

fun prelease_bit :: "prelease_flag \<Rightarrow> nat" where
  "prelease_bit PRELEASE_CLEAR = 4"
| "prelease_bit PRELEASE_RETAIN = 5"
| "prelease_bit PRELEASE_HANG = 6"
| "prelease_bit PRELEASE_KILL = 7"

text \<open>The bit mask that selects symbols by binding and by type.\<close>

datatype symbol_flag =
    BIND_LOCAL | BIND_GLOBAL | BIND_WEAK | TYPE_NOTYPE | TYPE_OBJECT | TYPE_FUNC | TYPE_SECTION | TYPE_FILE

fun symbol_bit :: "symbol_flag \<Rightarrow> nat" where
  "symbol_bit BIND_LOCAL = 0"
| "symbol_bit BIND_GLOBAL = 1"
| "symbol_bit BIND_WEAK = 2"
| "symbol_bit TYPE_NOTYPE = 8"
| "symbol_bit TYPE_OBJECT = 9"
| "symbol_bit TYPE_FUNC = 10"
| "symbol_bit TYPE_SECTION = 11"
| "symbol_bit TYPE_FILE = 12"

definition BIND_ANY :: u32 where
  "BIND_ANY = mask_of symbol_bit [BIND_LOCAL, BIND_GLOBAL, BIND_WEAK]"

definition TYPE_ANY :: u32 where
  "TYPE_ANY = mask_of symbol_bit [TYPE_NOTYPE, TYPE_OBJECT, TYPE_FUNC, TYPE_SECTION, TYPE_FILE]"

text \<open>Which symbol table \<^verbatim>\<open>Psymbol_iter\<close> walks.\<close>

definition PR_SYMTAB :: int where "PR_SYMTAB = 1"

definition PR_DYNSYM :: int where "PR_DYNSYM = 2"

text \<open>Which arguments \<^verbatim>\<open>proc_arg_grab\<close> accepts.\<close>

datatype arg_flag = PR_ARG_PIDS | PR_ARG_CORES

fun arg_bit :: "arg_flag \<Rightarrow> nat" where
  "arg_bit PR_ARG_PIDS = 0"
| "arg_bit PR_ARG_CORES = 1"

definition PR_ARG_ANY :: u32 where
  "PR_ARG_ANY = mask_of arg_bit [PR_ARG_PIDS, PR_ARG_CORES]"

definition all_pgrab_flags :: "pgrab_flag list" where
  "all_pgrab_flags = [PGRAB_RETAIN, PGRAB_FORCE, PGRAB_RDONLY, PGRAB_NOSTOP, PGRAB_INCORE]"

definition all_prelease_flags :: "prelease_flag list" where
  "all_prelease_flags = [PRELEASE_CLEAR, PRELEASE_RETAIN, PRELEASE_HANG, PRELEASE_KILL]"

definition all_symbol_flags :: "symbol_flag list" where
  "all_symbol_flags = [BIND_LOCAL, BIND_GLOBAL, BIND_WEAK, TYPE_NOTYPE, TYPE_OBJECT, TYPE_FUNC, TYPE_SECTION, TYPE_FILE]"

definition all_arg_flags :: "arg_flag list" where
  "all_arg_flags = [PR_ARG_PIDS, PR_ARG_CORES]"

interpretation pgrab_flags: flag_group pgrab_bit all_pgrab_flags
proof
  show "f = g" if "pgrab_bit f = pgrab_bit g" for f g using that by (cases f; cases g) simp_all
  show "pgrab_bit f < 32" "f \<in> set all_pgrab_flags" for f by (cases f; simp add: all_pgrab_flags_def)+
qed

interpretation prelease_flags: flag_group prelease_bit all_prelease_flags
proof
  show "f = g" if "prelease_bit f = prelease_bit g" for f g using that by (cases f; cases g) simp_all
  show "prelease_bit f < 32" "f \<in> set all_prelease_flags" for f by (cases f; simp add: all_prelease_flags_def)+
qed

interpretation symbol_flags: flag_group symbol_bit all_symbol_flags
proof
  show "f = g" if "symbol_bit f = symbol_bit g" for f g using that by (cases f; cases g) simp_all
  show "symbol_bit f < 32" "f \<in> set all_symbol_flags" for f by (cases f; simp add: all_symbol_flags_def)+
qed

interpretation arg_flags: flag_group arg_bit all_arg_flags
proof
  show "f = g" if "arg_bit f = arg_bit g" for f g using that by (cases f; cases g) simp_all
  show "arg_bit f < 32" "f \<in> set all_arg_flags" for f by (cases f; simp add: all_arg_flags_def)+
qed

subsection \<open>Arguments of forced system calls\<close>

datatype arg_type = AT_BYVAL | AT_BYREF

datatype arg_inout = AI_INPUT | AI_OUTPUT | AI_INOUT

record argdes =
  arg_value :: u64
  arg_object :: "u64 option"
  arg_kind :: arg_type
  arg_direction :: arg_inout
  arg_size :: "16 word"

definition MAXARGS :: nat where "MAXARGS = 8"

definition MAXARGL :: nat where "MAXARGL = 4 * 1024"

text \<open>The limits that the header sets for an argument vector.\<close>

definition args_ok :: "argdes list \<Rightarrow> bool" where
  "args_ok args \<longleftrightarrow> length args \<le> MAXARGS \<and>
     list_all (\<lambda>a. arg_kind a = AT_BYREF \<longrightarrow> arg_object a \<noteq> None \<and> unat (arg_size a) \<le> MAXARGL) args"

subsection \<open>Properties\<close>

text \<open>
  The constants of \<^verbatim>\<open>libproc.h\<close> are well chosen: states and error codes can be told apart and decoded, a mask
  of flags for \<^verbatim>\<open>Pgrab\<close>, \<^verbatim>\<open>Prelease\<close>, \<^verbatim>\<open>Psymbol_iter\<close> or \<^verbatim>\<open>proc_arg_grab\<close> determines the set of
  flags it was made of, and no flag of \<^verbatim>\<open>Psymbol_iter\<close> for a binding is one for a type (the two groups of the mask that
  \<^verbatim>\<open>BIND_ANY\<close> and \<^verbatim>\<open>TYPE_ANY\<close> name are disjoint).
\<close>

theorem libproc_constants_decode:
  "decode_in all_states state_code (state_code st) = Some st \<and>
   decode_in all_create_errors create_error_code (create_error_code ce) = Some ce \<and>
   decode_in all_grab_errors grab_error_code (grab_error_code ge) = Some ge \<and>
   set (flags_in pgrab_bit all_pgrab_flags (mask_of pgrab_bit gs)) = set gs \<and>
   set (flags_in prelease_bit all_prelease_flags (mask_of prelease_bit rs)) = set rs \<and>
   set (flags_in symbol_bit all_symbol_flags (mask_of symbol_bit ss)) = set ss \<and>
   set (flags_in arg_bit all_arg_flags (mask_of arg_bit as)) = set as \<and>
   BIND_ANY AND TYPE_ANY = 0 \<and> BIND_ANY = 0x7 \<and> TYPE_ANY = 0x1F00 \<and> PR_ARG_ANY = 0x3"
proof -
  have "BIND_ANY = 0x7" "TYPE_ANY = 0x1F00" "PR_ARG_ANY = 0x3"
    by (simp_all add: BIND_ANY_def TYPE_ANY_def PR_ARG_ANY_def mask_of_def)
  moreover have "BIND_ANY AND TYPE_ANY = 0"
    by (rule bit_eqI) (auto simp: BIND_ANY_def TYPE_ANY_def bit_and_iff symbol_flags.bit_mask_of)
  ultimately show ?thesis
    by (simp add: states.decode_code create_errors.decode_code grab_errors.decode_code pgrab_flags.flags_of_mask
        prelease_flags.flags_of_mask symbol_flags.flags_of_mask arg_flags.flags_of_mask)
qed

text \<open>The argument vector of a forced system call never refers to more than \<open>32 K\<close> of objects.\<close>

lemma args_ok_bound:
  assumes "args_ok args"
  shows "(\<Sum>a \<leftarrow> filter (\<lambda>a. arg_kind a = AT_BYREF) args. unat (arg_size a)) \<le> MAXARGS * MAXARGL"
proof -
  have "(\<Sum>a \<leftarrow> filter (\<lambda>a. arg_kind a = AT_BYREF) as. unat (arg_size a)) \<le> length as * MAXARGL"
    if "list_all (\<lambda>a. arg_kind a = AT_BYREF \<longrightarrow> arg_object a \<noteq> None \<and> unat (arg_size a) \<le> MAXARGL) as" for as
    using that by (induction as) auto
  from this [of args] assms have "(\<Sum>a \<leftarrow> filter (\<lambda>a. arg_kind a = AT_BYREF) args. unat (arg_size a)) \<le> length args * MAXARGL"
    by (simp add: args_ok_def)
  also have "\<dots> \<le> MAXARGS * MAXARGL" using assms by (simp add: args_ok_def)
  finally show ?thesis .
qed

end
