(* ===== verification/Libproc.thy ===== *)
theory Libproc
  imports LibprocHeader Decimal "HOL-Library.Multiset"
begin

text \<open>
  The programs of \<^verbatim>\<open>libproc\<close> that walk the objects of a process or the symbols of a file:
  \<^verbatim>\<open>gordon.c\<close>, \<^verbatim>\<open>proctest.c\<close>, \<^verbatim>\<open>grab_file_test.c\<close> and \<^verbatim>\<open>extract_symtab_from_exec.c\<close>. A program is the
  sequence of its library calls and of the lines it prints, with its exit status. The functions of the libproc library and
  the demangler are parameters; what the iterators promise is stated by the predicate \<open>iterates\<close>.
\<close>

subsection \<open>Calls\<close>

text \<open>A call that makes a handle has its result: an error code or the handle. \<^verbatim>\<open>Psymbol_iter\<close> may get a null
  handle.\<close>

datatype lib_event =
    Stdout string
  | Stderr string
  | Strdup string bool
  | Free_copy string
  | Proc_arg_grab string u32 u32 "int + nat"
  | Pgrab int u32 "int + nat"
  | Pgrab_file string "int + nat"
  | Pobject_iter nat
  | Psymbol_iter "nat option" string int u32
  | Pfree nat
  | Cplus_demangle string nat

record libproc_library =
  proc_arg_grab :: "string \<Rightarrow> u32 \<Rightarrow> u32 \<Rightarrow> int + nat"
  pgrab :: "int \<Rightarrow> u32 \<Rightarrow> int + nat"
  pgrab_file :: "string \<Rightarrow> int + nat"
  pgrab_error :: "int \<Rightarrow> string"

text \<open>An object of a link map: its name, if it has one, and the address of its text mapping; and an entry
  of a symbol table.\<close>

record prmap_object =
  object_name :: "string option"
  pr_vaddr :: u64

record symbol =
  sym_name :: "string option"
  st_value :: u64
  st_size :: u64

subsection \<open>The iterator contract\<close>

text \<open>
  A callback gets what has happened so far together with the data behind its first argument. It returns
  both with its result, or ends the process (\<open>Throws\<close> has the sequence and the exit status). The iterators call back
  once per element until a call returns a value other than 0, which is the result.
\<close>

type_synonym 'd walk = "lib_event list \<times> 'd"
type_synonym 'd walk_end = "(lib_event list \<times> int, 'd walk \<times> int) outcome"
type_synonym ('d, 'o) callback = "'d walk \<Rightarrow> 'o \<Rightarrow> 'd walk_end"
type_synonym ('d, 'o) iterator = "('d, 'o) callback \<Rightarrow> 'd walk \<Rightarrow> 'd walk_end"

fun iterate_until :: "('d, 'o) callback \<Rightarrow> 'd walk \<Rightarrow> 'o list \<Rightarrow> 'd walk_end" where
  "iterate_until f w [] = Returns (w, 0)"
| "iterate_until f w (x # xs) =
     (case f w x of
        Returns (w', r) \<Rightarrow> if r \<noteq> 0 then Returns (w', r) else iterate_until f w' xs
      | Throws e \<Rightarrow> Throws e
      | Undefined \<Rightarrow> Undefined)"

definition iterates :: "('d, 'o) iterator \<Rightarrow> 'o list \<Rightarrow> bool" where
  "iterates it xs \<longleftrightarrow> (\<forall>f w. it f w = iterate_until f w xs)"

lemma iterate_Returns:
  assumes "\<And>tr x. x \<in> set xs \<Longrightarrow> f (tr, d) x = Returns ((tr @ g x, d), 0)"
  shows "iterate_until f (tr, d) xs = Returns ((tr @ concat (map g xs), d), 0)"
  using assms by (induction xs arbitrary: tr) auto

text \<open>How a program ends: \<open>None\<close> when its behaviour is undefined.\<close>

type_synonym program_end = "(lib_event list \<times> int) option"

definition GLOBAL_FUNCS :: u32 where
  "GLOBAL_FUNCS = mask_of symbol_bit [BIND_GLOBAL, TYPE_FUNC]"

definition RDONLY :: u32 where
  "RDONLY = mask_of pgrab_bit [PGRAB_RDONLY]"

subsection \<open>gordon\<close>

record search =
  search_name :: string
  search_addr :: u64

text \<open>\<^verbatim>\<open>basename(3)\<close>: the part after the last slash that is not a trailing one.\<close>

definition base_name :: "string \<Rightarrow> string" where
  "base_name p =
     (if p = [] then ''.''
      else let q = rev (dropWhile (\<lambda>c. c = CHR ''/'') (rev p)) in
           if q = [] then ''/'' else rev (takeWhile (\<lambda>c. c \<noteq> CHR ''/'') (rev q)))"

text \<open>\<open>strdup_ok\<close> tells for which names the copy can be allocated.\<close>

definition callback :: "(string \<Rightarrow> bool) \<Rightarrow> (search, prmap_object) callback" where
  "callback strdup_ok w prmap =
     (case w of (tr, sp) \<Rightarrow>
        (case object_name prmap of
           None \<Rightarrow> Returns ((tr, sp), 0)
         | Some name \<Rightarrow>
             if \<not> strdup_ok name then Returns ((tr @ [Strdup name False], sp), 0)
             else let match = (search_name sp = base_name name);
                      tr = tr @ [Strdup name True, Free_copy name]
                  in if \<not> match then Returns ((tr, sp), 0)
                     else Returns ((tr, sp\<lparr>search_addr := pr_vaddr prmap\<rparr>), 1)))"

text \<open>The field \<^verbatim>\<open>search_addr\<close> is uninitialised before the walk; its content is \<open>garbage\<close>.\<close>

definition gordon_main ::
  "libproc_library \<Rightarrow> (string \<Rightarrow> bool) \<Rightarrow> (nat \<Rightarrow> (search, prmap_object) iterator) \<Rightarrow> u64 \<Rightarrow> string list \<Rightarrow> program_end" where
  "gordon_main lib strdup_ok pobject_iter garbage argv =
     (case argv of
        [prog, arg, obj] \<Rightarrow>
          (let flags = mask_of arg_bit [PR_ARG_PIDS]; res = proc_arg_grab lib arg flags RDONLY;
               grab = Proc_arg_grab arg flags RDONLY res in
           case res of
             Inl perr \<Rightarrow> Some ([grab, Stderr (''proc_arg_grab() failed with '' @ pgrab_error lib perr @ NL)], 1)
           | Inr Pr \<Rightarrow>
               (case pobject_iter Pr (callback strdup_ok)
                       ([grab, Pobject_iter Pr], \<lparr>search_name = obj, search_addr = garbage\<rparr>) of
                  Returns ((tr, s), result) \<Rightarrow>
                    Some (tr @ [Stdout (if result \<noteq> 0
                                        then search_name s @ '' loaded at 0x'' @ hexadecimal (unat (search_addr s)) @ NL
                                        else search_name s @ '' not found'' @ NL),
                                Pfree Pr], 0)
                | Throws e \<Rightarrow> Some e
                | Undefined \<Rightarrow> None))
      | prog # args \<Rightarrow> Some ([Stderr (''usage: '' @ prog @ '' <PID> <object>'' @ NL)], 1)
      | [] \<Rightarrow> None)"

subsection \<open>proctest\<close>

definition proctest_function_iter :: "(int, symbol) callback" where
  "proctest_function_iter w sy =
     (case w of (tr, function_count) \<Rightarrow>
        (case sym_name sy of
           Some name \<Rightarrow>
             Returns ((tr @ [Stdout (TAB @ pad 32 name @ '' '' @ decimal (unat (st_value sy)) @ '' '' @
                                     decimal (unat (st_size sy)) @ NL)], function_count + 1), 0)
         | None \<Rightarrow> Returns ((tr @ [Stdout (TAB @ ''NULL FUNCNAME'' @ NL)], function_count), 0)))"

text \<open>An object without a name would be printed by \<^verbatim>\<open>%s\<close>, which is undefined.\<close>

definition proctest_object_iter ::
  "(nat option \<Rightarrow> string \<Rightarrow> int \<Rightarrow> u32 \<Rightarrow> (int, symbol) iterator) \<Rightarrow> nat \<Rightarrow> (unit, prmap_object) callback" where
  "proctest_object_iter psymbol_iter Proc w pmp =
     (case object_name pmp of
        None \<Rightarrow> Undefined
      | Some name \<Rightarrow>
          (case psymbol_iter (Some Proc) name PR_SYMTAB GLOBAL_FUNCS proctest_function_iter
                  (fst w @ [Stdout (pad_right 120 name @ '' '' @ zero_padded 16 (hexadecimal_upper (unat (pr_vaddr pmp))) @ NL),
                            Psymbol_iter (Some Proc) name PR_SYMTAB GLOBAL_FUNCS], 0) of
             Returns ((tr, function_count), r) \<Rightarrow>
               Returns ((tr @ [Stdout (''FUNCTION COUNT: '' @ print_lld function_count @ NL)], ()), 0)
           | Throws e \<Rightarrow> Throws e
           | Undefined \<Rightarrow> Undefined))"

definition proctest_main ::
  "libproc_library \<Rightarrow> (nat \<Rightarrow> (unit, prmap_object) iterator) \<Rightarrow>
   (nat option \<Rightarrow> string \<Rightarrow> int \<Rightarrow> u32 \<Rightarrow> (int, symbol) iterator) \<Rightarrow> string list \<Rightarrow> program_end" where
  "proctest_main lib pobject_iter psymbol_iter argv =
     (if length argv = 2 then
        (case atoi (argv ! 1) of
           None \<Rightarrow> None
         | Some pid \<Rightarrow>
             (let tr = [Stdout (''You want to examine PID: '' @ decimal (unat (word_of_int pid :: u32)) @ NL),
                        Pgrab pid RDONLY (pgrab lib pid RDONLY)] in
              case pgrab lib pid RDONLY of
                Inl perr \<Rightarrow> Some (tr @ [Stdout (''Unable to attach: '' @ pgrab_error lib perr @ NL)], 2)
              | Inr pshandle \<Rightarrow>
                  (case pobject_iter pshandle (proctest_object_iter psymbol_iter pshandle)
                          (tr @ [Stdout (pad_right 120 ''OBJECT'' @ '' '' @ pad 16 ''BASE ADDRESS'' @ NL),
                                 Pobject_iter pshandle], ()) of
                     Returns ((tr, u), r) \<Rightarrow> Some (tr @ [Pfree pshandle], 0)
                   | Throws e \<Rightarrow> Some e
                   | Undefined \<Rightarrow> None)))
      else Some ([Stdout (''Must specify PID'' @ NL)], 1))"

subsection \<open>grab\_file\_test\<close>

record data_t =
  file_pshandle :: "nat option"
  function_count :: int

definition grab_function_iter :: "(data_t, symbol) callback" where
  "grab_function_iter w sy =
     (case w of (tr, data) \<Rightarrow>
        (case sym_name sy of
           Some name \<Rightarrow>
             Returns ((tr @ [Stdout (pad_right 32 name @ '' '' @ decimal (unat (st_value sy)) @ '' '' @
                                     decimal (unat (st_size sy)) @ NL)],
                       data\<lparr>function_count := function_count data + 1\<rparr>), 0)
         | None \<Rightarrow> Returns ((tr, data), 0)))"

text \<open>The file of every object is grabbed again. When that fails the null handle goes to \<^verbatim>\<open>Psymbol_iter\<close> all the same,
  and no handle is released.\<close>

definition grab_object_iter ::
  "libproc_library \<Rightarrow> (nat option \<Rightarrow> string \<Rightarrow> int \<Rightarrow> u32 \<Rightarrow> (data_t, symbol) iterator) \<Rightarrow> (unit, prmap_object) callback" where
  "grab_object_iter lib psymbol_iter w pmp =
     (case object_name pmp of
        None \<Rightarrow> Undefined
      | Some name \<Rightarrow>
          (let res = pgrab_file lib name;
               tr = fst w @ [Stdout (''FILENAME: '' @ name @ NL), Pgrab_file name res] @
                 (case res of Inl perr \<Rightarrow> [Stdout (''Unable to grab file: '' @ pgrab_error lib perr @ NL)] | Inr h \<Rightarrow> []);
               handle = (case res of Inl perr \<Rightarrow> None | Inr h \<Rightarrow> Some h)
           in case psymbol_iter handle name PR_SYMTAB GLOBAL_FUNCS grab_function_iter
                     (tr @ [Psymbol_iter handle name PR_SYMTAB GLOBAL_FUNCS],
                      \<lparr>file_pshandle = handle, function_count = 0\<rparr>) of
                Returns ((tr, data), r) \<Rightarrow> Returns ((tr, ()), 0)
              | Throws e \<Rightarrow> Throws e
              | Undefined \<Rightarrow> Undefined))"

definition grab_main ::
  "libproc_library \<Rightarrow> (nat \<Rightarrow> (unit, prmap_object) iterator) \<Rightarrow>
   (nat option \<Rightarrow> string \<Rightarrow> int \<Rightarrow> u32 \<Rightarrow> (data_t, symbol) iterator) \<Rightarrow> string list \<Rightarrow> program_end" where
  "grab_main lib pobject_iter psymbol_iter argv =
     (if length argv = 2 then
        (case atoi (argv ! 1) of
           None \<Rightarrow> None
         | Some pid \<Rightarrow>
             (case pgrab lib pid RDONLY of
                Inl perr \<Rightarrow> Some ([Pgrab pid RDONLY (Inl perr), Stdout (''Unable to attach: '' @ pgrab_error lib perr @ NL)], 2)
              | Inr pshandle \<Rightarrow>
                  (case pobject_iter pshandle (grab_object_iter lib psymbol_iter)
                          ([Pgrab pid RDONLY (Inr pshandle), Pobject_iter pshandle], ()) of
                     Returns ((tr, u), r) \<Rightarrow> Some (tr @ [Pfree pshandle], 0)
                   | Throws e \<Rightarrow> Some e
                   | Undefined \<Rightarrow> None)))
      else Some ([Stdout (''Must specify PID'' @ NL)], 1))"

subsection \<open>extract\_symtab\_from\_exec\<close>

text \<open>\<^verbatim>\<open><demangle.h>\<close>: what the demangler leaves in the buffer and returns for a name, and its two error codes.\<close>

record demangler =
  cplus_demangle :: "string \<Rightarrow> string \<times> int"
  DEMANGLE_ENAME :: int
  DEMANGLE_ESPACE :: int

text \<open>The \<^verbatim>\<open>switch\<close> reads \<^verbatim>\<open>demangle_result\<close>, which is never assigned; its content is \<open>garbage\<close>. The result of the demangler is
  discarded.\<close>

definition extract_function_iter :: "demangler \<Rightarrow> int \<Rightarrow> (data_t, symbol) callback" where
  "extract_function_iter dm garbage w sy =
     (case w of (tr, data) \<Rightarrow>
        (case sym_name sy of
           None \<Rightarrow> Returns ((tr @ [Stdout (TAB @ ''NULL FUNCNAME'' @ NL)], data), 0)
         | Some name \<Rightarrow>
             (let proto_buffer = fst (cplus_demangle dm name); tr = tr @ [Cplus_demangle name 8192] in
              if garbage = 0
              then Returns ((tr @ [Stdout (pad_right 32 proto_buffer @ '' '' @ decimal (unat (st_value sy)) @ '' '' @
                                           decimal (unat (st_size sy)) @ NL)],
                             data\<lparr>function_count := function_count data + 1\<rparr>), 0)
              else if garbage = DEMANGLE_ENAME dm then Throws (tr @ [Stdout (''INVALID MANGLED NAME'' @ NL)], 4)
              else if garbage = DEMANGLE_ESPACE dm then Throws (tr @ [Stdout (''Demangle BUFFER TOO SMALL'' @ NL)], 5)
              else Throws (tr @ [Stdout (''cplus_demangle() failed with unknown error '' @ print_lld garbage @ NL)], 6))))"

text \<open>\<open>garbage sy\<close> is the content of \<^verbatim>\<open>demangle_result\<close> in the call for the symbol \<open>sy\<close>.\<close>

definition extract_object_iter ::
  "libproc_library \<Rightarrow> (nat option \<Rightarrow> string \<Rightarrow> int \<Rightarrow> u32 \<Rightarrow> (data_t, symbol) iterator) \<Rightarrow> demangler \<Rightarrow> (symbol \<Rightarrow> int) \<Rightarrow>
   (unit, prmap_object) callback" where
  "extract_object_iter lib psymbol_iter dm garbage w pmp =
     (case object_name pmp of
        None \<Rightarrow> Undefined
      | Some name \<Rightarrow>
          (let res = pgrab_file lib name;
               tr = fst w @ [Pgrab_file name res] @
                 (case res of Inl perr \<Rightarrow> [Stdout (''Unable to grab file: '' @ pgrab_error lib perr @ NL)] | Inr h \<Rightarrow> []);
               handle = (case res of Inl perr \<Rightarrow> None | Inr h \<Rightarrow> Some h)
           in case psymbol_iter handle name PR_SYMTAB GLOBAL_FUNCS (\<lambda>w sy. extract_function_iter dm (garbage sy) w sy)
                     (tr @ [Psymbol_iter handle name PR_SYMTAB GLOBAL_FUNCS],
                      \<lparr>file_pshandle = handle, function_count = 0\<rparr>) of
                Returns ((tr, data), r) \<Rightarrow> Returns ((tr, ()), 0)
              | Throws e \<Rightarrow> Throws e
              | Undefined \<Rightarrow> Undefined))"

definition extract_main ::
  "libproc_library \<Rightarrow> (nat \<Rightarrow> (unit, prmap_object) iterator) \<Rightarrow>
   (nat option \<Rightarrow> string \<Rightarrow> int \<Rightarrow> u32 \<Rightarrow> (data_t, symbol) iterator) \<Rightarrow> demangler \<Rightarrow> (symbol \<Rightarrow> int) \<Rightarrow> string list \<Rightarrow> program_end" where
  "extract_main lib pobject_iter psymbol_iter dm garbage argv =
     (if length argv = 2 then
        (let a_out = argv ! 1 in
         case pgrab_file lib a_out of
           Inl perr \<Rightarrow> Some ([Pgrab_file a_out (Inl perr), Stdout (''Unable to grab file: '' @ pgrab_error lib perr @ NL)], 2)
         | Inr exec_handle \<Rightarrow>
             (case pobject_iter exec_handle (extract_object_iter lib psymbol_iter dm garbage)
                     ([Pgrab_file a_out (Inr exec_handle), Pobject_iter exec_handle], ()) of
                Returns ((tr, u), r) \<Rightarrow> Some (tr @ [Pfree exec_handle], 0)
              | Throws e \<Rightarrow> Some e
              | Undefined \<Rightarrow> None))
      else Some ([Stdout (''Must specify an executable'' @ NL)], 1))"

subsection \<open>The search of gordon\<close>

text \<open>An object that the search for \<open>name\<close> accepts.\<close>

definition matches :: "(string \<Rightarrow> bool) \<Rightarrow> string \<Rightarrow> prmap_object \<Rightarrow> bool" where
  "matches strdup_ok name obj \<longleftrightarrow>
     (case object_name obj of None \<Rightarrow> False | Some p \<Rightarrow> strdup_ok p \<and> base_name p = name)"

text \<open>Every copy that \<^verbatim>\<open>strdup\<close> makes is freed.\<close>

fun copies :: "lib_event list \<Rightarrow> int" where
  "copies [] = 0"
| "copies (Strdup n True # tr) = copies tr + 1"
| "copies (Free_copy n # tr) = copies tr - 1"
| "copies (e # tr) = copies tr"

lemma copies_append [simp]: "copies (a @ b) = copies a + copies b"
  by (induction a rule: copies.induct) simp_all

lemma callback_result:
  "\<exists>more. copies more = 0 \<and> callback strdup_ok (tr, sp) obj =
     Returns (if matches strdup_ok (search_name sp) obj then ((tr @ more, sp\<lparr>search_addr := pr_vaddr obj\<rparr>), 1) else ((tr @ more, sp), 0))"
  by (cases "object_name obj"; cases "strdup_ok (the (object_name obj))") (auto simp: callback_def matches_def Let_def)

lemma iterate_callback:
  "\<exists>more. copies more = 0 \<and> iterate_until (callback strdup_ok) (tr, sp) objs =
     (case find (matches strdup_ok (search_name sp)) objs of
        None \<Rightarrow> Returns ((tr @ more, sp), 0) | Some obj \<Rightarrow> Returns ((tr @ more, sp\<lparr>search_addr := pr_vaddr obj\<rparr>), 1))"
proof (induction objs arbitrary: tr)
  case Nil
  show ?case by (intro exI [of _ "[]"]) simp
next
  case (Cons obj objs)
  from callback_result [of strdup_ok tr sp obj] obtain more where
    m: "copies more = 0" "callback strdup_ok (tr, sp) obj =
     Returns (if matches strdup_ok (search_name sp) obj then ((tr @ more, sp\<lparr>search_addr := pr_vaddr obj\<rparr>), 1) else ((tr @ more, sp), 0))"
    by blast
  from Cons.IH [of "tr @ more"] obtain more' where
    "copies more' = 0" "iterate_until (callback strdup_ok) (tr @ more, sp) objs =
     (case find (matches strdup_ok (search_name sp)) objs of
        None \<Rightarrow> Returns ((tr @ more @ more', sp), 0) | Some obj \<Rightarrow> Returns ((tr @ more @ more', sp\<lparr>search_addr := pr_vaddr obj\<rparr>), 1))"
    unfolding append_assoc by blast
  with m show ?case
    by (cases "matches strdup_ok (search_name sp) obj") (auto intro: exI [of _ more] exI [of _ "more @ more'"])
qed

text \<open>
  Property C38. Once \<^verbatim>\<open>gordon\<close> has grabbed the process, it reports the load address of the first object of the link map whose file
  name is the one asked for, among the objects whose name \<^verbatim>\<open>strdup\<close> could copy, and \<^verbatim>\<open>not found\<close> if there is none; in both cases
  it returns 0 and has released the process and every copy of a name. The address that is uninitialised before the walk is never printed.
\<close>

theorem gordon_reports_first_match:
  assumes "proc_arg_grab lib pid (mask_of arg_bit [PR_ARG_PIDS]) RDONLY = Inr h" "iterates (it h) objs"
  shows "\<exists>tr. gordon_main lib strdup_ok it garbage [prog, pid, name] =
      Some (tr @ [Stdout (case find (matches strdup_ok name) objs of
                            None \<Rightarrow> name @ '' not found'' @ NL
                          | Some obj \<Rightarrow> name @ '' loaded at 0x'' @ hexadecimal (unat (pr_vaddr obj)) @ NL), Pfree h], 0) \<and>
    copies tr = 0"
proof -
  let ?flags = "mask_of arg_bit [PR_ARG_PIDS]" and ?s = "\<lparr>search_name = name, search_addr = garbage\<rparr>"
  let ?tr = "[Proc_arg_grab pid ?flags RDONLY (Inr h), Pobject_iter h]"
  from iterate_callback [of strdup_ok ?tr ?s objs] obtain more where
    "copies more = 0" "iterate_until (callback strdup_ok) (?tr, ?s) objs =
     (case find (matches strdup_ok name) objs of
        None \<Rightarrow> Returns ((?tr @ more, ?s), 0) | Some obj \<Rightarrow> Returns ((?tr @ more, ?s\<lparr>search_addr := pr_vaddr obj\<rparr>), 1))"
    by auto
  with assms show ?thesis
    by (intro exI [of _ "?tr @ more"]) (simp add: gordon_main_def iterates_def Let_def split: option.split)
qed

definition sample_objects :: "prmap_object list" where
  "sample_objects = [\<lparr>object_name = None, pr_vaddr = 4096\<rparr>, \<lparr>object_name = Some ''/lib/libc.so.1'', pr_vaddr = 8192\<rparr>]"

definition sample_library :: libproc_library where
  "sample_library = \<lparr>proc_arg_grab = \<lambda>a f g. Inr 1, pgrab = \<lambda>p f. Inr 1,
     pgrab_file = \<lambda>n. if n = ''b'' then Inl 12 else Inr 2, pgrab_error = \<lambda>e. ''error''\<rparr>"

theorem gordon_reports_first_match_witness:
  "\<exists>tr. gordon_main sample_library (\<lambda>_. True) (\<lambda>h f w. iterate_until f w sample_objects) 77 [''gordon'', ''12'', ''libc.so.1''] =
     Some (tr @ [Stdout (''libc.so.1 loaded at 0x'' @ hexadecimal 8192 @ NL), Pfree 1], 0) \<and> copies tr = 0"
  using gordon_reports_first_match [of sample_library "''12''" 1 "\<lambda>h f w. iterate_until f w sample_objects" sample_objects
      "\<lambda>_. True" 77 "''gordon''" "''libc.so.1''"]
  by (simp add: iterates_def sample_library_def sample_objects_def matches_def base_name_def)

subsection \<open>The report of proctest\<close>

definition proctest_line :: "symbol \<Rightarrow> lib_event" where
  "proctest_line sy =
     Stdout (case sym_name sy of
        None \<Rightarrow> TAB @ ''NULL FUNCNAME'' @ NL
      | Some name \<Rightarrow> TAB @ pad 32 name @ '' '' @ decimal (unat (st_value sy)) @ '' '' @ decimal (unat (st_size sy)) @ NL)"

text \<open>The lines that one object contributes.\<close>

definition proctest_report :: "(string \<Rightarrow> symbol list) \<Rightarrow> nat \<Rightarrow> prmap_object \<Rightarrow> lib_event list" where
  "proctest_report symbols h obj =
     (let name = the (object_name obj) in
      [Stdout (pad_right 120 name @ '' '' @ zero_padded 16 (hexadecimal_upper (unat (pr_vaddr obj))) @ NL),
       Psymbol_iter (Some h) name PR_SYMTAB GLOBAL_FUNCS] @ map proctest_line (symbols name) @
      [Stdout (''FUNCTION COUNT: '' @ print_lld (int (length (filter (\<lambda>s. sym_name s \<noteq> None) (symbols name)))) @ NL)])"

lemma proctest_symbols:
  "iterate_until proctest_function_iter (tr, n) syms =
     Returns ((tr @ map proctest_line syms, n + int (length (filter (\<lambda>s. sym_name s \<noteq> None) syms))), 0)"
  by (induction syms arbitrary: tr n) (auto simp: proctest_function_iter_def proctest_line_def split: option.splits)

lemma proctest_object:
  assumes "\<And>name. iterates (psymbol_iter (Some h) name PR_SYMTAB GLOBAL_FUNCS) (symbols name)" "object_name obj \<noteq> None"
  shows "proctest_object_iter psymbol_iter h (tr, ()) obj = Returns ((tr @ proctest_report symbols h obj, ()), 0)"
  using assms by (auto simp: proctest_object_iter_def iterates_def proctest_symbols proctest_report_def Let_def)

text \<open>
  \<^verbatim>\<open>proctest\<close> walks every object of the process and every global function of every
  object, in order and without stopping early; the number it prints after each object is the
  number of its functions that have a name; it frees its handle and returns 0.
\<close>

theorem proctest_reports_all:
  assumes "atoi arg = Some pid" "pgrab lib pid RDONLY = Inr h" "iterates (it h) objs" "\<forall>obj \<in> set objs. object_name obj \<noteq> None"
    "\<And>name. iterates (psymbol_iter (Some h) name PR_SYMTAB GLOBAL_FUNCS) (symbols name)"
  shows "proctest_main lib it psymbol_iter [prog, arg] =
    Some ([Stdout (''You want to examine PID: '' @ decimal (unat (word_of_int pid :: u32)) @ NL), Pgrab pid RDONLY (Inr h),
           Stdout (pad_right 120 ''OBJECT'' @ '' '' @ pad 16 ''BASE ADDRESS'' @ NL), Pobject_iter h] @
          concat (map (proctest_report symbols h) objs) @ [Pfree h], 0)"
  using assms(1-3) iterate_Returns [of objs "proctest_object_iter psymbol_iter h" "()" "proctest_report symbols h",
      OF proctest_object [of psymbol_iter h symbols, OF assms(5)]] assms(4)
  by (simp add: proctest_main_def iterates_def Let_def)

theorem proctest_reports_all_witness:
  "proctest_main sample_library (\<lambda>h f w. iterate_until f w [\<lparr>object_name = Some ''a.out'', pr_vaddr = 4096\<rparr>])
     (\<lambda>h n t m f w. iterate_until f w [\<lparr>sym_name = Some ''main'', st_value = 16, st_size = 4\<rparr>]) [''proctest'', ''7''] \<noteq> None"
  using proctest_reports_all [of "''7''" 7 sample_library 1 "\<lambda>h f w. iterate_until f w [\<lparr>object_name = Some ''a.out'', pr_vaddr = 4096\<rparr>]"
      "[\<lparr>object_name = Some ''a.out'', pr_vaddr = 4096\<rparr>]"
      "\<lambda>h n t m f w. iterate_until f w [\<lparr>sym_name = Some ''main'', st_value = 16, st_size = 4\<rparr>]"
      "\<lambda>_. [\<lparr>sym_name = Some ''main'', st_value = 16, st_size = 4\<rparr>]" "''proctest''"]
  by (simp add: iterates_def sample_library_def atoi_def strtoll_def clamp_def LLONG_MIN_def LLONG_MAX_def is_space_def digit_value_def)

subsection \<open>Handles\<close>

fun grabbed :: "lib_event \<Rightarrow> nat multiset" where
  "grabbed (Proc_arg_grab a f g (Inr h)) = {#h#}"
| "grabbed (Pgrab p f (Inr h)) = {#h#}"
| "grabbed (Pgrab_file n (Inr h)) = {#h#}"
| "grabbed e = {#}"

fun freed :: "lib_event \<Rightarrow> nat multiset" where
  "freed (Pfree h) = {#h#}"
| "freed e = {#}"

fun null_walk :: "lib_event \<Rightarrow> string list" where
  "null_walk (Psymbol_iter None name t m) = [name]"
| "null_walk e = []"

text \<open>The handles that a run leaves open, and the objects for which it passed a null handle on.\<close>

definition left_open :: "lib_event list \<Rightarrow> nat multiset" where
  "left_open tr = (\<Sum>e \<leftarrow> tr. grabbed e) - (\<Sum>e \<leftarrow> tr. freed e)"

definition null_walks :: "lib_event list \<Rightarrow> string list" where
  "null_walks tr = concat (map null_walk tr)"

definition grab_lines :: "symbol \<Rightarrow> lib_event list" where
  "grab_lines sy =
     (case sym_name sy of
        None \<Rightarrow> []
      | Some name \<Rightarrow> [Stdout (pad_right 32 name @ '' '' @ decimal (unat (st_value sy)) @ '' '' @ decimal (unat (st_size sy)) @ NL)])"

definition file_handle :: "libproc_library \<Rightarrow> string \<Rightarrow> nat option" where
  "file_handle lib name = (case pgrab_file lib name of Inl perr \<Rightarrow> None | Inr h \<Rightarrow> Some h)"

definition grab_report :: "libproc_library \<Rightarrow> (nat option \<Rightarrow> string \<Rightarrow> symbol list) \<Rightarrow> prmap_object \<Rightarrow> lib_event list" where
  "grab_report lib symbols obj =
     (let name = the (object_name obj) in
      [Stdout (''FILENAME: '' @ name @ NL), Pgrab_file name (pgrab_file lib name)] @
      (case pgrab_file lib name of Inl perr \<Rightarrow> [Stdout (''Unable to grab file: '' @ pgrab_error lib perr @ NL)] | Inr h \<Rightarrow> []) @
      [Psymbol_iter (file_handle lib name) name PR_SYMTAB GLOBAL_FUNCS] @ concat (map grab_lines (symbols (file_handle lib name) name)))"

lemma grab_symbols:
  "\<exists>d'. iterate_until grab_function_iter (tr, d) syms = Returns ((tr @ concat (map grab_lines syms), d'), 0)"
proof (induction syms arbitrary: tr d)
  case (Cons sy syms)
  obtain d' where "grab_function_iter (tr, d) sy = Returns ((tr @ grab_lines sy, d'), 0)"
    by (cases "sym_name sy") (auto simp: grab_function_iter_def grab_lines_def)
  with Cons.IH [of "tr @ grab_lines sy" d'] show ?case by auto
qed simp

lemma grab_object:
  assumes "\<And>h name. iterates (psymbol_iter h name PR_SYMTAB GLOBAL_FUNCS) (symbols h name)" "object_name obj \<noteq> None"
  shows "grab_object_iter lib psymbol_iter (tr, ()) obj = Returns ((tr @ grab_report lib symbols obj, ()), 0)"
proof -
  from assms(2) obtain name where n: "object_name obj = Some name" by auto
  let ?h = "file_handle lib name"
  let ?tr = "tr @ [Stdout (''FILENAME: '' @ name @ NL), Pgrab_file name (pgrab_file lib name)] @
      (case pgrab_file lib name of Inl perr \<Rightarrow> [Stdout (''Unable to grab file: '' @ pgrab_error lib perr @ NL)] | Inr h \<Rightarrow> []) @
      [Psymbol_iter ?h name PR_SYMTAB GLOBAL_FUNCS]"
  from grab_symbols [of ?tr "\<lparr>file_pshandle = ?h, function_count = 0\<rparr>" "symbols ?h name"] n assms(1) [of ?h name]
  show ?thesis by (auto simp: grab_object_iter_def iterates_def grab_report_def file_handle_def Let_def split: sum.splits)
qed

lemma grab_report_counts:
  "(\<Sum>e \<leftarrow> grab_report lib symbols obj. grabbed e) = mset (case file_handle lib (the (object_name obj)) of None \<Rightarrow> [] | Some h \<Rightarrow> [h])"
  "(\<Sum>e \<leftarrow> grab_report lib symbols obj. freed e) = {#}"
  "null_walks (grab_report lib symbols obj) = (if file_handle lib (the (object_name obj)) = None then [the (object_name obj)] else [])"
proof -
  have lines: "(\<Sum>e \<leftarrow> concat (map grab_lines syms). grabbed e) = {#} \<and> (\<Sum>e \<leftarrow> concat (map grab_lines syms). freed e) = {#} \<and>
      concat (map null_walk (concat (map grab_lines syms))) = []" for syms
    by (induction syms) (auto simp: grab_lines_def split: option.split)
  show "(\<Sum>e \<leftarrow> grab_report lib symbols obj. grabbed e) = mset (case file_handle lib (the (object_name obj)) of None \<Rightarrow> [] | Some h \<Rightarrow> [h])"
    "(\<Sum>e \<leftarrow> grab_report lib symbols obj. freed e) = {#}"
    "null_walks (grab_report lib symbols obj) = (if file_handle lib (the (object_name obj)) = None then [the (object_name obj)] else [])"
    using lines by (auto simp: grab_report_def null_walks_def file_handle_def Let_def split: sum.split)
qed

text \<open>
  The walk of \<^verbatim>\<open>grab_file_test\<close> over the objects of a process visits all of them, prints their named symbols and returns 0;
  each file that can be grabbed leaves one handle open, since no call releases it; and for each
  file that cannot be grabbed the symbol iterator is called with a null handle, because the
  failure is only reported.
\<close>

theorem grab_walk_handles:
  assumes "atoi arg = Some pid" "pgrab lib pid RDONLY = Inr h" "iterates (it h) objs" "\<forall>obj \<in> set objs. object_name obj \<noteq> None"
    "\<And>h name. iterates (psymbol_iter h name PR_SYMTAB GLOBAL_FUNCS) (symbols h name)"
  shows "let names = map (\<lambda>obj. the (object_name obj)) objs;
      tr = [Pgrab pid RDONLY (Inr h), Pobject_iter h] @ concat (map (grab_report lib symbols) objs) @ [Pfree h] in
    grab_main lib it psymbol_iter [prog, arg] = Some (tr, 0) \<and>
    left_open tr = mset (List.map_filter (file_handle lib) names) \<and>
    null_walks tr = filter (\<lambda>n. file_handle lib n = None) names"
proof -
  let ?reports = "concat (map (grab_report lib symbols) objs)"
  have main: "grab_main lib it psymbol_iter [prog, arg] =
      Some ([Pgrab pid RDONLY (Inr h), Pobject_iter h] @ ?reports @ [Pfree h], 0)"
    using assms(1-3) iterate_Returns [of objs "grab_object_iter lib psymbol_iter" "()" "grab_report lib symbols",
      OF grab_object [of psymbol_iter symbols, OF assms(5)]] assms(4)
    by (simp add: grab_main_def iterates_def)
  have "(\<Sum>e \<leftarrow> ?reports. grabbed e) = mset (List.map_filter (file_handle lib) (map (\<lambda>obj. the (object_name obj)) objs)) \<and>
      (\<Sum>e \<leftarrow> ?reports. freed e) = {#} \<and>
      null_walks ?reports = filter (\<lambda>n. file_handle lib n = None) (map (\<lambda>obj. the (object_name obj)) objs)"
  proof (induction objs)
    case (Cons obj objs)
    then show ?case
      using grab_report_counts [of lib symbols obj]
      by (cases "file_handle lib (the (object_name obj))") (simp_all add: map_filter_simps null_walks_def)
  qed (simp add: map_filter_simps null_walks_def)
  then show ?thesis unfolding Let_def main left_open_def by (simp add: null_walks_def)
qed

definition two_objects :: "prmap_object list" where
  "two_objects = [\<lparr>object_name = Some ''a'', pr_vaddr = 0\<rparr>, \<lparr>object_name = Some ''b'', pr_vaddr = 0\<rparr>]"

lemma atoi_7: "atoi ''7'' = Some 7"
  by (simp add: atoi_def strtoll_def clamp_def LLONG_MIN_def LLONG_MAX_def is_space_def digit_value_def)

theorem grab_walk_handles_witness:
  "\<exists>tr. grab_main sample_library (\<lambda>h f w. iterate_until f w two_objects) (\<lambda>h n t m f w. iterate_until f w []) [''grab'', ''7''] =
     Some (tr, 0) \<and> left_open tr = {#2#} \<and> null_walks tr = [''b'']"
  using grab_walk_handles [OF atoi_7, of sample_library 1 "\<lambda>h f w. iterate_until f w two_objects" two_objects
      "\<lambda>h n t m f w. iterate_until f w []" "\<lambda>h n. []" "''grab''"]
  by (simp add: iterates_def sample_library_def two_objects_def file_handle_def map_filter_simps Let_def)

subsection \<open>The end of extract\_symtab\_from\_exec\<close>

text \<open>
  In \<^verbatim>\<open>extract_symtab_from_exec\<close> the result of the demangler has no influence on
  what happens with a named symbol: two demanglers that leave the same text in the buffer but
  return different results lead to the same outcome, and whether the program prints the symbol
  or exits with 4, 5 or 6 depends only on an uninitialised variable.
\<close>

theorem demangle_result_ignored:
  assumes "sym_name sy = Some name" "fst (cplus_demangle dm name) = fst (f name)"
  shows "extract_function_iter dm garbage w sy = extract_function_iter (dm\<lparr>cplus_demangle := f\<rparr>) garbage w sy \<and>
     (garbage \<noteq> 0 \<longrightarrow> (\<exists>tr. \<exists>e \<in> {4, 5, 6}. extract_function_iter dm garbage w sy = Throws (tr, e)))"
  using assms by (auto simp: extract_function_iter_def Let_def split: prod.split)

definition sample_demangler :: demangler where
  "sample_demangler = \<lparr>cplus_demangle = \<lambda>n. (n, 0), DEMANGLE_ENAME = -1, DEMANGLE_ESPACE = -2\<rparr>"

theorem demangle_result_ignored_witness:
  "extract_function_iter sample_demangler 7 ([], \<lparr>file_pshandle = None, function_count = 0\<rparr>)
     \<lparr>sym_name = Some ''f'', st_value = 0, st_size = 0\<rparr> =
   extract_function_iter (sample_demangler\<lparr>cplus_demangle := \<lambda>n. (n, -1)\<rparr>) 7 ([], \<lparr>file_pshandle = None, function_count = 0\<rparr>)
     \<lparr>sym_name = Some ''f'', st_value = 0, st_size = 0\<rparr>"
  using demangle_result_ignored [of "\<lparr>sym_name = Some ''f'', st_value = 0, st_size = 0\<rparr>" "''f''" sample_demangler
      "\<lambda>n. (n, -1)" 7 "([], \<lparr>file_pshandle = None, function_count = 0\<rparr>)"] by (simp add: sample_demangler_def)

text \<open>A symbol for which the uninitialised variable happens to hold 0, or which has no name.\<close>

definition survives :: "(symbol \<Rightarrow> int) \<Rightarrow> symbol \<Rightarrow> bool" where
  "survives garbage sy \<longleftrightarrow> sym_name sy = None \<or> garbage sy = 0"

text \<open>A walk that goes on when \<open>ok\<close> holds and otherwise ends the process with one of the three statuses; it frees
  nothing.\<close>

definition frees_nothing :: "lib_event list \<Rightarrow> bool" where
  "frees_nothing tr \<longleftrightarrow> (\<forall>h. Pfree h \<notin> set tr)"

definition exits_unless :: "bool \<Rightarrow> 'd walk_end \<Rightarrow> bool" where
  "exits_unless ok res \<longleftrightarrow>
     (if ok then \<exists>tr d. res = Returns ((tr, d), 0) \<and> frees_nothing tr
      else \<exists>tr. \<exists>e \<in> {4, 5, 6}. res = Throws (tr, e) \<and> frees_nothing tr)"

lemma frees_nothing_append [simp]: "frees_nothing (a @ b) \<longleftrightarrow> frees_nothing a \<and> frees_nothing b"
  by (auto simp: frees_nothing_def)

lemma iterate_exits_unless:
  assumes "\<And>tr d x. x \<in> set xs \<Longrightarrow> frees_nothing tr \<Longrightarrow> exits_unless (ok x) (f (tr, d) x)" "frees_nothing tr"
  shows "exits_unless (list_all ok xs) (iterate_until f (tr, d) xs)"
  using assms
proof (induction xs arbitrary: tr d)
  case (Cons x xs)
  have x: "exits_unless (ok x) (f (tr, d) x)" using Cons.prems by simp
  show ?case
  proof (cases "ok x")
    case True
    with x obtain tr' d' where "f (tr, d) x = Returns ((tr', d'), 0)" "frees_nothing tr'" by (auto simp: exits_unless_def)
    with True Cons.IH [of tr' d'] Cons.prems(1) show ?thesis by simp
  next
    case False
    with x show ?thesis by (auto simp: exits_unless_def)
  qed
qed (simp add: exits_unless_def)

lemma extract_function_exits:
  "frees_nothing tr \<Longrightarrow> exits_unless (survives g sy) (extract_function_iter dm (g sy) (tr, d) sy)"
  by (auto simp: exits_unless_def survives_def extract_function_iter_def Let_def split: option.split)
    (auto simp: frees_nothing_def)

text \<open>An object whose file can be grabbed. What \<^verbatim>\<open>Psymbol_iter\<close> does is known for a handle that is not null.\<close>

lemma extract_object_exits:
  assumes "\<And>h name. iterates (psymbol_iter (Some h) name PR_SYMTAB GLOBAL_FUNCS) (symbols h name)"
    "object_name obj = Some name" "pgrab_file lib name = Inr h" "frees_nothing tr"
  shows "exits_unless (list_all (survives g) (symbols h name)) (extract_object_iter lib psymbol_iter dm g (tr, ()) obj)"
proof -
  let ?f = "\<lambda>w sy. extract_function_iter dm (g sy) w sy"
  let ?tr = "tr @ [Pgrab_file name (Inr h), Psymbol_iter (Some h) name PR_SYMTAB GLOBAL_FUNCS]"
  have "frees_nothing ?tr" using assms(4) by (simp add: frees_nothing_def)
  then have walk: "exits_unless (list_all (survives g) (symbols h name))
      (psymbol_iter (Some h) name PR_SYMTAB GLOBAL_FUNCS ?f (?tr, \<lparr>file_pshandle = Some h, function_count = 0\<rparr>))"
    using iterate_exits_unless [of "symbols h name" "survives g" ?f] extract_function_exits assms(1)
    by (simp add: iterates_def)
  have "extract_object_iter lib psymbol_iter dm g (tr, ()) obj =
      (case psymbol_iter (Some h) name PR_SYMTAB GLOBAL_FUNCS ?f (?tr, \<lparr>file_pshandle = Some h, function_count = 0\<rparr>) of
         Returns ((tr, data), r) \<Rightarrow> Returns ((tr, ()), 0) | Throws e \<Rightarrow> Throws e | Undefined \<Rightarrow> Undefined)"
    using assms(2,3) by (simp add: extract_object_iter_def Let_def)
  with walk show ?thesis by (auto simp: exits_unless_def split: if_splits)
qed

text \<open>An object with a name whose file cannot be grabbed goes to \<^verbatim>\<open>Psymbol_iter\<close> with the null handle.\<close>

lemma extract_object_null:
  assumes "object_name obj = Some name" "pgrab_file lib name = Inl e"
    "\<And>f w. psymbol_iter None name PR_SYMTAB GLOBAL_FUNCS f w = Undefined"
  shows "extract_object_iter lib psymbol_iter dm g w obj = Undefined"
  using assms by (simp add: extract_object_iter_def Let_def)

lemma iterate_until_append:
  "iterate_until f w (xs @ ys) =
     (case iterate_until f w xs of
        Returns (w', r) \<Rightarrow> if r \<noteq> 0 then Returns (w', r) else iterate_until f w' ys
      | Throws e \<Rightarrow> Throws e
      | Undefined \<Rightarrow> Undefined)"
  by (induction xs arbitrary: w) (auto split: outcome.split)

text \<open>The objects whose files can be grabbed, with their handles and names.\<close>

definition grabbed_object :: "libproc_library \<Rightarrow> prmap_object \<Rightarrow> nat \<Rightarrow> string \<Rightarrow> bool" where
  "grabbed_object lib obj h name \<longleftrightarrow> object_name obj = Some name \<and> pgrab_file lib name = Inr h"

lemma extract_prefix_exits:
  assumes "\<And>h name. iterates (psymbol_iter (Some h) name PR_SYMTAB GLOBAL_FUNCS) (symbols h name)"
    "\<forall>obj \<in> set pre. \<exists>h name. grabbed_object lib obj h name" "frees_nothing tr"
  shows "exits_unless (\<forall>obj \<in> set pre. \<forall>h name. grabbed_object lib obj h name \<longrightarrow> list_all (survives g) (symbols h name))
    (iterate_until (extract_object_iter lib psymbol_iter dm g) (tr, ()) pre)"
proof -
  let ?ok = "\<lambda>obj. \<forall>h name. grabbed_object lib obj h name \<longrightarrow> list_all (survives g) (symbols h name)"
  have "exits_unless (?ok obj) (extract_object_iter lib psymbol_iter dm g (tr, d) obj)"
    if "obj \<in> set pre" "frees_nothing tr" for tr and d :: unit and obj
  proof -
    from assms(2) that(1) obtain h name where o: "object_name obj = Some name" "pgrab_file lib name = Inr h"
      by (auto simp: grabbed_object_def)
    then have "?ok obj = list_all (survives g) (symbols h name)" by (auto simp: grabbed_object_def)
    with extract_object_exits [of psymbol_iter symbols, OF assms(1) o that(2)] show ?thesis by simp
  qed
  from iterate_exits_unless [of pre ?ok "extract_object_iter lib psymbol_iter dm g" tr "()", OF this assms(3)] show ?thesis by (simp add: list_all_iff)
qed

text \<open>Some named symbol of these objects meets a variable that is not 0.\<close>

definition garbage_met :: "libproc_library \<Rightarrow> (nat \<Rightarrow> string \<Rightarrow> symbol list) \<Rightarrow> (symbol \<Rightarrow> int) \<Rightarrow> prmap_object list \<Rightarrow> bool" where
  "garbage_met lib symbols garbage objs \<longleftrightarrow>
     (\<exists>obj \<in> set objs. \<exists>h name. grabbed_object lib obj h name \<and> (\<exists>sy \<in> set (symbols h name). sym_name sy \<noteq> None \<and> garbage sy \<noteq> 0))"

lemma extract_prefix_ends:
  assumes "\<And>h name. iterates (psymbol_iter (Some h) name PR_SYMTAB GLOBAL_FUNCS) (symbols h name)"
    "\<forall>obj \<in> set pre. \<exists>h name. grabbed_object lib obj h name" "frees_nothing tr"
  shows "exits_unless (\<not> garbage_met lib symbols g pre) (iterate_until (extract_object_iter lib psymbol_iter dm g) (tr, ()) pre)"
proof -
  have "(\<not> garbage_met lib symbols g pre) =
      (\<forall>obj \<in> set pre. \<forall>h name. grabbed_object lib obj h name \<longrightarrow> list_all (survives g) (symbols h name))"
    by (auto simp: garbage_met_def list_all_iff survives_def)
  with extract_prefix_exits [of psymbol_iter symbols, OF assms] show ?thesis by simp
qed

lemma extract_walk_ends:
  assumes "\<And>h name. iterates (psymbol_iter (Some h) name PR_SYMTAB GLOBAL_FUNCS) (symbols h name)"
    "\<forall>obj \<in> set pre. \<exists>h name. grabbed_object lib obj h name" "frees_nothing tr"
    "rest = [] \<or> (\<exists>name e. object_name (hd rest) = Some name \<and> pgrab_file lib name = Inl e)"
  shows "if garbage_met lib symbols g pre \<or> rest = []
    then exits_unless (\<not> garbage_met lib symbols g pre) (iterate_until (extract_object_iter lib psymbol_iter dm g) (tr, ()) (pre @ rest))
    else (\<forall>f w. psymbol_iter None (the (object_name (hd rest))) PR_SYMTAB GLOBAL_FUNCS f w = Undefined) \<longrightarrow>
      iterate_until (extract_object_iter lib psymbol_iter dm g) (tr, ()) (pre @ rest) = Undefined"
proof -
  let ?f = "extract_object_iter lib psymbol_iter dm g"
  note prefix = extract_prefix_ends [of psymbol_iter symbols, OF assms(1-3), of g dm]
  show ?thesis
  proof (cases "garbage_met lib symbols g pre \<or> rest = []")
    case True
    with prefix show ?thesis by (cases "garbage_met lib symbols g pre") (auto simp: exits_unless_def iterate_until_append)
  next
    case False
    with prefix obtain tr' where "iterate_until ?f (tr, ()) pre = Returns ((tr', ()), 0)" by (auto simp: exits_unless_def)
    moreover from False assms(4) obtain obj objs name e where o: "rest = obj # objs" "object_name obj = Some name" "pgrab_file lib name = Inl e"
      by (cases rest) auto
    have "?f w obj = Undefined" if "\<forall>f w. psymbol_iter None name PR_SYMTAB GLOBAL_FUNCS f w = Undefined" for w
      using extract_object_null [of obj name lib e psymbol_iter, OF o(2,3)] that by simp
    ultimately show ?thesis using False o by (simp add: iterate_until_append)
  qed
qed

text \<open>
  Property C37. How \<^verbatim>\<open>extract_symtab_from_exec\<close> ends. Without exactly one argument it exits with 1, and when the executable cannot be grabbed with
  2. Otherwise let \<open>pre\<close> be the objects up to the first one whose file cannot be grabbed, and \<open>rest\<close> the objects from there on. If the variable
  that the program never assigns is not 0 in the call for some named symbol of the objects \<open>pre\<close>, the process ends inside
  the walk with status 4, 5 or 6, whatever the demangler did, and no handle has been freed. If it is 0 in all these calls and all files could be
  grabbed, the walk gets to its end, the handle of the executable is freed and the program returns 0. If it is 0 in all these calls and a file could
  not be grabbed, the program passes the null handle to \<^verbatim>\<open>Psymbol_iter\<close>: when that is undefined, so is the program.
\<close>

theorem extract_ends_by_garbage:
  assumes "pgrab_file lib file = Inr h" "iterates (it h) (pre @ rest)"
    and "\<forall>obj \<in> set pre. \<exists>h name. grabbed_object lib obj h name"
    and "rest = [] \<or> (\<exists>name e. object_name (hd rest) = Some name \<and> pgrab_file lib name = Inl e)"
    and "\<And>h name. iterates (psymbol_iter (Some h) name PR_SYMTAB GLOBAL_FUNCS) (symbols h name)"
  shows "(length argv \<noteq> 2 \<longrightarrow> extract_main lib it psymbol_iter dm garbage argv = Some ([Stdout (''Must specify an executable'' @ NL)], 1)) \<and>
    (pgrab_file lib a_out = Inl e \<longrightarrow>
       (\<exists>tr. extract_main lib it psymbol_iter dm garbage [prog, a_out] = Some (tr, 2) \<and> frees_nothing tr)) \<and>
    (if garbage_met lib symbols garbage pre
     then \<exists>tr. \<exists>e \<in> {4, 5, 6}. extract_main lib it psymbol_iter dm garbage [prog, file] = Some (tr, e) \<and> frees_nothing tr
     else if rest = []
     then \<exists>tr. extract_main lib it psymbol_iter dm garbage [prog, file] = Some (tr @ [Pfree h], 0) \<and> frees_nothing tr
     else (\<forall>f w. psymbol_iter None (the (object_name (hd rest))) PR_SYMTAB GLOBAL_FUNCS f w = Undefined) \<longrightarrow>
       extract_main lib it psymbol_iter dm garbage [prog, file] = None)"
proof (intro conjI impI)
  show "extract_main lib it psymbol_iter dm garbage argv = Some ([Stdout (''Must specify an executable'' @ NL)], 1)" if "length argv \<noteq> 2"
    using that by (simp add: extract_main_def)
  show "\<exists>tr. extract_main lib it psymbol_iter dm garbage [prog, a_out] = Some (tr, 2) \<and> frees_nothing tr" if "pgrab_file lib a_out = Inl e"
    using that by (simp add: extract_main_def frees_nothing_def)
  let ?f = "extract_object_iter lib psymbol_iter dm garbage" and ?tr = "[Pgrab_file file (Inr h), Pobject_iter h]"
  have main: "extract_main lib it psymbol_iter dm garbage [prog, file] =
      (case iterate_until ?f (?tr, ()) (pre @ rest) of
         Returns ((tr, u), r) \<Rightarrow> Some (tr @ [Pfree h], 0) | Throws e \<Rightarrow> Some e | Undefined \<Rightarrow> None)"
    using assms(1,2) by (simp add: extract_main_def iterates_def)
  have "frees_nothing ?tr" by (simp add: frees_nothing_def)
  from extract_walk_ends [of psymbol_iter symbols, OF assms(5,3) this assms(4), of garbage dm]
  show "if garbage_met lib symbols garbage pre
     then \<exists>tr. \<exists>e \<in> {4, 5, 6}. extract_main lib it psymbol_iter dm garbage [prog, file] = Some (tr, e) \<and> frees_nothing tr
     else if rest = []
     then \<exists>tr. extract_main lib it psymbol_iter dm garbage [prog, file] = Some (tr @ [Pfree h], 0) \<and> frees_nothing tr
     else (\<forall>f w. psymbol_iter None (the (object_name (hd rest))) PR_SYMTAB GLOBAL_FUNCS f w = Undefined) \<longrightarrow>
       extract_main lib it psymbol_iter dm garbage [prog, file] = None"
    unfolding main exits_unless_def by (auto split: if_splits)
qed

text \<open>The file of the first object can be grabbed, that of the second cannot.\<close>

theorem extract_ends_by_garbage_witness:
  "(\<exists>tr. \<exists>e \<in> {4, 5, 6}. extract_main sample_library (\<lambda>h f w. iterate_until f w two_objects)
     (\<lambda>h n t m f w. case h of None \<Rightarrow> Undefined | Some _ \<Rightarrow> iterate_until f w [\<lparr>sym_name = Some ''main'', st_value = 16, st_size = 4\<rparr>])
     sample_demangler (\<lambda>_. 77) [''extract'', ''a''] = Some (tr, e) \<and> frees_nothing tr) \<and>
   extract_main sample_library (\<lambda>h f w. iterate_until f w two_objects)
     (\<lambda>h n t m f w. case h of None \<Rightarrow> Undefined | Some _ \<Rightarrow> iterate_until f w [\<lparr>sym_name = Some ''main'', st_value = 16, st_size = 4\<rparr>])
     sample_demangler (\<lambda>_. 0) [''extract'', ''a''] = None"
proof -
  let ?main = "\<lparr>sym_name = Some ''main'', st_value = 16, st_size = 4\<rparr>"
  let ?it = "\<lambda>h f w. iterate_until f w two_objects"
  let ?ps = "\<lambda>h n t m f w. case h of None \<Rightarrow> Undefined | Some _ \<Rightarrow> iterate_until f w [?main]"
  let ?pre = "[\<lparr>object_name = Some ''a'', pr_vaddr = 0\<rparr>]" and ?rest = "[\<lparr>object_name = Some ''b'', pr_vaddr = 0\<rparr>]"
  have grab: "pgrab_file sample_library ''a'' = Inr 2" "pgrab_file sample_library ''b'' = Inl 12" by (simp_all add: sample_library_def)
  have its: "iterates (?it 2) (?pre @ ?rest)" "iterates (?ps (Some h) name PR_SYMTAB GLOBAL_FUNCS) [?main]" for h name
    by (simp_all add: iterates_def two_objects_def)
  have pre: "\<forall>obj \<in> set ?pre. \<exists>h name. grabbed_object sample_library obj h name" using grab(1) by (simp add: grabbed_object_def)
  have rest: "?rest = [] \<or> (\<exists>name e. object_name (hd ?rest) = Some name \<and> pgrab_file sample_library name = Inl e)" using grab(2) by simp
  note ends = extract_ends_by_garbage [of sample_library "''a''" 2 ?it ?pre ?rest ?ps "\<lambda>h n. [?main]",
      OF grab(1) its(1) pre rest its(2), of "[]" sample_demangler _ "''b''" 12 "''extract''"]
  from ends [of "\<lambda>_. 77"] ends [of "\<lambda>_. 0"] grab(1) show ?thesis by (simp add: grabbed_object_def garbage_met_def)
qed

end
