(* ===== verification/LibElf.thy ===== *)
theory LibElf
  imports Decimal
begin

text \<open>
  \<^verbatim>\<open>libproc/libelftest.c\<close>: the classification of a file with libelf, as the sequence of the calls and of the
  printed lines, given what the calls return.
\<close>

subsection \<open>Definitions\<close>

datatype elf_event =
    Elf_out string
  | Elf_err string
  | Elf_open string int
  | Elf_version
  | Elf_begin int bool
  | Elf_getehdr bool
  | Elf_getscn bool
  | Elf_getshdr bool
  | Elf_ehdr bool
  | Elf_close int
  | Elf_end

text \<open>What the calls return: the descriptor of \<^verbatim>\<open>open\<close>, whether \<^verbatim>\<open>elf_begin\<close> succeeds, the kind and the class, and which of the headers
  can be read.\<close>

record elf_view =
  elf_fd :: int
  elf_opens :: bool
  is_elf :: bool
  class64 :: bool
  ehdr64 :: bool
  ehdr32 :: bool
  section0 :: bool
  shdr64 :: bool

text \<open>The events of a function and its value; \<open>Undefined\<close> for a function that ends without a \<^verbatim>\<open>return\<close>, whose value the caller
  uses.\<close>

definition elfheader64bit :: "elf_view \<Rightarrow> string \<Rightarrow> elf_event list \<times> (unit, int) outcome" where
  "elfheader64bit v file =
     (if \<not> ehdr64 v
      then ([Elf_getehdr False, Elf_out (''Failed to extract EHDR from '' @ file @ NL)], Returns 0)
      else if section0 v
      then (if \<not> shdr64 v
            then ([Elf_getehdr True, Elf_getscn True, Elf_getshdr False, Elf_err (''Unable to extract ELF section headers'' @ NL)], Returns 0)
            else ([Elf_getehdr True, Elf_getscn True, Elf_getshdr True, Elf_ehdr True], Undefined))
      else ([Elf_getehdr True, Elf_getscn False, Elf_ehdr False], Undefined))"

definition elfheader32bit :: "elf_view \<Rightarrow> string \<Rightarrow> elf_event list \<times> (unit, int) outcome" where
  "elfheader32bit v file =
     (if \<not> ehdr32 v
      then ([Elf_getehdr False, Elf_out (''Failed to extract EHDR from '' @ file @ NL)], Returns 0)
      else ([Elf_getehdr True], Undefined))"

definition determine_bitness :: "elf_view \<Rightarrow> string \<Rightarrow> elf_event list \<times> (unit, int) outcome" where
  "determine_bitness v file =
     (if class64 v
      then (case elfheader64bit v file of (tr, r) \<Rightarrow> (Elf_out (''ELFCLASS64'' @ NL) # tr, r))
      else (case elfheader32bit v file of (tr, r) \<Rightarrow> (Elf_out (''ELFCLASS32'' @ NL) # tr, r)))"

text \<open>The sequence and the exit status; \<open>None\<close> when the behaviour is undefined. The program goes on after a failing \<^verbatim>\<open>open\<close>, and
  its format for that failure has no place for the text of the error. Without an argument \<^verbatim>\<open>argv[1]\<close> is null and is printed.\<close>

definition libelftest_main :: "elf_view \<Rightarrow> string list \<Rightarrow> (elf_event list \<times> int) option" where
  "libelftest_main v argv =
     (if length argv < 2 then None
      else
        (let file = argv ! 1; fd = elf_fd v;
             tr = [Elf_out (''Examining ELF file: '' @ file @ NL), Elf_open file fd] @
               (if fd = -1 then [Elf_err (''Unable to open '' @ file @ NL)] else []) @
               [Elf_version, Elf_begin fd (elf_opens v)] in
         if \<not> elf_opens v
         then Some (tr @ [Elf_out (''Failed to open ELF file '' @ file @ NL), Elf_close fd], 0)
         else if is_elf v
         then (case determine_bitness v file of
                 (bits, Returns r) \<Rightarrow> Some (tr @ bits @ [Elf_out (''This is an ELF file'' @ NL), Elf_close fd, Elf_end], 0)
               | (bits, _) \<Rightarrow> None)
         else Some (tr @ [Elf_err (file @ '': DOES NOT LOOK LIKE AN ELF FILE'' @ NL), Elf_close fd, Elf_end], 0)))"

subsection \<open>Properties\<close>

text \<open>An ELF file whose header, and whose first section header where it is asked for, can be read.\<close>

definition readable_elf :: "elf_view \<Rightarrow> bool" where
  "readable_elf v \<longleftrightarrow> elf_opens v \<and> is_elf v \<and>
     (if class64 v then ehdr64 v \<and> (section0 v \<longrightarrow> shdr64 v) else ehdr32 v)"

definition sample_elf :: elf_view where
  "sample_elf = \<lparr>elf_fd = 3, elf_opens = True, is_elf = True, class64 = True, ehdr64 = True, ehdr32 = False,
     section0 = True, shdr64 = False\<rparr>"

text \<open>
  \<^verbatim>\<open>libelftest\<close> has a defined behaviour exactly for the files that are not readable ELF files: for those it
  returns 0, has closed the descriptor exactly once, and has ended the ELF descriptor exactly when there was one. For a readable
  ELF file, the case it is made for, it uses the value of a function that returns none.
\<close>

theorem libelftest_defined_iff:
  "(libelftest_main v [prog, file] = None \<longleftrightarrow> readable_elf v) \<and>
   (\<forall>tr st. libelftest_main v [prog, file] = Some (tr, st) \<longrightarrow>
      st = 0 \<and> length (filter (\<lambda>e. e = Elf_close (elf_fd v)) tr) = 1 \<and>
      length (filter (\<lambda>e. e = Elf_end) tr) = (if elf_opens v then 1 else 0))"
  by (auto simp: libelftest_main_def readable_elf_def determine_bitness_def elfheader64bit_def elfheader32bit_def Let_def
      split: if_splits)

theorem libelftest_defined_iff_witness:
  "\<exists>tr. libelftest_main sample_elf [''libelftest'', ''x''] = Some (tr, 0) \<and> Elf_end \<in> set tr"
proof -
  have "\<not> readable_elf sample_elf" by (simp add: readable_elf_def sample_elf_def)
  with libelftest_defined_iff [of sample_elf "''libelftest''" "''x''"] obtain tr where
    "libelftest_main sample_elf [''libelftest'', ''x''] = Some (tr, 0)" "length (filter (\<lambda>e. e = Elf_end) tr) = 1"
    by (auto simp: sample_elf_def)
  moreover then have "filter (\<lambda>e. e = Elf_end) tr \<noteq> []" by auto
  ultimately show ?thesis by (auto simp: filter_empty_conv)
qed

end
