(* ===== verification/SmallTools.thy ===== *)
theory SmallTools
  imports Decimal "HOL-Library.Sublist"
begin

text \<open>
  The one-file tools: \<^verbatim>\<open>memory/heap_shm_allocator.c\<close>, \<^verbatim>\<open>resource_controls/memory_alloc.c\<close>,
  \<^verbatim>\<open>posix_mq/mq_create1.c\<close> and \<^verbatim>\<open>mq_name.c\<close>, \<^verbatim>\<open>nscd_non_existent_host/test1.c\<close>. A tool is the sequence of its calls
  and printed lines with its exit status; the results of the system calls are parameters.
\<close>

subsection \<open>Calls\<close>

datatype mq_flag = MQ_RDWR | MQ_CREAT | MQ_EXCL

text \<open>\<open>Say_error\<close> is \<^verbatim>\<open>perror\<close>; \<open>Malloc\<close> has the index in \<^verbatim>\<open>pp\<close>, the size and whether it succeeds, \<open>Memset\<close> the index, the byte and the size.\<close>

datatype small_event =
    Say string
  | Say_error string
  | Stat string
  | Fopen string
  | Getline string
  | Malloc nat nat bool
  | Memset nat nat nat
  | Usleep nat
  | Sleep nat
  | Mq_open string "mq_flag list" nat int
  | Mq_close int
  | Getipnodebyname string

subsection \<open>heap\_shm\_allocator\<close>

text \<open>\<^verbatim>\<open>strstr\<close>, as a boolean.\<close>

fun strstr :: "string \<Rightarrow> string \<Rightarrow> bool" where
  "strstr [] needle = (needle = [])"
| "strstr (c # cs) needle = (take (length needle) (c # cs) = needle \<or> strstr cs needle)"

fun scan_lines :: "string list \<Rightarrow> small_event list \<times> int" where
  "scan_lines [] = ([], 0)"
| "scan_lines (line # rest) =
     (if strstr line ''RssAnon:'' then ([Getline line], 1)
      else case scan_lines rest of (tr, r) \<Rightarrow> (Getline line # tr, r))"

text \<open>\<open>status\<close> is what \<^verbatim>\<open>stat\<close>, \<^verbatim>\<open>fopen\<close> and \<^verbatim>\<open>getline\<close> report of the status file of the process \<open>mypid\<close>:
  \<open>None\<close> if it does not exist, \<open>Some None\<close> if it cannot be opened, else its lines. The stream is not closed.\<close>

definition private_rss_supported :: "int \<Rightarrow> string list option option \<Rightarrow> small_event list \<times> (int, int) outcome" where
  "private_rss_supported mypid status =
     (let file = ''/proc/'' @ print_lld mypid @ ''/status'' in
      case status of
        None \<Rightarrow> ([Stat file, Say (''The file '' @ file @ '' does not exist, EXITING'' @ NL)], Returns 0)
      | Some None \<Rightarrow> ([Stat file, Fopen file, Say (''Failed to open '' @ file @ NL)], Throws 1)
      | Some (Some lines) \<Rightarrow> (case scan_lines lines of (tr, r) \<Rightarrow> ([Stat file, Fopen file] @ tr, Returns r)))"

definition heap_main :: "int \<Rightarrow> string list option option \<Rightarrow> small_event list \<times> int" where
  "heap_main mypid status =
     (case private_rss_supported mypid status of
        (tr, Returns r) \<Rightarrow> (tr @ (if r \<noteq> 0 then [Say (''We can check Private RSS per process.'' @ NL)] else []), 0)
      | (tr, Throws e) \<Rightarrow> (tr, e)
      | (tr, Undefined) \<Rightarrow> (tr, 0))"

lemma strstr_sublist: "strstr s needle \<longleftrightarrow> sublist needle s"
proof (induction s)
  case (Cons c cs)
  have "prefix needle (c # cs) \<longleftrightarrow> take (length needle) (c # cs) = needle"
    by (metis append_eq_conv_conj prefix_def append_take_drop_id)
  with Cons show ?case by (simp only: strstr.simps sublist_Cons_right)
qed simp

lemma scan_lines_result: "snd (scan_lines lines) = (if \<exists>l \<in> set lines. sublist ''RssAnon:'' l then 1 else 0)"
  by (induction lines) (auto simp: strstr_sublist split: prod.split)

lemma scan_lines_silent: "Say s \<notin> set (fst (scan_lines lines))"
  by (induction lines) (auto split: prod.split)

text \<open>
  \<^verbatim>\<open>private_rss_supported\<close> answers 1 exactly when some line of the status file contains
  \<^verbatim>\<open>RssAnon:\<close> at any position (its comment promises the beginning of the line), 0 when there is
  no such line or no such file, and ends the process only when the file exists but cannot be
  opened; the tool says that it can check the memory exactly in the first case.
\<close>

theorem private_rss_scan:
  "(snd (private_rss_supported mypid status) = Returns 1 \<longleftrightarrow>
      (\<exists>lines. status = Some (Some lines) \<and> (\<exists>l \<in> set lines. sublist ''RssAnon:'' l))) \<and>
   (snd (private_rss_supported mypid status) = Throws e \<longleftrightarrow> status = Some None \<and> e = 1) \<and>
   snd (private_rss_supported mypid status) \<noteq> Undefined \<and>
   (Say (''We can check Private RSS per process.'' @ NL) \<in> set (fst (heap_main mypid status)) \<longleftrightarrow>
      snd (private_rss_supported mypid status) = Returns 1)"
proof (cases status)
  case (Some st)
  show ?thesis
  proof (cases st)
    case (Some lines)
    have "snd (scan_lines lines) = 0 \<or> snd (scan_lines lines) = 1" by (simp add: scan_lines_result)
    with \<open>status = Some st\<close> Some scan_lines_result [of lines] scan_lines_silent [of _ lines] show ?thesis
      by (cases "scan_lines lines") (auto simp: private_rss_supported_def heap_main_def Let_def split: if_splits)
  qed (use Some in \<open>auto simp: private_rss_supported_def heap_main_def Let_def\<close>)
qed (auto simp: private_rss_supported_def heap_main_def Let_def)

subsection \<open>memory\_alloc\<close>

definition SZ :: nat where "SZ = 32"

text \<open>\<open>malloc_ok n\<close> tells whether the \<open>n\<close>-th call of \<^verbatim>\<open>malloc\<close> succeeds, \<open>err\<close> is \<^verbatim>\<open>errno\<close> after a failure.\<close>

fun alloc_loop :: "(nat \<Rightarrow> bool) \<Rightarrow> int \<Rightarrow> nat \<Rightarrow> nat \<Rightarrow> small_event list \<times> bool" where
  "alloc_loop malloc_ok err n 0 = ([], True)"
| "alloc_loop malloc_ok err n (Suc k) =
     (if malloc_ok n then (case alloc_loop malloc_ok err (Suc n) k of (st, ok) \<Rightarrow> (Malloc n (2 ^ 20) True # st, ok))
      else ([Malloc n (2 ^ 20) False, Say_error ''UNEXPECTED malloc failure'', Say (''ERRNO: '' @ print_lld err @ NL),
             Say (''malloc failure after '' @ decimal n @ '' MB'' @ NL)], False))"

definition memory_alloc :: "(nat \<Rightarrow> bool) \<Rightarrow> int \<Rightarrow> small_event list \<times> int" where
  "memory_alloc malloc_ok err =
     (case alloc_loop malloc_ok err 0 SZ of
        (st, False) \<Rightarrow> (st, 1)
      | (st, True) \<Rightarrow>
          (if \<not> malloc_ok SZ then (st @ [Malloc SZ 1 False, Say_error ''EXPECTED malloc failure''], 0)
           else (st @ [Malloc SZ 1 True] @
                 concat (map (\<lambda>i. [Usleep 250000, Memset i 1 (2 ^ 20), Say (decimal (i + 1) @ '' MB'' @ NL)]) [0..<SZ]) @
                 [Memset SZ 1 1, Sleep 20], 0)))"

lemma alloc_loop_ok:
  assumes "\<forall>i \<in> {n..<n + k}. malloc_ok i"
  shows "alloc_loop malloc_ok err n k = (map (\<lambda>i. Malloc i (2 ^ 20) True) [n..<n + k], True)"
  using assms
proof (induction k arbitrary: n)
  case (Suc k)
  have "[n..<n + Suc k] = n # [Suc n..<Suc n + k]" by (simp add: upt_conv_Cons)
  with Suc.prems Suc.IH [of "Suc n"] show ?case by (simp del: upt_Suc)
qed simp

lemma alloc_loop_fails:
  assumes "\<exists>i \<in> {n..<n + k}. \<not> malloc_ok i"
  shows "\<not> snd (alloc_loop malloc_ok err n k) \<and> (\<forall>i b m. Memset i b m \<notin> set (fst (alloc_loop malloc_ok err n k)))"
  using assms
proof (induction k arbitrary: n)
  case (Suc k)
  show ?case
  proof (cases "malloc_ok n")
    case True
    from Suc.prems obtain i where "i \<in> {n..<n + Suc k}" "\<not> malloc_ok i" by blast
    moreover from this True have "i \<noteq> n" by auto
    ultimately have "\<exists>i \<in> {Suc n..<Suc n + k}. \<not> malloc_ok i" by (intro bexI [of _ i]) auto
    from Suc.IH [OF this] True show ?thesis by (auto split: prod.splits)
  qed simp
qed simp

text \<open>
  \<^verbatim>\<open>memory_alloc\<close> only touches memory that it has got: every \<^verbatim>\<open>memset\<close> goes to a block whose \<^verbatim>\<open>malloc\<close> with that size
  has succeeded. It touches all 32 MB and the last byte when every call succeeds, and nothing otherwise; its status is 1 exactly when one of
  the first 32 allocations fails.
\<close>

theorem memory_alloc_touches:
  "(\<forall>i b m. Memset i b m \<in> set (fst (memory_alloc malloc_ok err)) \<longrightarrow> Malloc i m True \<in> set (fst (memory_alloc malloc_ok err))) \<and>
   (if \<forall>i \<le> SZ. malloc_ok i
    then \<forall>i < SZ. Memset i 1 (2 ^ 20) \<in> set (fst (memory_alloc malloc_ok err))
    else \<forall>i b m. Memset i b m \<notin> set (fst (memory_alloc malloc_ok err))) \<and>
   (snd (memory_alloc malloc_ok err) = 1 \<longleftrightarrow> (\<exists>i < SZ. \<not> malloc_ok i))"
proof (cases "\<forall>i < SZ. malloc_ok i")
  case True
  then have "alloc_loop malloc_ok err 0 SZ = (map (\<lambda>i. Malloc i (2 ^ 20) True) [0..<SZ], True)"
    using alloc_loop_ok [of 0 SZ malloc_ok err] by simp
  with True show ?thesis by (auto simp: memory_alloc_def le_less)
next
  case False
  then have "\<exists>i \<in> {0..<0 + SZ}. \<not> malloc_ok i" by auto
  from alloc_loop_fails [OF this, of err] obtain st where "alloc_loop malloc_ok err 0 SZ = (st, False)" "\<forall>i b m. Memset i b m \<notin> set st"
    by (cases "alloc_loop malloc_ok err 0 SZ") auto
  with False show ?thesis by (auto simp: memory_alloc_def)
qed

theorem memory_alloc_touches_witness:
  "Memset 31 1 (2 ^ 20) \<in> set (fst (memory_alloc (\<lambda>_. True) 0)) \<and> snd (memory_alloc (\<lambda>i. i < 5) 12) = 1"
proof -
  have "31 < SZ" "5 < SZ" by (simp_all add: SZ_def)
  then show ?thesis using memory_alloc_touches [of "\<lambda>_. True" 0] memory_alloc_touches [of "\<lambda>i. i < 5" 12] by auto
qed

subsection \<open>Message queues and host names\<close>

text \<open>\<^verbatim>\<open>mq_create1\<close>: \<open>opts\<close> are the letters that \<^verbatim>\<open>getopt\<close> returns, \<open>operands\<close> the arguments left over, \<open>mqd\<close> the
  result of \<^verbatim>\<open>mq_open\<close>, which is not examined. \<^verbatim>\<open>PRIV_MODE\<close> is 0600.\<close>

definition PRIV_MODE :: nat where "PRIV_MODE = 384"

definition mq_create1 :: "int \<Rightarrow> char list \<Rightarrow> string list \<Rightarrow> small_event list \<times> int" where
  "mq_create1 mqd opts operands =
     (let flags = fold (\<lambda>c flags. if c = CHR ''e'' \<and> MQ_EXCL \<notin> set flags then flags @ [MQ_EXCL] else flags) opts [MQ_RDWR, MQ_CREAT] in
      if length operands \<noteq> 1 then ([Say (''usage: mqcreate [ -e ] <name>'' @ NL)], 1)
      else ([Mq_open (operands ! 0) flags PRIV_MODE mqd, Mq_close mqd], 0))"

text \<open>\<^verbatim>\<open>mq_name\<close> reports a failing \<^verbatim>\<open>mq_open\<close> of \<^verbatim>\<open>/mymq\<close>, whose mode is 0644.\<close>

definition mq_name :: "int \<Rightarrow> small_event list \<times> int" where
  "mq_name mq = (Mq_open ''/mymq'' [MQ_RDWR, MQ_CREAT] 420 mq # (if mq = -1 then [Say_error ''Couldn't open mq''] else []), 0)"

text \<open>\<^verbatim>\<open>nscd_non_existent_host/test1.c\<close>; without a program name \<^verbatim>\<open>argv[0]\<close> is null and is printed, which is undefined.\<close>

definition host_lookup :: "(string \<Rightarrow> 'h option) \<Rightarrow> string list \<Rightarrow> (small_event list \<times> int) option" where
  "host_lookup getipnodebyname argv =
     (case argv of
        [] \<Rightarrow> None
      | [prog, host] \<Rightarrow>
          (case getipnodebyname host of
             None \<Rightarrow> Some ([Getipnodebyname host, Say (host @ '': Unknown hostname'' @ NL)], 1)
           | Some h \<Rightarrow> Some ([Getipnodebyname host], 0))
      | prog # args \<Rightarrow> Some ([Say (''usage: '' @ prog @ '' hostname'' @ NL)], 1))"

lemma mq_create1_flags:
  "set (fold (\<lambda>c flags. if c = CHR ''e'' \<and> MQ_EXCL \<notin> set flags then flags @ [MQ_EXCL] else flags) opts fl) =
     set fl \<union> (if CHR ''e'' \<in> set opts then {MQ_EXCL} else {})"
  by (induction opts arbitrary: fl) auto

text \<open>The queue is created exclusively exactly when \<^verbatim>\<open>-e\<close> is among the options, however often; and the tool reports success also when the
  creation has failed.\<close>

lemma mq_create1_opens:
  "\<exists>flags. mq_create1 mqd opts [name] = ([Mq_open name flags PRIV_MODE mqd, Mq_close mqd], 0) \<and>
     set flags = {MQ_RDWR, MQ_CREAT} \<union> (if CHR ''e'' \<in> set opts then {MQ_EXCL} else {})"
  by (auto simp: mq_create1_def Let_def mq_create1_flags)

end
