(* ===== verification/Spec2Isabelle.thy ===== *)
theory Spec2Isabelle
  imports PipeFairBuffer PipeValidate PipeReport PipeWellFormed MWait Utility StreamingException AioReturn AioOutput
    AioControlBlocks RandomAtMost FileEffects ToolEffects SharedMemory Libproc LibElf SmallTools
begin

text \<open>
  \<^bold>\<open>The repository.\<close> A collection of performance experiments for Solaris and Linux. Its own code
  is a lock-free single-reader single-writer pipe with its support headers
  (\<^verbatim>\<open>src/lockless_pipe\<close>), a family of file writing tests
  (\<^verbatim>\<open>src/async_to_sync_writes\<close>), shared memory tests (\<^verbatim>\<open>src/shmadv\<close>), programs over the libproc and
  libelf libraries (\<^verbatim>\<open>src/libproc\<close>) and some one-file tools (\<^verbatim>\<open>src/memory\<close>, \<^verbatim>\<open>src/resource_controls\<close>,
  \<^verbatim>\<open>src/posix_mq\<close>, \<^verbatim>\<open>src/nscd_non_existent_host\<close>). The parts do not share state; within
  \<^verbatim>\<open>lockless_pipe\<close> the pipe relies on the fences and throws the exceptions of its sibling headers,
  and within \<^verbatim>\<open>async_to_sync_writes\<close> the program \<^verbatim>\<open>main.c\<close> calls the option parser, the buffer
  initialisation and one of three write tests.

  \<^bold>\<open>Prelude and strings.\<close> \<open>Prelude\<close> holds the word types, the \<open>outcome\<close> of a call (a return, a
  throw or exit, undefined behaviour), byte buffers with \<^verbatim>\<open>memcpy\<close>, the memory image of a 32-bit
  integer, and the locale \<open>invariant_system\<close>, a step relation with an inductive invariant, which every
  concurrent component interprets, with its extension \<open>functional_refinement\<close> by an abstract step relation.
  \<open>Decimal\<close> reads and prints numbers and has the field widths of \<^verbatim>\<open>printf\<close>. \<open>CString\<close> models the \<^verbatim>\<open><string.h>\<close> functions on character buffers
  of fixed size.

  \<^bold>\<open>The pipe.\<close> \<open>LocklessPipe\<close> translates the members of \<^verbatim>\<open>LocklessPipe.hpp\<close> one by one over a
  record of its data members; the two packed 64-bit pointers, the 32-bit sums and the
  cut to 32 bits in \<^verbatim>\<open>push\<close> are at their widths. \<^verbatim>\<open>read\<close> is declared but not defined in the class, so
  \<open>pop\<close> and \<open>peek\<close> take it as an argument. The polling loops are \<open>partial_function (option)\<close>: \<open>None\<close> is a
  loop that does not end, and the environment of a loop says what the other thread does while
  it sleeps. \<open>PipeLayout\<close> describes, over natural numbers, how elements lie in the buffer;
  \<open>PipeRing\<close> relates a pipe to the queue of byte strings it represents (\<open>pipe_abs\<close>);
  \<open>PipeProperties\<close> states the contract \<open>byte_fifo\<close> of a bounded queue, interprets it on the pipe, and
  has the refinement of \<open>push\<close> to appending, its completion once there is room, its overrun for lengths above 32 bits, the
  observers and \<open>validate\<close>. \<open>PipeWait\<close> shows exactly when the waits return, and with which pipe.
  \<open>PipeConcurrency\<close> cuts \<open>push\<close> at every store to shared memory and interleaves it with a reader:
  the queue stays intact in every reachable state and is consumed in order, a push is
  wait-free after its room check, and the sequential \<open>push\<close> is one of the runs. \<open>PipeFairness\<close> looks at infinite runs in
  which neither thread is left out for ever (locale \<open>fair_progress\<close>, a rank that the moves of a thread lower, interpreted
  for both threads): every push ends, its element arrives, and a polling writer finds room. \<open>PipeConcurrency\<close> has stores that become visible
  in program order; \<open>MemoryFence\<close> shows for the macros of \<^verbatim>\<open>membar.h\<close>, section by section,
  that the fences give at least the orderings of the C11 fences, and when the spin
  lock of the header excludes: on x86 only if its assembly statement happens to get \<^verbatim>\<open>eax\<close>. \<open>PipeStoreBuffer\<close> puts the two together: the stores of the writer wait in a
  buffer and become visible late and in any order that the fences of \<^verbatim>\<open>startWrite\<close> and \<^verbatim>\<open>finishWrite\<close>
  allow; with them the pipe refines the one of \<open>PipeConcurrency\<close> and delivers what was pushed. \<open>PipeFairBuffer\<close> has its infinite runs: the writer goes on, the oldest store of the buffer becomes visible
  and the reader takes out what it sees, three interpretations of \<open>fair_progress\<close>, which together deliver every element.
  \<open>PipeValidate\<close> lets the threads run between the loads of \<^verbatim>\<open>validate\<close>: which calls raise no false alarm. \<open>PipeWellFormed\<close> shows that the operations with a body keep the representation
  well formed when the other threads do (locale \<open>good_neighbours\<close>). \<open>PipeReport\<close> models \<^verbatim>\<open>print\<close> and the diagnostics
  of \<^verbatim>\<open>validate\<close> and \<^verbatim>\<open>startWrite\<close> on an output stream: the report determines the pipe, and \<^verbatim>\<open>validate\<close> reports
  exactly the pipes it rejects.

  \<^bold>\<open>The MWAIT demonstration.\<close> \<open>MWait\<close>: the assembly functions of \<^verbatim>\<open>mwait.cpp\<close> as word operations over a
  monitored load and a wait, given as functions on the machine state; the 32-bit and 64-bit versions agree.
  \<open>Sequester\<close> is the layout that keeps the awaited location alone on its cache lines.
  \<open>mwait_main\<close> gives the lines that \<^verbatim>\<open>main\<close> prints, over the readings of the clock and what each round of its
  loop observes.

  \<^bold>\<open>Support headers.\<close> \<open>Utility\<close>: bit arrays in network order (locale \<open>bit_array\<close>, interpreted on the
  byte functions), round robin, alignment. \<open>StreamingException\<close>: the 256 byte message buffer of
  \<^verbatim>\<open>StreamingException.h\<close> and \<^verbatim>\<open>Errno.hh\<close>.

  \<^bold>\<open>File writing tests.\<close> \<open>AioWrite\<close>: the two threads of \<^verbatim>\<open>aio_write_test.c\<close> with mutex,
  condition variable, signals and kernel as a step relation with one rule per shared access,
  branch and failing call; mutual exclusion and accounting, and the consequences of the wait condition.
  \<open>AioShortRuns\<close>: for fewer writes than a batch every run ends, by a rank that each
  step lowers. \<open>AioOutput\<close>: what the steps print; the lines about handled completions count full batches without a gap.
  \<open>AioReturn\<close>: how many writes have been submitted, completed and left in flight when the test returns.
  \<open>AioControlBlocks\<close>: the control blocks of this test and of the list test on the heap, beside the
  steps of the threads: who uses them, which addresses the signals carry, that they read inside the allocated buffers, and when they are
  freed.
  \<open>RandomAtMost\<close>: \<^verbatim>\<open>random_at_most\<close> over the list of draws. \<open>FileTests\<close>: the
  stand-alone programs as sequences of system calls and printed lines, given what the calls return. \<open>FileEffects\<close>: an abstract file system
  that the calls update (names, lengths, open descriptors, asynchronous writes under way, what is not yet on stable storage), given the results that the
  programs ignore and the order in which writes complete, and what each program leaves in it.
  \<open>Options\<close>: the option tables and the option loop, over the results of \<^verbatim>\<open>getopt_long\<close>. \<open>WriteTool\<close>: \<^verbatim>\<open>main.c\<close>, the buffers,
  the \<^verbatim>\<open>pwrite\<close> test and the list test, with their lines and failing calls; an exit keeps what happened before it. \<open>ToolEffects\<close> performs the
  calls of a run with the \<^verbatim>\<open>pwrite\<close> test on the files of a system, where \<^verbatim>\<open>open\<close>, \<^verbatim>\<open>rename\<close> and \<^verbatim>\<open>unlink\<close> may fail: names, sizes, and what is on
  stable storage afterwards. This theory adds the \<^verbatim>\<open>aio_write\<close> test as the tool
  configures it.

  \<^bold>\<open>Other programs.\<close> \<open>SharedMemory\<close>: calls and accesses of the three programs of \<^verbatim>\<open>shmadv\<close>, the
  segments left behind and the bounds of the accesses, which depend on \<^verbatim>\<open>RAND_MAX\<close>. \<open>Libproc\<close>: the walks over objects and
  symbols for any iterator that keeps the contract \<open>iterates\<close> (call back in order until a call
  returns a value other than 0 or ends the process; nothing is assumed of a null handle in the theorem on \<^verbatim>\<open>extract_symtab_from_exec\<close>), as sequences of library calls and printed lines: what is reported, which handles are
  left open, how the runs end. \<open>LibElf\<close>: \<^verbatim>\<open>libelftest.c\<close> in the same style. \<open>LibprocHeader\<close>: the codes and flags of \<^verbatim>\<open>libproc.h\<close>, which decode
  uniquely (locales \<open>code_group\<close>, \<open>flag_group\<close>). \<open>SmallTools\<close>: the rest.

  \<^bold>\<open>Bounds.\<close> There is no fuel. Loops over a counter are recursive functions with a termination
  proof; a loop over values from outside (draws of \<^verbatim>\<open>random()\<close>, signals) takes them as a list and
  its result says when more would be needed; the loops that wait for another thread and the list
  loop, whose \<^verbatim>\<open>int\<close> counter can wrap, are \<open>partial_function (option)\<close>, and theorems that they return
  state \<open>Some\<close>. Sizes such as 4 GiB of writes are kept and reasoned about symbolically.

  \<^bold>\<open>Not modelled.\<close> The wait of
  \<^verbatim>\<open>NoWakeupUsecPolicy\<close> and \<^verbatim>\<open>read\<close>, which have no body; the prototypes of
  \<^verbatim>\<open>libproc.h\<close> and \<^verbatim>\<open>Utility.h\<close>, whose functions are not in the repository; \<^verbatim>\<open>aio_signal_test.cc\<close>, whose braces do not match so that the
  body of its loop is not determined, and \<^verbatim>\<open>aio_portevent_test.cc\<close>, which is a comment; the scripts. \<^verbatim>\<open>stopReader\<close>, which
  as written cannot be instantiated. The reader of the interleavings takes the oldest element out in one step, in place of the
  missing \<^verbatim>\<open>read\<close>. What the compare-and-swap of x86 does to a register that the compiler does not know to be changed is not followed. \<^verbatim>\<open>double\<close> arithmetic
  in \<^verbatim>\<open>percentFull\<close> is exact here. In \<open>PipeStoreBuffer\<close> the loads of the reader are in order, which
  is what \<^verbatim>\<open>MF_read_sync\<close> is for; the code that would call it is in the missing \<^verbatim>\<open>read\<close>. \<^verbatim>\<open>random_at_most\<close> is the same text in three programs
  and is modelled once. The content of uninitialised variables and of fresh memory is an argument where it is used. The line that the updater thread of \<^verbatim>\<open>mwait.cpp\<close> prints when it starts is not among the lines of
  \<open>mwait_main\<close>, since its place among them is not fixed. What the asynchronous tests write to the file is not followed block by block, since the
  system orders the writes; \<open>AioReturn\<close> counts them.
\<close>

subsection \<open>The asynchronous write test as the tool calls it\<close>

text \<open>The configuration of the two threads for the sizes given on the command line and the limit that
  \<^verbatim>\<open>sysconf(_SC_AIO_MAX)\<close> reports, in a run without failing calls and spurious wakeups.\<close>

definition aio_config_for :: "int \<Rightarrow> int \<Rightarrow> int \<Rightarrow> aio_config option" where
  "aio_config_for fs bs sysconf_result =
     map_option (\<lambda>n. \<lparr>iterations = n, max_aios = aio_limit sysconf_result, faults = False, spurious = False\<rparr>)
       (iteration_count fs bs)"

text \<open>Without a block to write the completion thread gets no signal, and the join waits for it.\<close>

definition idle_inv :: "aio_state \<Rightarrow> bool" where
  "idle_inv s \<longleftrightarrow> (main_at s = M_outer \<or> main_at s = M_join) \<and> sig_at s = S_wait \<and> in_flight s = 0 \<and>
     queued s = 0 \<and> stops s = 0 \<and> exit_code s = None"

lemma main_step_idle:
  "main_step c s t \<Longrightarrow> iterations c = 0 \<Longrightarrow> idle_inv s \<Longrightarrow> idle_inv t"
  by (induction rule: main_step.induct) (auto simp: idle_inv_def outer_continues_def not_less)

lemma sig_step_idle: "sig_step c s t \<Longrightarrow> \<not> faults c \<Longrightarrow> idle_inv s \<Longrightarrow> idle_inv t"
  by (induction rule: sig_step.induct) (auto simp: idle_inv_def)

lemma aio_step_idle: "aio_step c s t \<Longrightarrow> iterations c = 0 \<Longrightarrow> \<not> faults c \<Longrightarrow> idle_inv s \<Longrightarrow> idle_inv t"
  by (induction rule: aio_step.induct) (auto simp: main_step_idle sig_step_idle, simp add: idle_inv_def)

interpretation idle_system: invariant_system "aio_step c" "\<lambda>s. iterations c = 0 \<and> \<not> faults c \<and> idle_inv s" for c
  by unfold_locales (auto intro: aio_step_idle)

lemma idle_never_done: "aio_reachable c s \<Longrightarrow> iterations c = 0 \<Longrightarrow> \<not> faults c \<Longrightarrow> main_at s \<noteq> M_done"
  using idle_system.run_keeps [of c aio_start s]
  by (auto simp: aio_reachable_def idle_inv_def aio_start_def)

lemma small_reachable:
  assumes "small_config c" "aio_reachable c s"
  shows "small_inv c s"
  using small_system.run_keeps [of c aio_start s] small_inv_start [OF assms(1)] assms(2)
  by (simp add: aio_reachable_def)

text \<open>
  Property C17. What the tool does with \<^verbatim>\<open>--test=aio_write\<close>, for a file of \<open>filesize div blocksize\<close> blocks
  and a batch of \<open>limit\<close> writes (512 if the system has no limit), without failing calls: with
  no block at all it never returns, since the join waits for a thread that gets no signal; with
  fewer blocks than a batch every run that can go no further has returned, and it can have returned while
  all writes of the batch beyond the needed blocks are in flight, so that the tool renames and removes the file under
  them; with at least a batch there is a run after which it never returns. Whenever it has returned the needed blocks have completed
  and whole batches have been submitted, so that the file gets more than was asked for unless the blocks
  fill their batches (as long as the \<^verbatim>\<open>int\<close> counter does not overflow).
\<close>

theorem aio_test_of_the_tool:
  assumes "0 \<le> fs" "fs \<le> LLONG_MAX" "0 < bs" "0 < aio_limit sc" "aio_limit sc < 2 ^ 31"
  shows "\<exists>c. aio_config_for fs bs sc = Some c \<and>
     (fs div bs = 0 \<longrightarrow> (\<forall>s. aio_reachable c s \<longrightarrow> main_at s \<noteq> M_done)) \<and>
     (0 < fs div bs \<and> fs div bs < aio_limit sc \<longrightarrow>
        (\<forall>s. aio_reachable c s \<longrightarrow> (\<nexists>t. aio_step c s t) \<longrightarrow> main_at s = M_done) \<and>
        (\<exists>s. aio_reachable c s \<and> main_at s = M_done \<and> int (in_flight s) = aio_limit sc - fs div bs)) \<and>
     (aio_limit sc \<le> fs div bs \<longrightarrow>
        (\<exists>s. aio_reachable c s \<and> (\<forall>t. (aio_step c)\<^sup>*\<^sup>* s t \<longrightarrow> main_at t \<noteq> M_done))) \<and>
     (fs div bs + aio_limit sc < 2 ^ 31 \<longrightarrow>
        (\<forall>s. aio_reachable c s \<and> main_at s = M_done \<longrightarrow>
           fs div bs \<le> total_ios_completed s \<and> aio_limit sc dvd int (submitted s) \<and>
           fs div bs \<le> int (submitted s) \<and> int (submitted s) < fs div bs + aio_limit sc \<and>
           int (in_flight s) + int (queued s) = int (submitted s) - total_ios_completed s))"
proof -
  let ?c = "\<lparr>iterations = nat (fs div bs), max_aios = aio_limit sc, faults = False, spurious = False\<rparr>"
  have pos: "0 \<le> fs div bs" using assms(1,3) by (simp add: pos_imp_zdiv_nonneg_iff)
  have "aio_config_for fs bs sc = Some ?c"
    by (simp add: aio_config_for_def iteration_count_nonneg [OF assms(1-3)])
  moreover have "\<forall>s. aio_reachable ?c s \<longrightarrow> main_at s \<noteq> M_done" if "fs div bs = 0"
    using that idle_never_done [of ?c] by simp
  moreover have "(\<forall>s. aio_reachable ?c s \<longrightarrow> (\<nexists>t. aio_step ?c s t) \<longrightarrow> main_at s = M_done) \<and>
      (\<exists>s. aio_reachable ?c s \<and> main_at s = M_done \<and> int (in_flight s) = aio_limit sc - fs div bs)"
    if "0 < fs div bs \<and> fs div bs < aio_limit sc"
  proof -
    have small: "small_config ?c" using that assms(5) by (simp add: small_config_def)
    with returns_early [OF this] pos show ?thesis using small_reachable small_not_stuck by fastforce
  qed
  moreover have "\<exists>s. aio_reachable ?c s \<and> (\<forall>t. (aio_step ?c)\<^sup>*\<^sup>* s t \<longrightarrow> main_at t \<noteq> M_done)"
    if "aio_limit sc \<le> fs div bs"
    using full_batch_can_hang [of ?c] that pos assms(4) by auto
  moreover have "fs div bs \<le> total_ios_completed s \<and> aio_limit sc dvd int (submitted s) \<and>
      fs div bs \<le> int (submitted s) \<and> int (submitted s) < fs div bs + aio_limit sc \<and>
      int (in_flight s) + int (queued s) = int (submitted s) - total_ios_completed s"
    if "fs div bs + aio_limit sc < 2 ^ 31" "aio_reachable ?c s \<and> main_at s = M_done" for s
  proof -
    have fits: "fits_int ?c" using that(1) pos assms(4) by (simp add: fits_int_def)
    from batches_at_return [OF _ fits] return_state [OF _ fits] that(2) pos show ?thesis
      by (simp add: whole_batches_def)
  qed
  ultimately show ?thesis by blast
qed

theorem aio_test_of_the_tool_witness:
  "\<exists>c. aio_config_for 1024 512 (- 1) = Some c \<and>
     (\<exists>s. aio_reachable c s \<and> main_at s = M_done \<and> int (in_flight s) = 510)"
  using aio_test_of_the_tool [of 1024 512 "- 1"] by (auto simp: LLONG_MAX_def aio_limit_def)

end
